(* ===== verification/Prelude.thy ===== *)
theory Prelude
  imports Main "HOL-Library.Word" "HOL-Library.Monad_Syntax"
begin

text \<open>
  Shared vocabulary of the development: the machine integer types of the C code (LP64), pointers,
  the option monad in which \<^term>\<open>None\<close> stands for undefined behaviour of C (or for a
  call that never returns), bounds-checked array access, and the generic lemmas on lists and
  words that the components share.
\<close>

section \<open>Types\<close>

type_synonym u8 = "8 word"
type_synonym u32 = "32 word"
type_synonym u64 = "64 word"

text \<open>
  \<open>size_t\<close>, \<open>ssize_t\<close>, \<open>loff_t\<close> and \<open>unsigned long\<close> are 64 bits wide on the targets of the
  project (aarch64 and x86-64). A signed type is the same word, read by \<^term>\<open>sint\<close>.
\<close>

type_synonym s64 = "64 word"
type_synonym byte = u8

text \<open>A pointer into allocated memory: \<open>NULL\<close> or the address of an allocated block.\<close>

type_synonym addr = nat
type_synonym ptr = "addr option"

abbreviation NULL :: ptr where
  "NULL \<equiv> None"

text \<open>The newline character.\<close>

definition newline :: byte where
  "newline = 10"

section \<open>Collections of facts\<close>

named_theorems c_defs \<open>unfolding of the small C helpers\<close>
named_theorems unat_arith_simps \<open>words read as natural numbers, where nothing wraps\<close>

section \<open>Undefined behaviour\<close>

text \<open>
  A computation that C leaves undefined is \<^term>\<open>None\<close>. \<open>assert_c\<close> is the guard
  of such a computation.
\<close>

definition assert_c :: "bool \<Rightarrow> unit option" where
  "assert_c b = (if b then Some () else None)"

lemma assert_c_bind [simp]:
  "(assert_c b \<bind> f) = (if b then f () else None)"
  by (simp add: assert_c_def)

text \<open>Array access \<open>xs[i]\<close>: out of range it is undefined in C.\<close>

definition array_get :: "'a list \<Rightarrow> nat \<Rightarrow> 'a option" where
  "array_get xs i = (if i < length xs then Some (xs ! i) else None)"

definition array_set :: "'a list \<Rightarrow> nat \<Rightarrow> 'a \<Rightarrow> 'a list option" where
  "array_set xs i v = (if i < length xs then Some (xs[i := v]) else None)"

lemma array_get_in [simp]: "i < length xs \<Longrightarrow> array_get xs i = Some (xs ! i)"
  by (simp add: array_get_def)

lemma array_set_in [simp]: "i < length xs \<Longrightarrow> array_set xs i v = Some (xs[i := v])"
  by (simp add: array_set_def)

lemma array_get_Some_iff: "array_get xs i = Some v \<longleftrightarrow> i < length xs \<and> xs ! i = v"
  by (auto simp: array_get_def)

section \<open>Lists\<close>

text \<open>The last \<open>n\<close> elements of a list: what a ring of \<open>n\<close> slots remembers.\<close>

definition last_n :: "nat \<Rightarrow> 'a list \<Rightarrow> 'a list" where
  "last_n n xs = drop (length xs - n) xs"

lemma last_n_short [simp]: "length xs \<le> n \<Longrightarrow> last_n n xs = xs"
  by (simp add: last_n_def)

lemma length_last_n [simp]: "length (last_n n xs) = min n (length xs)"
  by (simp add: last_n_def)

lemma set_last_n_subset: "set (last_n n xs) \<subseteq> set xs"
  by (simp add: last_n_def set_drop_subset)

lemma last_n_snoc_full:
  "length xs = n \<Longrightarrow> 0 < n \<Longrightarrow> last_n n (xs @ [x]) = tl xs @ [x]"
  by (simp add: last_n_def drop_Suc)

lemma last_n_append_last_n: "last_n n (last_n n xs @ ys) = last_n n (xs @ ys)"
proof (cases "length xs \<le> n")
  case True
  then show ?thesis by simp
next
  case False
  then show ?thesis by (simp add: last_n_def add.commute)
qed

lemma last_n_map: "last_n n (map f xs) = map f (last_n n xs)"
  by (simp add: last_n_def drop_map)

lemma last_n_append_long: "n \<le> length ys \<Longrightarrow> last_n n (xs @ ys) = last_n n ys"
  by (simp add: last_n_def)

lemma sum_list_bounded:
  fixes xs :: "nat list"
  assumes "\<forall>x \<in> set xs. x \<le> b"
  shows "sum_list xs \<le> length xs * b"
  using assms by (induction xs) auto

lemma take_take_drop_append:
  "take a xs @ take b (drop a xs) = take (a + b) xs"
  by (simp add: take_add)

lemma take_min_length: "take (min n (length xs)) xs = take n xs"
  by (simp add: min_def)

section \<open>Words\<close>

lemma unat_plus_no_wrap:
  fixes a b :: "'a::len word"
  assumes "unat a + unat b < 2 ^ LENGTH('a)"
  shows "unat (a + b) = unat a + unat b"
  using assms by (simp add: unat_word_ariths)

lemma unat_minus_le:
  fixes a b :: "'a::len word"
  assumes "b \<le> a"
  shows "unat (a - b) = unat a - unat b"
  using assms by (simp add: unat_sub)

lemma word_diff_less:
  fixes a b c :: "'a::len word"
  assumes "a < b + c" "b \<le> a"
  shows "a - b < c"
proof -
  have "unat (b + c) \<le> unat b + unat c"
    by (simp add: unat_word_ariths)
  then show ?thesis
    using assms by (simp add: word_less_nat_alt word_le_nat_alt unat_minus_le)
qed

lemma unat_plus_one_less:
  fixes a b :: "'a::len word"
  shows "a < b \<Longrightarrow> unat (a + 1) = Suc (unat a)"
proof -
  assume "a < b"
  moreover have "unat b < 2 ^ LENGTH('a)"
    by (rule unsigned_less)
  ultimately have "unat a + 1 < 2 ^ LENGTH('a)"
    unfolding word_less_nat_alt by linarith
  then show ?thesis
    by (simp add: unat_plus_no_wrap)
qed

lemma unat_sum_list:
  fixes ws :: "'a::len word list"
  shows "sum_list (map unat ws) < 2 ^ LENGTH('a) \<Longrightarrow> unat (sum_list ws) = sum_list (map unat ws)"
  by (induction ws) (simp_all add: unat_plus_no_wrap)

lemma unat_of_nat_small:
  "n < 2 ^ LENGTH('a) \<Longrightarrow> unat (word_of_nat n :: 'a::len word) = n"
  by (simp add: unat_of_nat take_bit_nat_eq_self)

lemma unat_lt_u64: "unat (w :: u64) < 18446744073709551616"
  using unsigned_less [of w] by simp

lemma unat_add_u64:
  "unat (a + b :: u64) = (if unat a + unat b < 18446744073709551616 then unat a + unat b
     else unat a + unat b - 18446744073709551616)"
  using unat_lt_u64 [of a] unat_lt_u64 [of b]
  by (simp add: unat_word_ariths) (simp add: mod_if)

text \<open>A signed 64-bit word read through its unsigned value.\<close>

lemma sint_u64:
  "sint (w :: u64) = (if unat w < 9223372036854775808 then int (unat w)
     else int (unat w) - 18446744073709551616)"
proof -
  let ?x = "int (unat w)"
  have "sint w = (?x + 9223372036854775808) mod 18446744073709551616 - 9223372036854775808"
    using int_word_sint [of ?x, where 'a = 64] by simp
  moreover have "(?x + 9223372036854775808) mod 18446744073709551616 =
      (?x - 9223372036854775808) mod 18446744073709551616"
    using mod_add_self2 [of "?x - 9223372036854775808" 18446744073709551616] by (simp add: add.commute)
  ultimately show ?thesis
    using unat_lt_u64 [of w] mod_pos_pos_trivial [of "?x + 9223372036854775808" 18446744073709551616]
      mod_pos_pos_trivial [of "?x - 9223372036854775808" 18446744073709551616]
    by (simp del: of_nat_unat)
qed

lemma sint_u32:
  "sint (w :: u32) = (if unat w < 2147483648 then int (unat w) else int (unat w) - 4294967296)"
proof -
  let ?x = "int (unat w)"
  have lt: "unat w < 2 ^ LENGTH(32)"
    by (rule unsigned_less)
  have "sint w = (?x + 2147483648) mod 4294967296 - 2147483648"
    using int_word_sint [of ?x, where 'a = 32] by simp
  moreover have "(?x + 2147483648) mod 4294967296 = (?x - 2147483648) mod 4294967296"
    using mod_add_self2 [of "?x - 2147483648" 4294967296] by (simp add: add.commute)
  ultimately show ?thesis
    using lt mod_pos_pos_trivial [of "?x + 2147483648" 4294967296]
      mod_pos_pos_trivial [of "?x - 2147483648" 4294967296]
    by (simp del: of_nat_unat)
qed

lemma sint_of_nat_u32: "n < 2 ^ 31 \<Longrightarrow> sint (word_of_nat n :: u32) = int n"
proof -
  assume n: "n < 2 ^ 31"
  then have "unat (word_of_nat n :: u32) = n"
    by (intro unat_of_nat_small) simp
  then show ?thesis
    using n by (simp only: sint_u32) simp
qed

text \<open>An \<open>int\<close> counter that grows and stays in range.\<close>

lemma sint_plus_u32:
  assumes "0 \<le> sint (w :: u32)" "sint w + int n < 2 ^ 31"
  shows "sint (w + word_of_nat n) = sint w + int n"
proof -
  have "unat w < 2 ^ LENGTH(32)"
    by (rule unsigned_less)
  then have w: "unat w < 2147483648" "sint w = int (unat w)"
    using assms(1) by (auto simp: sint_u32 simp del: of_nat_unat split: if_splits)
  have "int (unat w + n) < int 2147483648"
    using assms(2) w(2) by (simp del: of_nat_unat)
  then have n: "unat w + n < 2147483648"
    by (simp only: of_nat_less_iff)
  then have "unat (word_of_nat n :: u32) = n"
    by (intro unat_of_nat_small) simp
  then have "unat (w + word_of_nat n) = unat w + n"
    using n by (subst unat_plus_no_wrap) auto
  then show ?thesis
    using n w(2) by (simp add: sint_u32 del: of_nat_unat)
qed

lemma word_of_nat_unat_u64: "word_of_nat (unat w) = (w :: u64)"
  by simp

lemma unat_eq_zero: "unat (w :: 'a::len word) = 0 \<longleftrightarrow> w = 0"
  by (simp add: unat_eq_0)

lemma unat_Suc_u8: "unat (c :: u8) < 255 \<Longrightarrow> unat (c + 1) = Suc (unat c)"
  by (simp add: unat_word_ariths)

section \<open>Sums over finite maps\<close>

definition map_sum :: "('b \<Rightarrow> nat) \<Rightarrow> ('a \<rightharpoonup> 'b) \<Rightarrow> nat" where
  "map_sum g f = (\<Sum>a \<in> dom f. g (the (f a)))"

lemma map_sum_upd:
  assumes "finite (dom f)" "f a = Some x"
  shows "map_sum g (f(a \<mapsto> y)) + g x = map_sum g f + g y"
proof -
  let ?rest = "\<Sum>b \<in> dom f - {a}. g (the (f b))"
  have a: "a \<in> dom f"
    using assms(2) by auto
  have "map_sum g f = g x + ?rest"
    unfolding map_sum_def using assms(2) by (simp add: sum.remove [OF assms(1) a])
  moreover have "map_sum g (f(a \<mapsto> y)) = g y + ?rest"
    unfolding map_sum_def using a by (simp add: insert_absorb sum.remove [OF assms(1) a])
  ultimately show ?thesis
    by simp
qed

lemma map_sum_empty [simp]: "map_sum g Map.empty = 0"
  by (simp add: map_sum_def)

lemma map_sum_elem: "finite (dom f) \<Longrightarrow> f a = Some x \<Longrightarrow> g x \<le> map_sum g f"
  unfolding map_sum_def using member_le_sum [of a "dom f" "\<lambda>b. g (the (f b))"] by auto

lemma map_sum_mono:
  assumes "finite (dom f)" and old: "\<And>a y. f' a = Some y \<Longrightarrow> g y = 0 \<or> f a = Some y"
  shows "map_sum g f' \<le> map_sum g f"
proof (cases "finite (dom f')")
  case True
  have "map_sum g f' = (\<Sum>a \<in> dom f' \<inter> dom f. g (the (f' a)))"
    unfolding map_sum_def
  proof (rule sum.mono_neutral_right [OF True])
    show "\<forall>a \<in> dom f' - dom f' \<inter> dom f. g (the (f' a)) = 0"
      using old by fastforce
  qed auto
  also have "\<dots> \<le> (\<Sum>a \<in> dom f' \<inter> dom f. g (the (f a)))"
    using old by (intro sum_mono) fastforce
  also have "\<dots> \<le> map_sum g f"
    unfolding map_sum_def using assms(1) by (intro sum_mono2) auto
  finally show ?thesis .
qed (simp add: map_sum_def)

end
