(* ===== verification/CircularBuffer.thy ===== *)
theory CircularBuffer
  imports Prelude
begin

text \<open>
  The circular buffer of \<open>aesd-char-driver/aesd-circular-buffer.{c,h}\<close>: its two structs and its
  six functions, as the code has them. An access of \<open>entry[i]\<close> outside the array is undefined
  in C and gives \<^term>\<open>None\<close> here; a returned \<open>struct aesd_buffer_entry *\<close> is the index of
  the slot it points to. The invariants and the proofs are in \<open>RingInvariant\<close>.
\<close>

section \<open>Data\<close>

definition AESDCHAR_MAX_WRITE_OPERATIONS_SUPPORTED :: nat where
  "AESDCHAR_MAX_WRITE_OPERATIONS_SUPPORTED = 10"

declare AESDCHAR_MAX_WRITE_OPERATIONS_SUPPORTED_def [simp]

record aesd_buffer_entry =
  buffptr :: ptr
  esize :: u64

record aesd_circular_buffer =
  entry :: "aesd_buffer_entry list"
  in_offs :: u8
  out_offs :: u8
  full :: bool

text \<open>
  \<open>(offs + 1) % AESDCHAR_MAX_WRITE_OPERATIONS_SUPPORTED\<close>: the \<open>uint8_t\<close> is promoted to \<open>int\<close>,
  so the sum does not wrap before the remainder is taken.
\<close>

definition next_offs :: "u8 \<Rightarrow> u8" where
  "next_offs i = word_of_nat ((unat i + 1) mod AESDCHAR_MAX_WRITE_OPERATIONS_SUPPORTED)"

section \<open>Operations\<close>

text \<open>
  The search loop of \<open>aesd_circular_buffer_find_entry_offset_for_fpos\<close>. The inner
  \<^typ>\<open>(u8 \<times> u64) option\<close> is what the C function returns: \<^term>\<open>None\<close> is its \<open>NULL\<close>,
  \<^term>\<open>Some (i, b)\<close> is \<open>&buffer->entry[i]\<close> with \<open>b\<close> stored through
  \<open>entry_offset_byte_rtn\<close>.
\<close>

function find_entry_loop ::
  "aesd_circular_buffer \<Rightarrow> u64 \<Rightarrow> u64 \<Rightarrow> u8 \<Rightarrow> u8 \<Rightarrow> (u8 \<times> u64) option option" where
  "find_entry_loop buffer char_offset total_bytes_size index count =
     (if unat count < AESDCHAR_MAX_WRITE_OPERATIONS_SUPPORTED then do {
        e \<leftarrow> array_get (entry buffer) (unat index);
        if esize e = 0 then Some None
        else if total_bytes_size + esize e > char_offset then
          Some (Some (index, char_offset - total_bytes_size))
        else if next_offs index = in_offs buffer \<and> \<not> full buffer then Some None
        else find_entry_loop buffer char_offset (total_bytes_size + esize e)
               (next_offs index) (count + 1)
      }
      else Some None)"
  by pat_completeness auto
termination
  by (relation "measure (\<lambda>(b, c, t, i, count). 10 - unat count)") (auto simp: unat_Suc_u8)

declare find_entry_loop.simps [simp del]

definition aesd_circular_buffer_find_entry_offset_for_fpos ::
  "aesd_circular_buffer \<Rightarrow> u64 \<Rightarrow> (u8 \<times> u64) option option" where
  "aesd_circular_buffer_find_entry_offset_for_fpos buffer char_offset =
     find_entry_loop buffer char_offset 0 (out_offs buffer) 0"

text \<open>Adding returns the pointer that the new entry overwrote, \<open>NULL\<close> if the ring was not full.\<close>

definition aesd_circular_buffer_add_entry ::
  "aesd_circular_buffer \<Rightarrow> aesd_buffer_entry \<Rightarrow> (ptr \<times> aesd_circular_buffer) option" where
  "aesd_circular_buffer_add_entry buffer add_entry = do {
     e \<leftarrow> array_get (entry buffer) (unat (in_offs buffer));
     let old_buff = (if full buffer then buffptr e else NULL);
     es \<leftarrow> array_set (entry buffer) (unat (in_offs buffer))
             (e\<lparr>buffptr := buffptr add_entry, esize := esize add_entry\<rparr>);
     let buffer = buffer\<lparr>entry := es, in_offs := next_offs (in_offs buffer)\<rparr>;
     let buffer = (if full buffer then buffer\<lparr>out_offs := next_offs (out_offs buffer)\<rparr> else buffer);
     let buffer = buffer\<lparr>full := (in_offs buffer = out_offs buffer)\<rparr>;
     Some (old_buff, buffer)
   }"

text \<open>\<open>memset(buffer, 0, sizeof(struct aesd_circular_buffer))\<close>\<close>

definition aesd_circular_buffer_init :: "aesd_circular_buffer" where
  "aesd_circular_buffer_init =
     \<lparr>entry = replicate AESDCHAR_MAX_WRITE_OPERATIONS_SUPPORTED \<lparr>buffptr = NULL, esize = 0\<rparr>,
      in_offs = 0, out_offs = 0, full = False\<rparr>"

text \<open>The number of bytes stored: the slots are summed from slot 0 up to the first \<open>NULL\<close>.\<close>

function size_loop :: "aesd_circular_buffer \<Rightarrow> nat \<Rightarrow> u64 \<Rightarrow> u64 option" where
  "size_loop buffer i sz =
     (if i < AESDCHAR_MAX_WRITE_OPERATIONS_SUPPORTED then do {
        e \<leftarrow> array_get (entry buffer) i;
        if buffptr e \<noteq> NULL then size_loop buffer (i + 1) (sz + esize e) else Some sz
      }
      else Some sz)"
  by pat_completeness auto
termination
  by (relation "measure (\<lambda>(b, i, sz). 10 - i)") auto

declare size_loop.simps [simp del]

definition aesd_circular_buffer_size :: "aesd_circular_buffer \<Rightarrow> u64 option" where
  "aesd_circular_buffer_size buffer = size_loop buffer 0 0"

text \<open>The number of commands stored (the code's spelling: \<open>aesd_circullar_buffer_size\<close>).\<close>

function count_loop :: "aesd_circular_buffer \<Rightarrow> nat \<Rightarrow> u64 \<Rightarrow> u64 option" where
  "count_loop buffer i sz =
     (if i < AESDCHAR_MAX_WRITE_OPERATIONS_SUPPORTED then do {
        e \<leftarrow> array_get (entry buffer) i;
        if buffptr e \<noteq> NULL then count_loop buffer (i + 1) (sz + 1) else Some sz
      }
      else Some sz)"
  by pat_completeness auto
termination
  by (relation "measure (\<lambda>(b, i, sz). 10 - i)") auto

declare count_loop.simps [simp del]

definition aesd_circullar_buffer_size :: "aesd_circular_buffer \<Rightarrow> u64 option" where
  "aesd_circullar_buffer_size buffer = count_loop buffer 0 0"

text \<open>The byte offset at which the command in slot \<open>command\<close> starts, slots in array order.\<close>

function seek_loop :: "aesd_circular_buffer \<Rightarrow> u32 \<Rightarrow> nat \<Rightarrow> u64 \<Rightarrow> u64 option" where
  "seek_loop buffer command i off =
     (if i < AESDCHAR_MAX_WRITE_OPERATIONS_SUPPORTED then do {
        e \<leftarrow> array_get (entry buffer) i;
        if buffptr e = NULL \<or> i = unat command then Some off
        else seek_loop buffer command (i + 1) (off + esize e)
      }
      else Some off)"
  by pat_completeness auto
termination
  by (relation "measure (\<lambda>(b, c, i, off). 10 - i)") auto

declare seek_loop.simps [simp del]

definition aesd_circular_buffer_seek :: "aesd_circular_buffer \<Rightarrow> u32 \<Rightarrow> u64 option" where
  "aesd_circular_buffer_seek buffer command =
     (if unat command \<ge> AESDCHAR_MAX_WRITE_OPERATIONS_SUPPORTED then Some 0
      else seek_loop buffer command 0 0)"

text \<open>
  \<open>AESD_CIRCULAR_BUFFER_FOREACH(entryptr, buffer, index)\<close>: the body runs on every slot of the
  array in order, whatever the offsets are.
\<close>

function foreach_loop ::
  "(aesd_buffer_entry \<Rightarrow> 's \<Rightarrow> 's option) \<Rightarrow> aesd_circular_buffer \<Rightarrow> nat \<Rightarrow> 's \<Rightarrow> 's option" where
  "foreach_loop body buffer index s =
     (if index < AESDCHAR_MAX_WRITE_OPERATIONS_SUPPORTED then do {
        e \<leftarrow> array_get (entry buffer) index;
        s \<leftarrow> body e s;
        foreach_loop body buffer (index + 1) s
      }
      else Some s)"
  by pat_completeness auto
termination
  by (relation "measure (\<lambda>(f, b, i, s). 10 - i)") auto

declare foreach_loop.simps [simp del]

definition AESD_CIRCULAR_BUFFER_FOREACH ::
  "(aesd_buffer_entry \<Rightarrow> 's \<Rightarrow> 's option) \<Rightarrow> aesd_circular_buffer \<Rightarrow> 's \<Rightarrow> 's option" where
  "AESD_CIRCULAR_BUFFER_FOREACH body buffer s = foreach_loop body buffer 0 s"

end
