(* ===== verification/BoundedLog.thy ===== *)
theory BoundedLog
  imports Prelude
begin

text \<open>
  The contract between the character driver and its circular buffer: a log that remembers the
  last \<open>cap\<close> entries and hands back the key of the entry that a new one displaces. The driver's
  proofs rest on these laws; \<open>RingInvariant\<close> discharges them for the code's ring.
\<close>

text \<open>Adding a list of entries one after the other; the results of the calls are dropped.\<close>

fun push_all :: "('b \<Rightarrow> 'e \<Rightarrow> ('r \<times> 'b) option) \<Rightarrow> 'b \<Rightarrow> 'e list \<Rightarrow> 'b option" where
  "push_all add b [] = Some b"
| "push_all add b (e # es) = do { (_, b) \<leftarrow> add b e; push_all add b es }"

locale bounded_log =
  fixes init :: "'b"
    and add :: "'b \<Rightarrow> 'e \<Rightarrow> ('r \<times> 'b) option"
    and contents :: "'b \<Rightarrow> 'e list"
    and inv :: "'b \<Rightarrow> bool"
    and ok :: "'e \<Rightarrow> bool"
    and cap :: nat
  assumes cap_pos: "0 < cap"
    and init_keeps: "inv init"
    and init_contents: "contents init = []"
    and add_total: "inv b \<Longrightarrow> ok e \<Longrightarrow> \<exists>r b'. add b e = Some (r, b')"
    and add_keeps: "inv b \<Longrightarrow> ok e \<Longrightarrow> add b e = Some (r, b') \<Longrightarrow> inv b'"
    and add_contents:
      "inv b \<Longrightarrow> ok e \<Longrightarrow> add b e = Some (r, b') \<Longrightarrow> contents b' = last_n cap (contents b @ [e])"
    and contents_bound: "inv b \<Longrightarrow> length (contents b) \<le> cap"
begin

lemma push_all_total:
  "inv b \<Longrightarrow> \<forall>e \<in> set es. ok e \<Longrightarrow>
   \<exists>b'. push_all add b es = Some b' \<and> inv b' \<and> contents b' = last_n cap (contents b @ es)"
proof (induction es arbitrary: b)
  case Nil
  then show ?case by (simp add: contents_bound)
next
  case (Cons e es)
  obtain r c where c: "add b e = Some (r, c)"
    using add_total [of b e] Cons.prems by auto
  then have "inv c" "contents c = last_n cap (contents b @ [e])"
    using add_keeps add_contents Cons.prems by auto
  moreover obtain d where "push_all add c es = Some d" "inv d" "contents d = last_n cap (contents c @ es)"
    using Cons.IH [of c] \<open>inv c\<close> Cons.prems by auto
  ultimately show ?case
    using c by (simp add: last_n_append_last_n)
qed

lemma push_all_init:
  "\<forall>e \<in> set es. ok e \<Longrightarrow>
   \<exists>b'. push_all add init es = Some b' \<and> inv b' \<and> contents b' = last_n cap es"
  using push_all_total [OF init_keeps] by (simp add: init_contents)

lemma add_cases:
  assumes "inv b" "ok e" "add b e = Some (r, b')"
  shows "contents b' =
    (if length (contents b) < cap then contents b @ [e] else tl (contents b) @ [e])"
  using add_contents [OF assms] contents_bound [OF assms(1)] cap_pos
  by (auto simp: last_n_snoc_full)

end

text \<open>A log whose \<open>add\<close> returns the key of the displaced entry, or \<open>none\<close>.\<close>

locale evicting_log = bounded_log init add contents inv ok cap
  for init :: "'b" and add :: "'b \<Rightarrow> 'e \<Rightarrow> ('r \<times> 'b) option" and contents :: "'b \<Rightarrow> 'e list"
    and inv :: "'b \<Rightarrow> bool" and ok :: "'e \<Rightarrow> bool" and cap :: nat +
  fixes key :: "'e \<Rightarrow> 'r"
    and none :: "'r"
  assumes add_evicts:
    "inv b \<Longrightarrow> ok e \<Longrightarrow> add b e = Some (r, b') \<Longrightarrow>
     r = (if length (contents b) = cap then key (hd (contents b)) else none)"
begin

text \<open>Nothing is lost or kept twice: an entry is displaced exactly when its key is returned.\<close>

lemma add_step:
  assumes "inv b" "ok e"
  shows "\<exists>b'. inv b' \<and>
    (if length (contents b) < cap
     then add b e = Some (none, b') \<and> contents b' = contents b @ [e]
     else \<exists>old rest. contents b = old # rest \<and> add b e = Some (key old, b') \<and>
            contents b' = rest @ [e])"
proof -
  obtain r b' where add: "add b e = Some (r, b')"
    using add_total [OF assms] by blast
  have len: "length (contents b) \<le> cap"
    using contents_bound assms(1) .
  show ?thesis
    using add add_keeps [OF assms add] add_cases [OF assms add] add_evicts [OF assms add] len cap_pos
    by (cases "contents b") auto
qed

end

end
