(* ===== verification/RingInvariant.thy ===== *)
theory RingInvariant
  imports CircularBuffer BoundedLog
begin

text \<open>
  What the circular buffer promises. \<open>ring_list\<close> reads the ring as the list of its entries,
  oldest first; \<open>ring_wf\<close> is the well-formedness that the code's array accesses and its search
  need; \<open>ring_inv\<close> is the stronger invariant of the states that \<open>init\<close> and \<open>add_entry\<close>
  can reach. The contract of a bounded log that the driver relies on is the locale
  \<open>bounded_log\<close>, interpreted on the model's definitions at the end.
\<close>

section \<open>The abstraction\<close>

definition ring_slot :: "aesd_circular_buffer \<Rightarrow> nat \<Rightarrow> nat" where
  "ring_slot b k = (unat (out_offs b) + k) mod 10"

definition ring_count :: "aesd_circular_buffer \<Rightarrow> nat" where
  "ring_count b =
     (if full b then 10 else (unat (in_offs b) + 10 - unat (out_offs b)) mod 10)"

definition ring_list :: "aesd_circular_buffer \<Rightarrow> aesd_buffer_entry list" where
  "ring_list b = map (\<lambda>k. entry b ! ring_slot b k) [0..<ring_count b]"

definition ring_sizes :: "aesd_circular_buffer \<Rightarrow> nat list" where
  "ring_sizes b = map (\<lambda>e. unat (esize e)) (ring_list b)"

definition ring_wf :: "aesd_circular_buffer \<Rightarrow> bool" where
  "ring_wf b \<longleftrightarrow>
     length (entry b) = 10 \<and> unat (in_offs b) < 10 \<and> unat (out_offs b) < 10 \<and>
     (full b \<longrightarrow> in_offs b = out_offs b) \<and>
     (\<not> full b \<and> in_offs b = out_offs b \<longrightarrow> esize (entry b ! unat (out_offs b)) = 0)"

definition live :: "aesd_buffer_entry \<Rightarrow> bool" where
  "live e \<longleftrightarrow> buffptr e \<noteq> NULL \<and> esize e \<noteq> 0"

definition ring_inv :: "aesd_circular_buffer \<Rightarrow> bool" where
  "ring_inv b \<longleftrightarrow>
     length (entry b) = 10 \<and> unat (in_offs b) < 10 \<and> unat (out_offs b) < 10 \<and>
     (if full b then in_offs b = out_offs b \<and> (\<forall>e \<in> set (entry b). live e)
      else out_offs b = 0 \<and>
        (\<forall>j < 10. if j < unat (in_offs b) then live (entry b ! j)
                  else entry b ! j = \<lparr>buffptr = NULL, esize = 0\<rparr>))"

text \<open>The stored entries in array order, as the \<open>size\<close> and \<open>seek\<close> functions walk them.\<close>

definition raw_list :: "aesd_circular_buffer \<Rightarrow> aesd_buffer_entry list" where
  "raw_list b = takeWhile (\<lambda>e. buffptr e \<noteq> NULL) (entry b)"

section \<open>Offsets\<close>

lemma mod10_wrap: "(n :: nat) < 20 \<Longrightarrow> n mod 10 = (if n < 10 then n else n - 10)"
  by (auto simp: mod_if)

lemma ring_dist:
  "(i :: nat) < 10 \<Longrightarrow> j < 10 \<Longrightarrow> (i + 10 - j) mod 10 = (if j \<le> i then i - j else i + 10 - j)"
  by (auto simp: mod10_wrap)

lemma overwrite_entry [simp]:
  "(x :: aesd_buffer_entry)\<lparr>buffptr := buffptr e, esize := esize e\<rparr> = e"
  by (cases e, cases x) simp

lemma unat_next_offs [simp]: "unat (next_offs i) = (unat i + 1) mod 10"
  by (simp add: next_offs_def unat_of_nat take_bit_eq_mod)

lemma ring_slot_lt [simp]: "ring_slot b k < 10"
  by (simp add: ring_slot_def)

lemma ring_slot_Suc: "ring_slot b (Suc k) = (ring_slot b k + 1) mod 10"
  by (simp add: ring_slot_def mod_Suc_eq)

lemma length_ring_list [simp]: "length (ring_list b) = ring_count b"
  by (simp add: ring_list_def)

lemma length_ring_sizes [simp]: "length (ring_sizes b) = ring_count b"
  by (simp add: ring_sizes_def)

lemma ring_list_nth: "k < ring_count b \<Longrightarrow> ring_list b ! k = entry b ! ring_slot b k"
  by (simp add: ring_list_def)

lemma ring_count_le: "ring_count b \<le> 10"
  by (simp add: ring_count_def)

lemma ring_inv_wf: "ring_inv b \<Longrightarrow> ring_wf b"
  by (auto simp: ring_inv_def ring_wf_def split: if_splits)

lemma offs_eq_iff: "(i :: u8) = j \<longleftrightarrow> unat i = unat j"
  by (simp add: word_unat_eq_iff)

text \<open>The search stops exactly after the last entry.\<close>

lemma ring_end_iff:
  assumes "ring_wf b" "\<not> full b" "k < ring_count b"
  shows "(ring_slot b k + 1) mod 10 = unat (in_offs b) \<longleftrightarrow> Suc k = ring_count b"
proof -
  from assms(1,2) have *: "unat (in_offs b) < 10" "unat (out_offs b) < 10"
    by (auto simp: ring_wf_def)
  have "unat (out_offs b) + k + 1 < 20" and "(ring_slot b k + 1) mod 10 = (unat (out_offs b) + k + 1) mod 10"
    using * assms(3) ring_count_le [of b] by (auto simp: ring_slot_def mod_Suc_eq)
  then show ?thesis
    using assms * by (auto simp: ring_count_def ring_dist mod10_wrap split: if_splits)
qed

section \<open>Adding an entry\<close>

lemma add_entry_full:
  assumes wf: "ring_wf b" and fl: "full b"
  shows "\<exists>b'. aesd_circular_buffer_add_entry b e = Some (buffptr (hd (ring_list b)), b') \<and>
           ring_wf b' \<and> full b' \<and> entry b' = (entry b)[unat (in_offs b) := e] \<and>
           in_offs b' = next_offs (in_offs b) \<and> out_offs b' = next_offs (out_offs b) \<and>
           ring_list b' = tl (ring_list b) @ [e]"
proof -
  let ?o = "unat (out_offs b)"
  let ?b' = "b\<lparr>entry := (entry b)[?o := e], in_offs := next_offs (out_offs b),
               out_offs := next_offs (out_offs b), full := True\<rparr>"
  from wf fl have o: "?o < 10" "in_offs b = out_offs b" "length (entry b) = 10"
    by (auto simp: ring_wf_def)
  have hd: "hd (ring_list b) = entry b ! ?o"
    using fl o by (simp add: ring_list_def ring_count_def ring_slot_def hd_map upt_rec)
  have add: "aesd_circular_buffer_add_entry b e = Some (buffptr (hd (ring_list b)), ?b')"
    using o fl by (simp add: aesd_circular_buffer_add_entry_def hd)
  have nth: "ring_list ?b' ! k = (tl (ring_list b) @ [e]) ! k" if "k < 10" for k
  proof -
    have "ring_slot ?b' k = (?o + 1 + k) mod 10"
      by (simp add: ring_slot_def mod_add_left_eq)
    moreover have "(?o + 1 + k) mod 10 = ?o \<longleftrightarrow> k = 9"
      using that o(1) by (auto simp: mod10_wrap split: if_splits)
    ultimately show ?thesis
      using that fl o
      by (auto simp: ring_list_nth ring_count_def nth_append nth_tl ring_slot_def)
  qed
  have "ring_list ?b' = tl (ring_list b) @ [e]"
    by (rule nth_equalityI) (use fl nth in \<open>auto simp: ring_count_def\<close>)
  moreover have "ring_wf ?b'"
    using o by (simp add: ring_wf_def)
  ultimately show ?thesis
    using add o by auto
qed

lemma add_entry_not_full:
  assumes wf: "ring_wf b" and fl: "\<not> full b"
  shows "\<exists>b'. aesd_circular_buffer_add_entry b e = Some (NULL, b') \<and>
           ring_wf b' \<and> entry b' = (entry b)[unat (in_offs b) := e] \<and>
           in_offs b' = next_offs (in_offs b) \<and> out_offs b' = out_offs b \<and>
           full b' = (next_offs (in_offs b) = out_offs b) \<and>
           ring_list b' = ring_list b @ [e]"
proof -
  let ?i = "unat (in_offs b)"
  let ?o = "unat (out_offs b)"
  let ?b' = "b\<lparr>entry := (entry b)[?i := e], in_offs := next_offs (in_offs b),
               full := (next_offs (in_offs b) = out_offs b)\<rparr>"
  from wf have o: "?o < 10" "?i < 10" "length (entry b) = 10"
    by (auto simp: ring_wf_def)
  have add: "aesd_circular_buffer_add_entry b e = Some (NULL, ?b')"
    using o fl by (simp add: aesd_circular_buffer_add_entry_def)
  have cnt: "ring_count ?b' = Suc (ring_count b)"
    using o fl by (auto simp: ring_count_def offs_eq_iff ring_dist mod10_wrap split: if_splits)
  have nth: "ring_list ?b' ! k = (ring_list b @ [e]) ! k" if "k < Suc (ring_count b)" for k
  proof -
    have "ring_slot b k = ?i \<longleftrightarrow> k = ring_count b"
      using that o fl by (auto simp: ring_count_def ring_slot_def ring_dist mod10_wrap split: if_splits)
    moreover have "ring_slot ?b' k = ring_slot b k"
      by (simp add: ring_slot_def)
    ultimately show ?thesis
      using that cnt o by (auto simp: ring_list_nth nth_append)
  qed
  have "ring_list ?b' = ring_list b @ [e]"
    by (rule nth_equalityI) (use cnt nth in auto)
  moreover have "ring_wf ?b'"
    using o by (auto simp: ring_wf_def)
  ultimately show ?thesis
    using add by auto
qed

text \<open>Both cases as one law: the ring remembers the last ten entries.\<close>

lemma add_entry_spec:
  assumes wf: "ring_wf b"
  shows "\<exists>b'. aesd_circular_buffer_add_entry b e =
                Some (if full b then buffptr (hd (ring_list b)) else NULL, b') \<and>
           ring_wf b' \<and> ring_list b' = last_n 10 (ring_list b @ [e])"
proof (cases "full b")
  case True
  then have "length (ring_list b) = 10"
    by (simp add: ring_count_def)
  then have "last_n 10 (ring_list b @ [e]) = tl (ring_list b) @ [e]"
    by (simp add: last_n_snoc_full)
  then show ?thesis
    using add_entry_full [OF wf True, of e] True by auto
next
  case False
  have "ring_count b < 10"
    using False by (simp add: ring_count_def)
  then have "last_n 10 (ring_list b @ [e]) = ring_list b @ [e]"
    by (simp add: last_n_def)
  then show ?thesis
    using add_entry_not_full [OF wf False, of e] False by auto
qed

section \<open>The reachable states\<close>

lemma init_inv: "ring_inv aesd_circular_buffer_init"
  by (simp add: ring_inv_def aesd_circular_buffer_init_def)

lemma init_list [simp]: "ring_list aesd_circular_buffer_init = []"
  by (simp add: ring_list_def ring_count_def aesd_circular_buffer_init_def)

lemma all_nth_update:
  "length xs = n \<Longrightarrow> (\<forall>x \<in> set (xs[i := v]). P x) \<longleftrightarrow> (\<forall>j < n. P (if j = i then v else xs ! j))"
  by (cases "i < n") (auto simp: all_set_conv_all_nth nth_list_update list_update_beyond)

lemma ring_inv_nth_live:
  "ring_inv b \<Longrightarrow> full b \<Longrightarrow> j < 10 \<Longrightarrow> live (entry b ! j)"
  by (auto simp: ring_inv_def)

lemma next_offs_eq_0_iff: "unat i < 10 \<Longrightarrow> next_offs i = 0 \<longleftrightarrow> unat i = 9"
  by (auto simp: offs_eq_iff mod10_wrap split: if_splits)

lemma add_entry_inv:
  assumes inv: "ring_inv b" and e: "live e"
    and add: "aesd_circular_buffer_add_entry b e = Some (old, b')"
  shows "ring_inv b'"
proof (cases "full b")
  case True
  then have len: "length (entry b) = 10"
    using inv by (simp add: ring_inv_def)
  obtain b'' where "aesd_circular_buffer_add_entry b e = Some (buffptr (hd (ring_list b)), b'')"
    and *: "full b''" "entry b'' = (entry b)[unat (in_offs b) := e]"
      "in_offs b'' = next_offs (in_offs b)" "out_offs b'' = next_offs (out_offs b)"
    using add_entry_full [OF ring_inv_wf [OF inv] True, of e] by blast
  then have "b'' = b'"
    using add by simp
  then show ?thesis
    using * True inv e len ring_inv_nth_live [OF inv True]
    by (auto simp: ring_inv_def all_nth_update [OF len])
next
  case False
  let ?i = "unat (in_offs b)"
  have f: "length (entry b) = 10" "?i < 10" "out_offs b = 0"
    "\<And>j. j < 10 \<Longrightarrow> if j < ?i then live (entry b ! j)
                       else entry b ! j = \<lparr>buffptr = NULL, esize = 0\<rparr>"
    using inv False by (auto simp: ring_inv_def)
  obtain b'' where "aesd_circular_buffer_add_entry b e = Some (NULL, b'')"
    and *: "entry b'' = (entry b)[?i := e]" "in_offs b'' = next_offs (in_offs b)"
      "out_offs b'' = out_offs b" "full b'' = (next_offs (in_offs b) = out_offs b)"
    using add_entry_not_full [OF ring_inv_wf [OF inv] False, of e] by blast
  then have b': "b'' = b'"
    using add by simp
  show ?thesis
  proof (cases "?i = 9")
    case True
    have "live (if j = 9 then e else entry b ! j)" if "j < 10" for j
      using f(4) [OF that] that e True by (cases "j = 9") auto
    then show ?thesis
      using * b' f(1-3) True by (simp add: ring_inv_def next_offs_eq_0_iff all_nth_update [OF f(1)])
  next
    case no: False
    have "if j < Suc ?i then live ((entry b)[?i := e] ! j)
          else (entry b)[?i := e] ! j = \<lparr>buffptr = NULL, esize = 0\<rparr>" if "j < 10" for j
      using f(4) [OF that] f(1) that e by (auto simp: nth_list_update less_Suc_eq)
    moreover have "entry b ! j = \<lparr>buffptr = NULL, esize = 0\<rparr>" if "\<not> j < Suc ?i" "j < 10" for j
      using f(4) [OF that(2)] that(1) by (simp split: if_splits)
    ultimately show ?thesis
      using * b' f(1-3) no by (simp add: ring_inv_def next_offs_eq_0_iff mod10_wrap)
  qed
qed

lemma ring_list_live: "ring_inv b \<Longrightarrow> e \<in> set (ring_list b) \<Longrightarrow> live e"
proof -
  assume inv: "ring_inv b" and "e \<in> set (ring_list b)"
  then obtain k where k: "k < ring_count b" "e = entry b ! ring_slot b k"
    by (auto simp: ring_list_def)
  show "live e"
  proof (cases "full b")
    case True
    then show ?thesis
      using ring_inv_nth_live [OF inv True] k by simp
  next
    case False
    then have "out_offs b = 0" "unat (in_offs b) < 10"
      "\<forall>j < 10. j < unat (in_offs b) \<longrightarrow> live (entry b ! j)"
      using inv by (auto simp: ring_inv_def)
    then show ?thesis
      using k False by (auto simp: ring_count_def ring_slot_def)
  qed
qed

section \<open>The search\<close>

text \<open>
  The reference: which piece of a list of pieces holds the byte at offset \<open>off\<close> of their
  concatenation, and at which position in that piece.
\<close>

fun locate :: "nat list \<Rightarrow> nat \<Rightarrow> (nat \<times> nat) option" where
  "locate [] off = None"
| "locate (n # ns) off =
     (if off < n then Some (0, off)
      else map_option (\<lambda>(k, j). (Suc k, j)) (locate ns (off - n)))"

lemma locate_None_iff: "locate ns off = None \<longleftrightarrow> sum_list ns \<le> off"
  by (induction ns off rule: locate.induct) auto

lemma locate_Some:
  "locate ns off = Some (k, j) \<Longrightarrow> k < length ns \<and> j < ns ! k \<and> off = sum_list (take k ns) + j"
  by (induction ns off arbitrary: k rule: locate.induct) (auto split: if_splits)

lemma locate_drop:
  "locate (map length xss) off = Some (k, j) \<Longrightarrow>
   drop off (concat xss) = drop j (xss ! k) @ concat (drop (Suc k) xss)"
  by (induction "map length xss" off arbitrary: xss k rule: locate.induct)
     (auto split: if_splits)

text \<open>The sizes of the entries, one step further along the ring.\<close>

lemma ring_sizes_nth:
  "k < ring_count b \<Longrightarrow> ring_sizes b ! k = unat (esize (entry b ! ring_slot b k))"
  by (simp add: ring_sizes_def ring_list_nth)

lemma drop_ring_sizes:
  "k < ring_count b \<Longrightarrow>
   drop k (ring_sizes b) = unat (esize (entry b ! ring_slot b k)) # drop (Suc k) (ring_sizes b)"
  by (metis Cons_nth_drop_Suc length_ring_sizes ring_sizes_nth)

lemma take_Suc_ring_sizes:
  "k < ring_count b \<Longrightarrow>
   sum_list (take (Suc k) (ring_sizes b)) =
     sum_list (take k (ring_sizes b)) + unat (esize (entry b ! ring_slot b k))"
  by (simp add: take_Suc_conv_app_nth ring_sizes_nth)

lemma sum_take_le: "sum_list (take k xs) \<le> sum_list (xs :: nat list)"
  by (metis append_take_drop_id le_add1 sum_list_append)

lemma esize_nonzero:
  "k < ring_count b \<Longrightarrow> \<forall>n \<in> set (ring_sizes b). n \<noteq> 0 \<Longrightarrow> esize (entry b ! ring_slot b k) \<noteq> 0"
  by (metis length_ring_sizes nth_mem ring_sizes_nth unat_0)

text \<open>One turn of the loop, at a slot of non-zero size.\<close>

lemma find_entry_loop_hit:
  assumes "unat count < 10" "length (entry b) = 10" "unat index = i" "i < 10"
    "esize (entry b ! i) \<noteq> 0" "off < tot + esize (entry b ! i)"
  shows "find_entry_loop b off tot index count = Some (Some (word_of_nat i, off - tot))"
proof -
  have "index = word_of_nat i"
    by (simp flip: assms(3))
  then show ?thesis
    using assms by (subst find_entry_loop.simps) simp
qed

lemma find_entry_loop_miss:
  assumes "unat count < 10" "length (entry b) = 10" "unat index = i" "i < 10"
    "esize (entry b ! i) \<noteq> 0" "\<not> off < tot + esize (entry b ! i)"
  shows "find_entry_loop b off tot index count =
    (if next_offs index = in_offs b \<and> \<not> full b then Some None
     else find_entry_loop b off (tot + esize (entry b ! i)) (next_offs index) (count + 1))"
  using assms by (subst find_entry_loop.simps) simp

lemma find_entry_loop_done: "unat count \<ge> 10 \<Longrightarrow> find_entry_loop b off tot index count = Some None"
  by (subst find_entry_loop.simps) simp

text \<open>After the last entry the loop stops: at \<open>in_offs\<close>, or after ten turns.\<close>

lemma find_entry_loop_miss_last:
  assumes wf: "ring_wf b" and last: "Suc k = ring_count b"
    and "unat count = k" "unat index = ring_slot b k" "esize (entry b ! ring_slot b k) \<noteq> 0"
    and "\<not> off < tot + esize (entry b ! ring_slot b k)"
  shows "find_entry_loop b off tot index count = Some None"
proof -
  have k: "k < 10" "length (entry b) = 10"
    using last ring_count_le [of b] wf by (auto simp: ring_wf_def)
  have end_iff: "next_offs index = in_offs b" if "\<not> full b"
    using ring_end_iff [OF wf that, of k] last assms(4) by (simp add: offs_eq_iff)
  have "unat (count + 1) \<ge> 10" if "full b"
    using that last k assms(3) by (simp add: ring_count_def unat_Suc_u8)
  then show ?thesis
    using end_iff k assms
    by (subst find_entry_loop_miss [where i = "ring_slot b k"])
       (cases "full b"; simp add: find_entry_loop_done)+
qed

text \<open>The loop, started at the \<open>k\<close>-th entry with the sizes before it summed up.\<close>

lemma find_entry_loop_locate:
  assumes wf: "ring_wf b" and nz: "\<forall>n \<in> set (ring_sizes b). n \<noteq> 0"
    and sum: "sum_list (ring_sizes b) < 2 ^ 64"
  shows "k < ring_count b \<Longrightarrow> unat count = k \<Longrightarrow> unat index = ring_slot b k \<Longrightarrow>
    unat tot = sum_list (take k (ring_sizes b)) \<Longrightarrow> tot \<le> off \<Longrightarrow>
    find_entry_loop b off tot index count =
      Some (case locate (drop k (ring_sizes b)) (unat off - unat tot) of
              None \<Rightarrow> None
            | Some (m, j) \<Rightarrow> Some (word_of_nat (ring_slot b (k + m)), word_of_nat j))"
proof (induction "ring_count b - k" arbitrary: k count index tot)
  case 0
  then show ?case by simp
next
  case (Suc d)
  let ?e = "entry b ! ring_slot b k"
  note k = Suc.prems(1)
  have turn: "unat count < 10" "length (entry b) = 10" "unat index = ring_slot b k"
    "ring_slot b k < 10" "esize ?e \<noteq> 0"
    using wf Suc.prems(1-3) ring_count_le [of b] esize_nonzero [OF k nz]
    by (auto simp: ring_wf_def)
  have add: "unat (tot + esize ?e) = unat tot + unat (esize ?e)"
    using take_Suc_ring_sizes [OF k] sum_take_le [of "Suc k" "ring_sizes b"] sum Suc.prems(4)
    by (intro unat_plus_no_wrap) simp
  have le: "unat tot \<le> unat off"
    using Suc.prems(5) by (simp add: word_le_nat_alt)
  show ?case
  proof (cases "off < tot + esize ?e")
    case True
    moreover have "unat off - unat tot < unat (esize ?e)"
      using True add le by (simp add: word_less_nat_alt)
    moreover have "off - tot = word_of_nat (unat off - unat tot)"
      using Suc.prems(5) by (simp add: word_le_nat_alt of_nat_diff)
    ultimately show ?thesis
      using turn by (simp add: find_entry_loop_hit drop_ring_sizes [OF k])
  next
    case miss: False
    then have ge: "unat (esize ?e) \<le> unat off - unat tot"
      using add le by (simp add: word_less_nat_alt)
    show ?thesis
    proof (cases "Suc k = ring_count b")
      case True
      then show ?thesis
        using find_entry_loop_miss_last [OF wf True Suc.prems(2,3) turn(5) miss] ge
        by (simp add: drop_ring_sizes [OF k])
    next
      case no: False
      have "\<not> (next_offs index = in_offs b \<and> \<not> full b)"
        using no ring_end_iff [OF wf _ k] by (auto simp: offs_eq_iff Suc.prems(3))
      moreover have "find_entry_loop b off (tot + esize ?e) (next_offs index) (count + 1) =
        Some (case locate (drop (Suc k) (ring_sizes b)) (unat off - unat (tot + esize ?e)) of
                None \<Rightarrow> None
              | Some (m, j) \<Rightarrow> Some (word_of_nat (ring_slot b (Suc k + m)), word_of_nat j))"
        using Suc.hyps(2) Suc.prems turn no add miss take_Suc_ring_sizes [OF k]
        by (intro Suc.hyps(1)) (auto simp: not_less ring_slot_Suc unat_Suc_u8)
      ultimately show ?thesis
        using find_entry_loop_miss [OF turn miss] ge add
        by (simp add: drop_ring_sizes [OF k] split: option.splits prod.splits)
    qed
  qed
qed

lemma find_entry_locate:
  assumes wf: "ring_wf b" and nz: "\<forall>n \<in> set (ring_sizes b). n \<noteq> 0"
    and sum: "sum_list (ring_sizes b) < 2 ^ 64"
  shows "aesd_circular_buffer_find_entry_offset_for_fpos b off =
    Some (case locate (ring_sizes b) (unat off) of
            None \<Rightarrow> None
          | Some (m, j) \<Rightarrow> Some (word_of_nat (ring_slot b m), word_of_nat j))"
proof (cases "ring_count b = 0")
  case True
  then have "ring_sizes b = []" and "\<not> full b" and "in_offs b = out_offs b"
    using wf by (auto simp: ring_wf_def ring_count_def ring_sizes_def ring_list_def offs_eq_iff
                  ring_dist split: if_splits)
  then show ?thesis
    using wf by (simp add: aesd_circular_buffer_find_entry_offset_for_fpos_def ring_wf_def
                  find_entry_loop.simps [of b off 0 "out_offs b" 0])
next
  case False
  then show ?thesis
    using find_entry_loop_locate [OF wf nz sum, of 0 0 "out_offs b" 0 off] wf
    by (simp add: aesd_circular_buffer_find_entry_offset_for_fpos_def ring_slot_def ring_wf_def
             split: option.splits)
qed

section \<open>The walks in array order\<close>

lemma takeWhile_drop_nth:
  "i < length xs \<Longrightarrow>
   takeWhile P (drop i xs) = (if P (xs ! i) then xs ! i # takeWhile P (drop (Suc i) xs) else [])"
  by (simp flip: Cons_nth_drop_Suc)

lemma size_loop_sum:
  assumes "length (entry b) = 10"
  shows "i \<le> 10 \<Longrightarrow> size_loop b i sz =
    Some (sz + sum_list (map esize (takeWhile (\<lambda>e. buffptr e \<noteq> NULL) (drop i (entry b)))))"
proof (induction "10 - i" arbitrary: i sz)
  case 0
  then show ?case using assms by (subst size_loop.simps) simp
next
  case (Suc d)
  moreover have "i < 10"
    using Suc.hyps(2) by simp
  ultimately show ?case
    using assms Suc.hyps(1) [of "Suc i"]
    by (subst size_loop.simps) (simp add: takeWhile_drop_nth add.assoc)
qed

lemma count_loop_length:
  assumes "length (entry b) = 10"
  shows "i \<le> 10 \<Longrightarrow> count_loop b i sz =
    Some (sz + word_of_nat (length (takeWhile (\<lambda>e. buffptr e \<noteq> NULL) (drop i (entry b)))))"
proof (induction "10 - i" arbitrary: i sz)
  case 0
  then show ?case using assms by (subst count_loop.simps) simp
next
  case (Suc d)
  moreover have "i < 10"
    using Suc.hyps(2) by simp
  ultimately show ?case
    using assms Suc.hyps(1) [of "Suc i"]
    by (subst count_loop.simps) (simp add: takeWhile_drop_nth add.assoc)
qed

lemma seek_loop_sum:
  assumes "length (entry b) = 10" and c: "unat c < 10"
  shows "i \<le> unat c \<Longrightarrow> seek_loop b c i off =
    Some (off + sum_list (map esize
      (take (unat c - i) (takeWhile (\<lambda>e. buffptr e \<noteq> NULL) (drop i (entry b))))))"
proof (induction "unat c - i" arbitrary: i off)
  case 0
  then show ?case using assms by (subst seek_loop.simps) simp
next
  case (Suc d)
  then have "i < unat c" "d = unat c - Suc i"
    by auto
  then show ?case
    using assms Suc.hyps(1) [of "Suc i"]
    by (subst seek_loop.simps)
       (simp add: takeWhile_drop_nth add.assoc Suc_diff_Suc [symmetric])
qed

lemma size_raw: "length (entry b) = 10 \<Longrightarrow>
  aesd_circular_buffer_size b = Some (sum_list (map esize (raw_list b)))"
  by (simp add: aesd_circular_buffer_size_def size_loop_sum raw_list_def)

lemma count_raw: "length (entry b) = 10 \<Longrightarrow>
  aesd_circullar_buffer_size b = Some (word_of_nat (length (raw_list b)))"
  by (simp add: aesd_circullar_buffer_size_def count_loop_length raw_list_def)

lemma seek_raw: "length (entry b) = 10 \<Longrightarrow> unat c < 10 \<Longrightarrow>
  aesd_circular_buffer_seek b c = Some (sum_list (map esize (take (unat c) (raw_list b))))"
  by (simp add: aesd_circular_buffer_seek_def seek_loop_sum raw_list_def)

text \<open>In a reachable ring the raw walk sees all entries, rotated by \<open>out_offs\<close>.\<close>

lemma raw_list_eq:
  assumes inv: "ring_inv b"
  shows "raw_list b = (if full b then entry b else take (unat (in_offs b)) (entry b))"
proof (cases "full b")
  case True
  then have "\<forall>e \<in> set (entry b). buffptr e \<noteq> NULL"
    using inv by (simp add: ring_inv_def live_def)
  then show ?thesis
    using True by (simp add: raw_list_def)
next
  case False
  let ?i = "unat (in_offs b)"
  have f: "length (entry b) = 10" "?i < 10"
    "\<And>j. j < 10 \<Longrightarrow> if j < ?i then live (entry b ! j)
                       else entry b ! j = \<lparr>buffptr = NULL, esize = 0\<rparr>"
    using inv False by (auto simp: ring_inv_def)
  have "buffptr (entry b ! j) \<noteq> NULL" if "j < ?i" for j
    using f(3) [of j] f(2) that by (simp add: live_def)
  moreover have "buffptr (entry b ! ?i) = NULL"
    using f(3) [of ?i] f(2) by simp
  ultimately have "takeWhile (\<lambda>e. buffptr e \<noteq> NULL) (entry b) = take ?i (entry b)"
    by (intro takeWhile_eq_take_P_nth) auto
  then show ?thesis
    using False by (simp add: raw_list_def)
qed

lemma length_raw_list: "ring_inv b \<Longrightarrow> length (raw_list b) = ring_count b"
  by (auto simp: raw_list_eq ring_inv_def ring_count_def split: if_splits)

lemma ring_list_rotate:
  assumes inv: "ring_inv b"
  shows "ring_list b = rotate (unat (out_offs b)) (raw_list b)"
proof (rule nth_equalityI)
  show "length (ring_list b) = length (rotate (unat (out_offs b)) (raw_list b))"
    by (simp add: length_raw_list [OF inv])
next
  fix k
  assume "k < length (ring_list b)"
  then show "ring_list b ! k = rotate (unat (out_offs b)) (raw_list b) ! k"
    using inv length_raw_list [OF inv]
    by (auto simp: ring_list_nth nth_rotate raw_list_eq ring_slot_def ring_inv_def ring_count_def
             split: if_splits)
qed

lemma ring_list_raw_unwrapped: "ring_inv b \<Longrightarrow> out_offs b = 0 \<Longrightarrow> ring_list b = raw_list b"
  by (simp add: ring_list_rotate)

lemma sum_list_rotate: "sum_list (rotate n xs) = sum_list (xs :: nat list)"
  by (metis rotate_drop_take append_take_drop_id add.commute sum_list_append)

lemma size_total:
  assumes inv: "ring_inv b" and sum: "sum_list (ring_sizes b) < 2 ^ 64"
  shows "\<exists>n. aesd_circular_buffer_size b = Some n \<and> unat n = sum_list (ring_sizes b)"
proof -
  have "sum_list (map unat (map esize (raw_list b))) = sum_list (ring_sizes b)"
    by (simp add: ring_sizes_def ring_list_rotate [OF inv] sum_list_rotate comp_def flip: rotate_map)
  then have "unat (sum_list (map esize (raw_list b))) = sum_list (ring_sizes b)"
    using sum by (subst unat_sum_list) simp_all
  then show ?thesis
    using inv by (simp add: size_raw ring_inv_def)
qed

lemma count_total:
  assumes inv: "ring_inv b"
  shows "aesd_circullar_buffer_size b = Some (word_of_nat (ring_count b))"
  using inv by (simp add: count_raw length_raw_list ring_inv_def)

lemma seek_unwrapped:
  assumes inv: "ring_inv b" and c: "unat c < 10" and unwrapped: "out_offs b = 0"
    and sum: "sum_list (ring_sizes b) < 2 ^ 64"
  shows "\<exists>n. aesd_circular_buffer_seek b c = Some n \<and>
             unat n = sum_list (take (unat c) (ring_sizes b))"
proof -
  have "sum_list (map unat (map esize (take (unat c) (raw_list b)))) =
        sum_list (take (unat c) (ring_sizes b))"
    by (simp add: ring_sizes_def ring_list_raw_unwrapped [OF inv unwrapped] take_map comp_def)
  moreover have "sum_list (take (unat c) (ring_sizes b)) < 2 ^ 64"
    using sum sum_take_le [of "unat c" "ring_sizes b"] by simp
  ultimately have "unat (sum_list (map esize (take (unat c) (raw_list b)))) =
        sum_list (take (unat c) (ring_sizes b))"
    by (subst unat_sum_list) simp_all
  then show ?thesis
    using inv c by (simp add: seek_raw ring_inv_def)
qed

text \<open>The macro runs its body on the ten slots in array order.\<close>

lemma foreach_loop_fold:
  assumes "length (entry b) = 10"
  shows "i \<le> 10 \<Longrightarrow> foreach_loop (\<lambda>e s. Some (f e s)) b i s = Some (fold f (drop i (entry b)) s)"
proof (induction "10 - i" arbitrary: i s)
  case 0
  then show ?case
    using assms by (subst foreach_loop.simps) simp
next
  case (Suc d)
  then have i: "i < 10" "d = 10 - Suc i" "drop i (entry b) = entry b ! i # drop (Suc i) (entry b)"
    using assms by (auto simp: Cons_nth_drop_Suc)
  then show ?case
    using Suc.hyps(1) [of "Suc i"] assms by (subst foreach_loop.simps) simp
qed

section \<open>The ring is a bounded log\<close>

lemma full_iff_count: "ring_wf b \<Longrightarrow> full b \<longleftrightarrow> ring_count b = 10"
  by (auto simp: ring_wf_def ring_count_def ring_dist split: if_splits)

interpretation ring: evicting_log aesd_circular_buffer_init aesd_circular_buffer_add_entry
  ring_list ring_inv live 10 buffptr NULL
proof (unfold_locales, goal_cases)
  case (4 b e)
  then show ?case
    using add_entry_spec [OF ring_inv_wf] by blast
next
  case (5 b e r b')
  then show ?case
    by (rule add_entry_inv)
next
  case (6 b e r b')
  then show ?case
    using add_entry_spec [OF ring_inv_wf, of b e] by auto
next
  case (8 b e r b')
  then show ?case
    using add_entry_spec [OF ring_inv_wf, of b e] full_iff_count [OF ring_inv_wf, of b] by auto
qed (simp_all add: init_inv ring_count_le)

end
