(* ===== verification/KernelApi.thy ===== *)
theory KernelApi
  imports Prelude
begin

text \<open>
  What the character driver uses of the Linux kernel. The kernel is not part of the repository:
  its functions are the fields of the record \<open>kernel\<close>, an argument of every driver operation,
  and \<open>kernel_ok\<close> states what their documentation promises. Memory is a heap of blocks; a
  block that is not allocated is \<^term>\<open>None\<close>, and using it is undefined behaviour.
  \<open>demo_kernel\<close> is one concrete kernel that satisfies the laws.
\<close>

section \<open>Memory\<close>

type_synonym heap = "addr \<rightharpoonup> byte list"
type_synonym umem = "u64 \<Rightarrow> byte"

text \<open>Reading and writing through a pointer, as the C language defines it.\<close>

definition load :: "heap \<Rightarrow> ptr \<Rightarrow> nat \<Rightarrow> byte option" where
  "load h p i = do { a \<leftarrow> p; blk \<leftarrow> h a; array_get blk i }"

definition store :: "heap \<Rightarrow> ptr \<Rightarrow> nat \<Rightarrow> byte \<Rightarrow> heap option" where
  "store h p i v = do { a \<leftarrow> p; blk \<leftarrow> h a; blk \<leftarrow> array_set blk i v; Some (h(a \<mapsto> blk)) }"

definition load_range :: "heap \<Rightarrow> ptr \<Rightarrow> nat \<Rightarrow> nat \<Rightarrow> byte list option" where
  "load_range h p i n = do {
     a \<leftarrow> p; blk \<leftarrow> h a; assert_c (i + n \<le> length blk); Some (take n (drop i blk)) }"

definition store_range :: "heap \<Rightarrow> ptr \<Rightarrow> byte list \<Rightarrow> heap option" where
  "store_range h p bs = do {
     a \<leftarrow> p; blk \<leftarrow> h a; assert_c (length bs \<le> length blk);
     Some (h(a \<mapsto> bs @ drop (length bs) blk)) }"

text \<open>User memory.\<close>

fun store_user :: "u64 \<Rightarrow> byte list \<Rightarrow> umem \<Rightarrow> umem" where
  "store_user a [] m = m"
| "store_user a (x # xs) m = store_user (a + 1) xs (m(a := x))"

definition load_user :: "u64 \<Rightarrow> nat \<Rightarrow> umem \<Rightarrow> byte list" where
  "load_user a n m = map (\<lambda>i. m (a + word_of_nat i)) [0..<n]"

lemma store_user_append:
  "store_user a (xs @ ys) m = store_user (a + word_of_nat (length xs)) ys (store_user a xs m)"
  by (induction xs arbitrary: a m) (simp_all add: add.assoc add.commute)

lemma load_user_Suc: "load_user a (Suc n) m = m a # load_user (a + 1) n m"
  unfolding load_user_def upt_rec [of 0 "Suc n"] map_Suc_upt [symmetric] by (simp add: add.assoc)

lemma load_user_eval [simp]:
  "load_user a 0 m = []"
  "load_user a (Suc 0) m = [m a]"
  "load_user a (numeral n) m = m a # load_user (a + 1) (pred_numeral n) m"
  by (simp_all add: numeral_eq_Suc load_user_Suc One_nat_def) (simp_all add: load_user_def)

lemma length_load_user [simp]: "length (load_user a n m) = n"
  by (simp add: load_user_def)

section \<open>The interface\<close>

text \<open>
  \<open>k_kmalloc n h\<close> and \<open>k_krealloc p n h\<close> give the returned pointer and the heap after the call;
  \<open>k_copy_to_user dst bs m\<close> and \<open>k_copy_from_user src n m\<close> give the number of bytes not copied
  and what the destination holds; \<open>k_mutex_lock_interruptible\<close> is the return code of the lock
  call, \<open>0\<close> when the lock was taken; \<open>k_alloc_chrdev_region\<close> gives the return code and the device
  number.
\<close>

record kernel =
  k_kmalloc :: "u64 \<Rightarrow> heap \<Rightarrow> ptr \<times> heap"
  k_krealloc :: "ptr \<Rightarrow> u64 \<Rightarrow> heap \<Rightarrow> ptr \<times> heap"
  k_kfree :: "addr \<Rightarrow> heap \<Rightarrow> heap"
  k_kmalloc_max :: nat
  k_copy_to_user :: "u64 \<Rightarrow> byte list \<Rightarrow> umem \<Rightarrow> u64 \<times> umem"
  k_copy_from_user :: "u64 \<Rightarrow> u64 \<Rightarrow> umem \<Rightarrow> u64 \<times> byte list"
  k_mutex_lock_interruptible :: int
  k_alloc_chrdev_region :: "int \<times> u32"
  k_cdev_add :: int

text \<open>Calling with a pointer that is not allocated is undefined.\<close>

definition kfree :: "kernel \<Rightarrow> ptr \<Rightarrow> heap \<Rightarrow> heap option" where
  "kfree k p h = (case p of None \<Rightarrow> Some h
     | Some a \<Rightarrow> if h a = None then None else Some (k_kfree k a h))"

definition krealloc :: "kernel \<Rightarrow> ptr \<Rightarrow> u64 \<Rightarrow> heap \<Rightarrow> (ptr \<times> heap) option" where
  "krealloc k p n h = (case p of None \<Rightarrow> Some (k_krealloc k p n h)
     | Some a \<Rightarrow> if h a = None then None else Some (k_krealloc k p n h))"

text \<open>
  Taking a lock that the caller's own path already holds never returns; releasing a lock that is
  not held is undefined.
\<close>

definition mutex_lock_interruptible :: "kernel \<Rightarrow> bool \<Rightarrow> (int \<times> bool) option" where
  "mutex_lock_interruptible k locked =
     (if k_mutex_lock_interruptible k \<noteq> 0 then Some (k_mutex_lock_interruptible k, locked)
      else if locked then None else Some (0, True))"

definition mutex_unlock :: "bool \<Rightarrow> bool option" where
  "mutex_unlock locked = (if locked then Some False else None)"

lemma mutex_unlock_held [simp]: "mutex_unlock True = Some False"
  by (simp add: mutex_unlock_def)

section \<open>What the kernel documents\<close>

text \<open>
  \<open>kmalloc\<close> returns \<open>NULL\<close> and changes nothing, or a fresh block of the size asked for, never
  above the limit \<open>KMALLOC_MAX_SIZE\<close> (4 MiB in the common configurations). The zero-size block
  that \<open>kmalloc(0)\<close> returns is represented by a fresh block of length 0.
\<close>

definition kmalloc_post :: "nat \<Rightarrow> u64 \<Rightarrow> heap \<Rightarrow> ptr \<times> heap \<Rightarrow> bool" where
  "kmalloc_post limit n h r = (case r of
       (None, h') \<Rightarrow> h' = h
     | (Some a, h') \<Rightarrow> h a = None \<and> unat n \<le> limit \<and>
         (\<exists>blk. length blk = unat n \<and> h' = h(a \<mapsto> blk)))"

definition kmalloc_ok :: "kernel \<Rightarrow> bool" where
  "kmalloc_ok k \<longleftrightarrow> (\<forall>n h. kmalloc_post (k_kmalloc_max k) n h (k_kmalloc k n h))"

text \<open>
  \<open>krealloc\<close> of \<open>NULL\<close> or of an allocated block, to a size that is not 0: on failure nothing
  changes, on success the old block is gone and the new one starts with its bytes.
\<close>

definition block_of :: "ptr \<Rightarrow> heap \<Rightarrow> byte list" where
  "block_of p h = (case p of None \<Rightarrow> [] | Some a \<Rightarrow> (case h a of None \<Rightarrow> [] | Some blk \<Rightarrow> blk))"

definition drop_block :: "ptr \<Rightarrow> heap \<Rightarrow> heap" where
  "drop_block p h = (case p of None \<Rightarrow> h | Some a \<Rightarrow> h(a := None))"

definition krealloc_post :: "nat \<Rightarrow> ptr \<Rightarrow> u64 \<Rightarrow> heap \<Rightarrow> ptr \<times> heap \<Rightarrow> bool" where
  "krealloc_post limit p n h r = (case r of
       (None, h') \<Rightarrow> h' = h
     | (Some b, h') \<Rightarrow> (p \<noteq> Some b \<longrightarrow> h b = None) \<and> unat n \<le> limit \<and>
         (\<exists>blk. length blk = unat n \<and>
            take (length (block_of p h)) blk = take (unat n) (block_of p h) \<and>
            h' = (drop_block p h)(b \<mapsto> blk)))"

definition krealloc_ok :: "kernel \<Rightarrow> bool" where
  "krealloc_ok k \<longleftrightarrow> (\<forall>p n h. n \<noteq> 0 \<longrightarrow> (\<forall>a. p = Some a \<longrightarrow> h a \<noteq> None) \<longrightarrow>
     krealloc_post (k_kmalloc_max k) p n h (k_krealloc k p n h))"

definition copy_ok :: "kernel \<Rightarrow> bool" where
  "copy_ok k \<longleftrightarrow>
     (\<forall>d bs m. fst (k_copy_to_user k d bs m) = 0 \<longrightarrow> snd (k_copy_to_user k d bs m) = store_user d bs m) \<and>
     (\<forall>src n m. length (snd (k_copy_from_user k src n m)) = unat n) \<and>
     (\<forall>src n m. fst (k_copy_from_user k src n m) = 0 \<longrightarrow>
        snd (k_copy_from_user k src n m) = load_user src (unat n) m)"

definition kernel_ok :: "kernel \<Rightarrow> bool" where
  "kernel_ok k \<longleftrightarrow> kmalloc_ok k \<and> krealloc_ok k \<and> copy_ok k \<and>
     (\<forall>a h. k_kfree k a h = h(a := None)) \<and> k_kmalloc_max k \<le> 2 ^ 28"

lemma kernel_okD:
  assumes "kernel_ok k"
  shows "kmalloc_ok k" "krealloc_ok k" "copy_ok k" "k_kfree k a h = h(a := None)"
    "k_kmalloc_max k \<le> 2 ^ 28"
  using assms by (auto simp: kernel_ok_def)

lemma kmalloc_cases:
  assumes "kernel_ok k"
  obtains (fail) "k_kmalloc k n h = (NULL, h)"
  | (block) a blk where "k_kmalloc k n h = (Some a, h(a \<mapsto> blk))" "h a = None"
      "length blk = unat n" "unat n \<le> k_kmalloc_max k"
proof -
  obtain p h' where r: "k_kmalloc k n h = (p, h')"
    by (cases "k_kmalloc k n h")
  have "kmalloc_post (k_kmalloc_max k) n h (p, h')"
    using kernel_okD(1) [OF assms] r by (metis kmalloc_ok_def)
  then show ?thesis
    using r fail block by (cases p) (auto simp: kmalloc_post_def)
qed

lemma krealloc_grow_cases:
  assumes "kernel_ok k" and p: "\<forall>a. p = Some a \<longrightarrow> h a \<noteq> None"
    and n: "unat n = Suc (length (block_of p h))"
  obtains (fail) "krealloc k p n h = Some (NULL, h)"
  | (block) b c where
      "krealloc k p n h = Some (Some b, (drop_block p h)(b \<mapsto> block_of p h @ [c]))"
      "p \<noteq> Some b \<longrightarrow> h b = None" "unat n \<le> k_kmalloc_max k"
proof -
  obtain q h' where r: "k_krealloc k p n h = (q, h')"
    by (cases "k_krealloc k p n h")
  have n0: "n \<noteq> 0"
    using n by auto
  have laws: "krealloc_post (k_kmalloc_max k) p n h (q, h')"
    using kernel_okD(2) [OF assms(1)] n0 p r by (metis krealloc_ok_def)
  have call: "krealloc k p n h = Some (q, h')"
    using p r by (auto simp: krealloc_def split: option.splits)
  show ?thesis
  proof (cases q)
    case None
    then show ?thesis
      using laws call fail by (simp add: krealloc_post_def)
  next
    case (Some b)
    then obtain blk where blk: "length blk = Suc (length (block_of p h))"
      "take (length (block_of p h)) blk = block_of p h" "h' = (drop_block p h)(b \<mapsto> blk)"
      using laws n by (auto simp: krealloc_post_def)
    then have "blk = block_of p h @ [blk ! length (block_of p h)]"
      by (metis lessI order_refl take_Suc_conv_app_nth take_all_iff)
    then show ?thesis
      using laws call block [of b "blk ! length (block_of p h)"] blk(3) Some
      by (simp add: krealloc_post_def)
  qed
qed

lemma kfree_allocated:
  "kernel_ok k \<Longrightarrow> h a = Some blk \<Longrightarrow> kfree k (Some a) h = Some (h(a := None))"
  by (simp add: kfree_def kernel_okD)

lemma kfree_NULL [simp]: "kfree k NULL h = Some h"
  by (simp add: kfree_def)

section \<open>A concrete kernel\<close>

text \<open>First-fit allocation among 63 addresses, memory cleared, every copy and lock succeeds.\<close>

definition demo_pick :: "heap \<Rightarrow> ptr" where
  "demo_pick h = List.find (\<lambda>a. h a = None) [1..<64]"

definition demo_kmalloc :: "u64 \<Rightarrow> heap \<Rightarrow> ptr \<times> heap" where
  "demo_kmalloc n h = (case demo_pick h of
       None \<Rightarrow> (NULL, h)
     | Some a \<Rightarrow> if unat n \<le> 4194304 then (Some a, h(a \<mapsto> replicate (unat n) 0)) else (NULL, h))"

definition demo_krealloc :: "ptr \<Rightarrow> u64 \<Rightarrow> heap \<Rightarrow> ptr \<times> heap" where
  "demo_krealloc p n h = (case p of
       None \<Rightarrow> demo_kmalloc n h
     | Some a \<Rightarrow> if unat n \<le> 4194304
         then (p, h(a \<mapsto> take (unat n) (block_of p h @ replicate (unat n) 0))) else (NULL, h))"

definition demo_kernel :: kernel where
  "demo_kernel =
     \<lparr>k_kmalloc = demo_kmalloc,
      k_krealloc = demo_krealloc,
      k_kfree = (\<lambda>a h. h(a := None)),
      k_kmalloc_max = 4194304,
      k_copy_to_user = (\<lambda>d bs m. (0, store_user d bs m)),
      k_copy_from_user = (\<lambda>src n m. (0, load_user src (unat n) m)),
      k_mutex_lock_interruptible = 0,
      k_alloc_chrdev_region = (0, 0x0F000000),
      k_cdev_add = 0\<rparr>"

lemma demo_pick_fresh: "demo_pick h = Some a \<Longrightarrow> h a = None"
  by (auto simp: demo_pick_def find_Some_iff)

lemma demo_kmalloc_post: "kmalloc_post 4194304 n h (demo_kmalloc n h)"
proof (cases "demo_pick h")
  case None
  then show ?thesis
    by (simp add: kmalloc_post_def demo_kmalloc_def)
next
  case (Some a)
  then show ?thesis
    by (auto simp: kmalloc_post_def demo_kmalloc_def demo_pick_fresh
          intro!: exI [of _ "replicate (unat n) 0"])
qed

lemma demo_krealloc_post:
  assumes p: "\<forall>a. p = Some a \<longrightarrow> h a \<noteq> None"
  shows "krealloc_post 4194304 p n h (demo_krealloc p n h)"
proof (cases p)
  case None
  obtain q h' where r: "demo_kmalloc n h = (q, h')"
    by (cases "demo_kmalloc n h")
  then show ?thesis
    using demo_kmalloc_post [of n h] None
    by (cases q) (auto simp: krealloc_post_def kmalloc_post_def demo_krealloc_def
                    drop_block_def block_of_def)
next
  case (Some a)
  then show ?thesis
    by (auto simp: krealloc_post_def demo_krealloc_def drop_block_def min_def
          intro!: exI [of _ "take (unat n) (block_of p h) @ replicate (unat n - length (block_of p h)) 0"])
qed

lemma demo_kernel_ok: "kernel_ok demo_kernel"
  by (simp add: kernel_ok_def kmalloc_ok_def krealloc_ok_def copy_ok_def demo_kernel_def
        demo_kmalloc_post demo_krealloc_post)

end
