(* ===== verification/CharDriver.thy ===== *)
theory CharDriver
  imports RingInvariant KernelApi
begin

unbundle bit_operations_syntax

text \<open>
  The character driver \<open>aesd-char-driver/main.c\<close>: its file-scope state and one definition per
  function, with the kernel as an argument. A result \<^term>\<open>None\<close> is undefined behaviour or a
  call that never returns; every error return of the code is a negative number in the returned
  word. A system call runs as one step: the bytes it moves between user memory and the module
  are arguments and results.
\<close>

section \<open>State\<close>

record aesd_dev =
  mtx :: bool
  cdev :: "u32 option"

text \<open>
  \<open>mtx\<close> says whether the mutex is held; \<open>cdev\<close> is the device number under which the character
  device is live. \<open>kheap\<close> is the memory the module has allocated, \<open>chrdev_region\<close> the device
  region it has registered.
\<close>

record aesd_state =
  aesd_major :: u32
  aesd_device :: aesd_dev
  circular_buf :: aesd_circular_buffer
  g_buff :: ptr
  g_len :: u64
  kheap :: heap
  chrdev_region :: "u32 option"

record kfile =
  f_pos :: s64

definition aesd_minor :: u32 where
  "aesd_minor = 0"

definition set_mtx :: "bool \<Rightarrow> aesd_state \<Rightarrow> aesd_state" where
  "set_mtx m s = s\<lparr>aesd_device := (aesd_device s)\<lparr>mtx := m\<rparr>\<rparr>"

text \<open>Error numbers and the \<open>whence\<close> values of the kernel's ABI.\<close>

definition ENOMEM :: s64 where "ENOMEM = 12"
definition EFAULT :: s64 where "EFAULT = 14"
definition EINVAL :: s64 where "EINVAL = 22"
definition ERESTARTSYS :: s64 where "ERESTARTSYS = 512"

lemmas errno_defs = ENOMEM_def EFAULT_def EINVAL_def ERESTARTSYS_def

definition SEEK_SET :: u32 where "SEEK_SET = 0"
definition SEEK_CUR :: u32 where "SEEK_CUR = 1"
definition SEEK_END :: u32 where "SEEK_END = 2"

lemmas whence_defs = SEEK_SET_def SEEK_CUR_def SEEK_END_def

section \<open>open and release\<close>

definition aesd_open :: "kfile \<Rightarrow> int \<times> kfile" where
  "aesd_open filp = (0, filp)"

definition aesd_release :: "kfile \<Rightarrow> int \<times> kfile" where
  "aesd_release filp = (0, filp)"

section \<open>read\<close>

text \<open>
  Every offset that the search returns lies inside the entry it returns, whatever the ring
  holds: the read loop advances by at least one byte in every turn.
\<close>

lemma find_entry_loop_inside:
  "find_entry_loop b off tot index count = Some (Some (i, j)) \<Longrightarrow> tot \<le> off \<Longrightarrow>
   unat i < length (entry b) \<and> j < esize (entry b ! unat i)"
proof (induction b off tot index count rule: find_entry_loop.induct)
  case (1 b off tot index count)
  let ?e = "entry b ! unat index"
  have in_range: "unat count < 10" "unat index < length (entry b)" "esize ?e \<noteq> 0"
    using "1.prems"(1) by (auto simp: find_entry_loop.simps [of b off tot index count] array_get_def split: if_splits)
  show ?case
  proof (cases "off < tot + esize ?e")
    case True
    then have "i = index" "j = off - tot"
      using "1.prems"(1) in_range by (auto simp: find_entry_loop.simps [of b off tot index count])
    moreover have "off - tot < esize ?e"
      using True "1.prems"(2) by (rule word_diff_less)
    ultimately show ?thesis
      using in_range by simp
  next
    case False
    then have go: "\<not> (next_offs index = in_offs b \<and> \<not> full b)"
      "find_entry_loop b off (tot + esize ?e) (next_offs index) (count + 1) = Some (Some (i, j))"
      using "1.prems"(1) in_range by (auto simp: find_entry_loop.simps [of b off tot index count] split: if_splits)
    then show ?thesis
      using "1.IH" [of ?e] in_range False by (simp add: not_less)
  qed
qed

lemma find_entry_inside:
  "aesd_circular_buffer_find_entry_offset_for_fpos b off = Some (Some (i, j)) \<Longrightarrow>
   unat i < length (entry b) \<and> j < esize (entry b ! unat i)"
  unfolding aesd_circular_buffer_find_entry_offset_for_fpos_def
  by (rule find_entry_loop_inside) (assumption, rule word_zero_le)

text \<open>
  The copy loop. \<open>pos\<close> is \<open>entry\<close> together with \<open>entry_offset_byte_rtn\<close>; \<^term>\<open>Inl\<close> is the
  early return of an error, \<^term>\<open>Inr\<close> the value of \<open>bytes_read\<close> after the loop.
\<close>

function read_loop ::
  "kernel \<Rightarrow> aesd_state \<Rightarrow> u64 \<Rightarrow> u64 \<Rightarrow> (u8 \<times> u64) option \<Rightarrow> u64 \<Rightarrow> s64 \<Rightarrow> umem \<Rightarrow>
   ((s64 + u64) \<times> s64 \<times> umem) option" where
  "read_loop k s buf count pos bytes_read fpos m =
     (case pos of
        None \<Rightarrow> Some (Inr bytes_read, fpos, m)
      | Some (idx, entry_offset) \<Rightarrow>
          if bytes_read < count then do {
            e \<leftarrow> array_get (entry (circular_buf s)) (unat idx);
            let cpsz = esize e - entry_offset;
            let cpsz = (if cpsz > count - bytes_read then count - bytes_read else cpsz);
            bs \<leftarrow> load_range (kheap s) (buffptr e) (unat entry_offset) (unat cpsz);
            let (rc, m) = k_copy_to_user k (buf + bytes_read) bs m;
            if rc \<noteq> 0 then Some (Inl (- EFAULT), fpos, m)
            else do {
              pos \<leftarrow> aesd_circular_buffer_find_entry_offset_for_fpos (circular_buf s) (fpos + cpsz);
              read_loop k s buf count pos (bytes_read + cpsz) (fpos + cpsz) m
            }
          }
          else Some (Inr bytes_read, fpos, m))"
  by pat_completeness auto
termination
proof (relation "measure (\<lambda>(k, s, buf, count, pos, bytes_read, fpos, m).
    2 * (unat count - unat bytes_read) +
    (case pos of
       Some (i, j) \<Rightarrow> if j < esize (entry (circular_buf s) ! unat i) then 0 else 1
     | None \<Rightarrow> 0))", goal_cases)
  case 1
  show ?case by simp
next
  case (2 k s buf count pos bytes_read fpos m p i j e cpsz cpsz' bs c rc m' pos')
  have valid: "case pos' of Some (i, j) \<Rightarrow> j < esize (entry (circular_buf s) ! unat i) | None \<Rightarrow> True"
    using 2 find_entry_inside by (auto split: option.splits)
  have e: "e = entry (circular_buf s) ! unat i"
    using 2 by (auto simp: array_get_def split: if_splits)
  have cp: "cpsz' \<le> count - bytes_read" "bytes_read < count"
    using 2 by (auto simp: Let_def)
  then have sum: "unat (bytes_read + cpsz') = unat bytes_read + unat cpsz'"
    "unat cpsz' \<le> unat count - unat bytes_read"
    by unat_arith+
  have pos: "pos = Some (i, j)"
    using 2 by simp
  have flag': "(case pos' of
       Some (i, j) \<Rightarrow> if j < esize (entry (circular_buf s) ! unat i) then 0 else 1
     | None \<Rightarrow> 0) = (0::nat)"
    using valid by (auto split: option.splits)
  have "0 < unat cpsz'" if "j < esize e"
  proof -
    have "esize e - j \<noteq> 0" "count - bytes_read \<noteq> 0"
      using cp(2) that by auto
    then show ?thesis
      using 2 by (auto simp: Let_def unat_gt_0)
  qed
  then show ?case
    using sum flag' pos e cp(2) by (auto simp: word_less_nat_alt)
qed

declare read_loop.simps [simp del]

text \<open>\<open>aesd_read\<close> returns its result, the new \<open>*f_pos\<close>, the user memory and the module state.\<close>

definition aesd_read ::
  "kernel \<Rightarrow> u64 \<Rightarrow> u64 \<Rightarrow> s64 \<Rightarrow> umem \<Rightarrow> aesd_state \<Rightarrow> (s64 \<times> s64 \<times> umem \<times> aesd_state) option" where
  "aesd_read k buf count fpos m s = do {
     (rc, held) \<leftarrow> mutex_lock_interruptible k (mtx (aesd_device s));
     let s = set_mtx held s;
     if rc \<noteq> 0 then Some (- ERESTARTSYS, fpos, m, s)
     else do {
       pos \<leftarrow> aesd_circular_buffer_find_entry_offset_for_fpos (circular_buf s) fpos;
       if pos = None then do {
         held \<leftarrow> mutex_unlock (mtx (aesd_device s));
         Some (0, fpos, m, set_mtx held s)
       }
       else do {
         (r, fpos, m) \<leftarrow> read_loop k s buf count pos 0 fpos m;
         held \<leftarrow> mutex_unlock (mtx (aesd_device s));
         Some (case r of Inl err \<Rightarrow> err | Inr bytes_read \<Rightarrow> bytes_read, fpos, m, set_mtx held s)
       }
     }
   }"

section \<open>write\<close>

text \<open>
  The body of the \<open>if( wbuff[ i ] == '\n' )\<close>: the collected bytes become an entry of the ring and
  the entry it displaced is freed.
\<close>

definition commit_entry :: "kernel \<Rightarrow> aesd_state \<Rightarrow> aesd_state option" where
  "commit_entry k s = do {
     let e = \<lparr>buffptr = g_buff s, esize = g_len s\<rparr>;
     (old_buff, cb) \<leftarrow> aesd_circular_buffer_add_entry (circular_buf s) e;
     h \<leftarrow> (if old_buff \<noteq> NULL then kfree k old_buff (kheap s) else Some (kheap s));
     Some (s\<lparr>circular_buf := cb, kheap := h, g_buff := NULL, g_len := 0\<rparr>)
   }"

text \<open>
  The loop over the bytes of \<open>wbuff\<close>. \<^term>\<open>Inl\<close> is the early return when \<open>krealloc\<close> fails,
  after \<open>wbuff\<close> has been freed and the mutex released; \<^term>\<open>Inr\<close> is \<open>wr_len\<close>.
\<close>

function write_loop ::
  "kernel \<Rightarrow> ptr \<Rightarrow> u64 \<Rightarrow> u64 \<Rightarrow> u64 \<Rightarrow> aesd_state \<Rightarrow> ((s64 + u64) \<times> aesd_state) option" where
  "write_loop k wbuff count i wr_len s =
     (if i < count then do {
        (b, h) \<leftarrow> krealloc k (g_buff s) (g_len s + 1) (kheap s);
        let s = s\<lparr>kheap := h\<rparr>;
        if b = NULL then do {
          h \<leftarrow> kfree k wbuff (kheap s);
          held \<leftarrow> mutex_unlock (mtx (aesd_device s));
          Some (Inl (- ENOMEM), set_mtx held (s\<lparr>kheap := h\<rparr>))
        }
        else do {
          let s = s\<lparr>g_buff := b\<rparr>;
          c \<leftarrow> load (kheap s) wbuff (unat i);
          h \<leftarrow> store (kheap s) (g_buff s) (unat (g_len s)) c;
          let s = s\<lparr>kheap := h, g_len := g_len s + 1\<rparr>;
          c \<leftarrow> load (kheap s) wbuff (unat i);
          s \<leftarrow> (if c = newline then commit_entry k s else Some s);
          write_loop k wbuff count (i + 1) (wr_len + 1) s
        }
      }
      else Some (Inr wr_len, s))"
  by pat_completeness auto
termination
  by (relation "measure (\<lambda>(k, w, count, i, l, s). unat count - unat i)")
     (auto simp: word_less_nat_alt unat_plus_one_less)

declare write_loop.simps [simp del]

text \<open>\<open>aesd_write\<close> returns its result and the module state; it does not move \<open>*f_pos\<close>.\<close>

definition aesd_write ::
  "kernel \<Rightarrow> u64 \<Rightarrow> u64 \<Rightarrow> umem \<Rightarrow> aesd_state \<Rightarrow> (s64 \<times> aesd_state) option" where
  "aesd_write k buf count m s = do {
     let (wbuff, h) = k_kmalloc k count (kheap s);
     let s = s\<lparr>kheap := h\<rparr>;
     if wbuff = NULL then Some (- ENOMEM, s)
     else do {
       let (rc, bs) = k_copy_from_user k buf count m;
       h \<leftarrow> store_range (kheap s) wbuff bs;
       let s = s\<lparr>kheap := h\<rparr>;
       if rc \<noteq> 0 then do {
         h \<leftarrow> kfree k wbuff (kheap s);
         Some (- EFAULT, s\<lparr>kheap := h\<rparr>)
       }
       else do {
         (rc, held) \<leftarrow> mutex_lock_interruptible k (mtx (aesd_device s));
         let s = set_mtx held s;
         if rc \<noteq> 0 then do {
           h \<leftarrow> kfree k wbuff (kheap s);
           Some (- ERESTARTSYS, s\<lparr>kheap := h\<rparr>)
         }
         else do {
           (r, s) \<leftarrow> write_loop k wbuff count 0 0 s;
           case r of
             Inl err \<Rightarrow> Some (err, s)
           | Inr wr_len \<Rightarrow> do {
               held \<leftarrow> mutex_unlock (mtx (aesd_device s));
               let s = set_mtx held s;
               h \<leftarrow> kfree k wbuff (kheap s);
               Some (wr_len, s\<lparr>kheap := h\<rparr>)
             }
         }
       }
     }
   }"

section \<open>llseek\<close>

text \<open>
  Comparisons follow C's conversions: \<open>offset < 0\<close> and \<open>f_pos + offset < 0\<close> are signed; a
  comparison of a \<open>loff_t\<close> with the \<open>size_t\<close> \<open>buff_size\<close> is unsigned, and so is
  \<open>buff_size + offset < 0\<close>. The kernel is built with \<^verbatim>\<open>-fno-strict-overflow\<close>, so signed sums wrap.
\<close>

definition aesd_seek :: "kfile \<Rightarrow> s64 \<Rightarrow> u32 \<Rightarrow> aesd_state \<Rightarrow> (s64 \<times> kfile) option" where
  "aesd_seek filp offset whence s = do {
     buff_size \<leftarrow> aesd_circular_buffer_size (circular_buf s);
     if whence = SEEK_SET then
       (if sint offset < 0 \<or> offset \<ge> buff_size then Some (- EINVAL, filp)
        else Some (offset, filp\<lparr>f_pos := offset\<rparr>))
     else if whence = SEEK_CUR then
       (if sint (f_pos filp + offset) < 0 \<or> f_pos filp + offset \<ge> buff_size then Some (- EINVAL, filp)
        else Some (f_pos filp + offset, filp\<lparr>f_pos := f_pos filp + offset\<rparr>))
     else if whence = SEEK_END then
       (if buff_size + offset < 0 \<or> buff_size + offset > buff_size then Some (- EINVAL, filp)
        else Some (buff_size + offset, filp\<lparr>f_pos := buff_size + offset\<rparr>))
     else Some (- EINVAL, filp)
   }"

section \<open>ioctl\<close>

record aesd_seekto =
  write_cmd :: u32
  write_cmd_offset :: u32

definition AESD_IOC_MAGIC :: u32 where
  "AESD_IOC_MAGIC = 0x16"

text \<open>\<open>_IOWR\<close> of the generic ioctl encoding: direction, size, type and number.\<close>

definition IOWR :: "u32 \<Rightarrow> u32 \<Rightarrow> u32 \<Rightarrow> u32" where
  "IOWR typ nr sz = push_bit 30 3 OR push_bit 16 sz OR push_bit 8 typ OR nr"

definition AESDCHAR_IOCSEEKTO :: u32 where
  "AESDCHAR_IOCSEEKTO = IOWR AESD_IOC_MAGIC 1 8"

text \<open>The little-endian layout of \<open>struct aesd_seekto\<close> in memory.\<close>

fun le_word :: "byte list \<Rightarrow> u32" where
  "le_word [] = 0"
| "le_word (b # bs) = ucast b + 256 * le_word bs"

definition seekto_of_bytes :: "byte list \<Rightarrow> aesd_seekto" where
  "seekto_of_bytes bs =
     \<lparr>write_cmd = le_word (take 4 bs), write_cmd_offset = le_word (take 4 (drop 4 bs))\<rparr>"

text \<open>A user program lays the struct out the same way.\<close>

definition le_bytes :: "u32 \<Rightarrow> byte list" where
  "le_bytes w = [ucast w, ucast (drop_bit 8 w), ucast (drop_bit 16 w), ucast (drop_bit 24 w)]"

lemma digits256:
  "n < 4294967296 \<Longrightarrow>
   n mod 256 + 256 * (n div 256 mod 256 + 256 * (n div 65536 mod 256 + 256 * (n div 16777216 mod 256))) = (n :: nat)"
proof -
  assume n: "n < 4294967296"
  have "n div 65536 = n div 256 div 256" "n div 16777216 = n div 256 div 256 div 256"
    by (simp_all flip: div_mult2_eq)
  moreover have "n div 16777216 mod 256 = n div 16777216"
    using n by (simp add: less_mult_imp_div_less)
  ultimately show ?thesis
    by (metis mod_mult_div_eq)
qed

lemma le_word_le_bytes: "le_word (le_bytes w) = w"
proof -
  have lt: "unat w < 2 ^ LENGTH(32)"
    by (rule unsigned_less)
  have "unat (le_word (le_bytes w)) = unat w"
    using lt digits256 [of "unat w"]
    by (simp add: le_bytes_def unat_word_ariths unsigned_ucast_eq take_bit_eq_mod drop_bit_eq_div
          unat_drop_bit_eq mod_simps)
  then show ?thesis
    by (simp add: word_unat_eq_iff)
qed

definition seekto_bytes :: "aesd_seekto \<Rightarrow> byte list" where
  "seekto_bytes sk = le_bytes (write_cmd sk) @ le_bytes (write_cmd_offset sk)"

lemma seekto_of_bytes_bytes: "seekto_of_bytes (seekto_bytes sk) = sk"
proof -
  have "take 4 (seekto_bytes sk) = le_bytes (write_cmd sk)"
    "take 4 (drop 4 (seekto_bytes sk)) = le_bytes (write_cmd_offset sk)"
    by (simp_all add: seekto_bytes_def le_bytes_def)
  then show ?thesis
    by (simp only: seekto_of_bytes_def le_word_le_bytes) simp
qed

lemma length_seekto_bytes [simp]: "length (seekto_bytes sk) = 8"
  by (simp add: seekto_bytes_def le_bytes_def)

definition aesd_unlocked_ioctl ::
  "kernel \<Rightarrow> kfile \<Rightarrow> u32 \<Rightarrow> u64 \<Rightarrow> umem \<Rightarrow> aesd_state \<Rightarrow> (s64 \<times> kfile) option" where
  "aesd_unlocked_ioctl k filep cmd arg m s = do {
     buf_cmd_size \<leftarrow> aesd_circullar_buffer_size (circular_buf s);
     if cmd = AESDCHAR_IOCSEEKTO then do {
       let (rc, bs) = k_copy_from_user k arg 8 m;
       if rc \<noteq> 0 then Some (- EFAULT, filep)
       else do {
         let seekCmd = seekto_of_bytes bs;
         if unat (write_cmd seekCmd) \<ge> AESDCHAR_MAX_WRITE_OPERATIONS_SUPPORTED
            \<or> ucast (write_cmd seekCmd) \<ge> buf_cmd_size
         then Some (- EINVAL, filep)
         else do {
           e \<leftarrow> array_get (entry (circular_buf s)) (unat (write_cmd seekCmd));
           if esize e < ucast (write_cmd_offset seekCmd) then Some (- EINVAL, filep)
           else do {
             np \<leftarrow> aesd_circular_buffer_seek (circular_buf s) (write_cmd seekCmd);
             let np = np + ucast (write_cmd_offset seekCmd);
             Some (np, filep\<lparr>f_pos := np\<rparr>)
           }
         }
       }
     }
     else Some (- EINVAL, filep)
   }"

section \<open>Loading and unloading the module\<close>

text \<open>The device numbers of \<open>linux/kdev_t.h\<close>: 12 bits of major, 20 bits of minor.\<close>

definition MAJOR :: "u32 \<Rightarrow> u32" where
  "MAJOR dev = drop_bit 20 dev"

definition MKDEV :: "u32 \<Rightarrow> u32 \<Rightarrow> u32" where
  "MKDEV ma mi = push_bit 20 ma OR mi"

definition aesd_setup_cdev :: "kernel \<Rightarrow> aesd_state \<Rightarrow> int \<times> aesd_state" where
  "aesd_setup_cdev k s =
     (let devno = MKDEV (aesd_major s) aesd_minor;
          err = k_cdev_add k
      in (err, if err = 0 then s\<lparr>aesd_device := (aesd_device s)\<lparr>cdev := Some devno\<rparr>\<rparr> else s))"

definition aesd_init_module :: "kernel \<Rightarrow> aesd_state \<Rightarrow> int \<times> aesd_state" where
  "aesd_init_module k s =
     (let (result, dev) = k_alloc_chrdev_region k;
          s = s\<lparr>aesd_major := MAJOR dev\<rparr>
      in if result < 0 then (result, s)
         else
           let s = s\<lparr>chrdev_region := Some dev\<rparr>;
               s = s\<lparr>aesd_device := \<lparr>mtx = False, cdev = None\<rparr>\<rparr>;
               (result, s) = aesd_setup_cdev k s;
               s = (if result \<noteq> 0 then s\<lparr>chrdev_region := None\<rparr> else s)
           in (result, s\<lparr>circular_buf := aesd_circular_buffer_init\<rparr>))"

function cleanup_loop :: "kernel \<Rightarrow> nat \<Rightarrow> aesd_state \<Rightarrow> aesd_state option" where
  "cleanup_loop k i s =
     (if i < AESDCHAR_MAX_WRITE_OPERATIONS_SUPPORTED then do {
        e \<leftarrow> array_get (entry (circular_buf s)) i;
        s \<leftarrow> (if buffptr e \<noteq> NULL then do {
                 h \<leftarrow> kfree k (buffptr e) (kheap s);
                 es \<leftarrow> array_set (entry (circular_buf s)) i (e\<lparr>buffptr := NULL\<rparr>);
                 Some (s\<lparr>kheap := h, circular_buf := (circular_buf s)\<lparr>entry := es\<rparr>\<rparr>)
               }
               else Some s);
        cleanup_loop k (i + 1) s
      }
      else Some s)"
  by pat_completeness auto
termination
  by (relation "measure (\<lambda>(k, i, s). 10 - i)") auto

declare cleanup_loop.simps [simp del]

text \<open>Unregistering a region that is not the registered one is undefined.\<close>

definition aesd_cleanup_module :: "kernel \<Rightarrow> aesd_state \<Rightarrow> aesd_state option" where
  "aesd_cleanup_module k s = do {
     let devno = MKDEV (aesd_major s) aesd_minor;
     let s = s\<lparr>aesd_device := (aesd_device s)\<lparr>cdev := None\<rparr>\<rparr>;
     s \<leftarrow> cleanup_loop k 0 s;
     s \<leftarrow> (if g_buff s \<noteq> NULL then do {
              h \<leftarrow> kfree k (g_buff s) (kheap s);
              Some (s\<lparr>kheap := h, g_buff := NULL\<rparr>)
            }
            else Some s);
     assert_c (chrdev_region s = Some devno);
     Some (s\<lparr>chrdev_region := None\<rparr>)
   }"

end
