(* ===== verification/DriverInvariant.thy ===== *)
theory DriverInvariant
  imports CharDriver
begin

text \<open>
  The driver's invariant and its abstraction. The abstract state of the device is the list of the
  commands it remembers, oldest first, and the bytes of a command whose newline has not come yet.
  \<open>drv_mem\<close> says that the module's memory is exactly the blocks the state points to, each once
  (no leak, no dangling pointer, no block used twice), next to a set of other blocks that a
  system call in progress owns.
\<close>

section \<open>The abstract device\<close>

type_synonym device = "byte list list \<times> byte list"

fun spec_feed :: "device \<Rightarrow> byte \<Rightarrow> device" where
  "spec_feed (cmds, pend) c =
     (if c = newline then (last_n 10 (cmds @ [pend @ [c]]), []) else (cmds, pend @ [c]))"

definition spec_write :: "device \<Rightarrow> byte list \<Rightarrow> device" where
  "spec_write d bs = foldl spec_feed d bs"

definition is_command :: "byte list \<Rightarrow> bool" where
  "is_command l \<longleftrightarrow> (\<exists>x. l = x @ [newline] \<and> newline \<notin> set x)"

lemma spec_write_Nil [simp]: "spec_write d [] = d"
  by (simp add: spec_write_def)

lemma spec_write_append: "spec_write d (xs @ ys) = spec_write (spec_write d xs) ys"
  by (simp add: spec_write_def)

lemma spec_write_snoc: "spec_write d (xs @ [x]) = spec_feed (spec_write d xs) x"
  by (simp add: spec_write_def)

lemma spec_write_no_newline:
  "newline \<notin> set x \<Longrightarrow> spec_write (cmds, pend) x = (cmds, pend @ x)"
  by (induction x arbitrary: pend) (auto simp: spec_write_def)

text \<open>
  A stream cut at its newlines: the device remembers the last ten of the complete commands and
  the incomplete rest.
\<close>

lemma spec_write_commands:
  "\<forall>l \<in> set ls. is_command l \<Longrightarrow> length cmds \<le> 10 \<Longrightarrow> newline \<notin> set rest \<Longrightarrow>
   spec_write (cmds, []) (concat ls @ rest) = (last_n 10 (cmds @ ls), rest)"
proof (induction ls arbitrary: cmds)
  case Nil
  then show ?case by (simp add: spec_write_no_newline)
next
  case (Cons l ls)
  obtain x where x: "l = x @ [newline]" "newline \<notin> set x"
    using Cons.prems(1) by (auto simp: is_command_def)
  have "spec_write (cmds, []) l = (last_n 10 (cmds @ [l]), [])"
    using x by (simp add: spec_write_snoc spec_write_no_newline)
  then show ?case
    using Cons.IH [of "last_n 10 (cmds @ [l])"] Cons.prems
    by (simp add: spec_write_append last_n_append_last_n)
qed

text \<open>Every byte string has such a cut, and only one.\<close>

lemma command_cut_exists:
  "\<exists>ls rest. bs = concat ls @ rest \<and> (\<forall>l \<in> set ls. is_command l) \<and> newline \<notin> set rest"
proof (induction bs rule: rev_induct)
  case Nil
  then show ?case by (intro exI [of _ "[]"]) simp
next
  case (snoc c bs)
  then obtain ls rest where c: "bs = concat ls @ rest" "\<forall>l \<in> set ls. is_command l" "newline \<notin> set rest"
    by blast
  show ?case
  proof (cases "c = newline")
    case True
    then have "bs @ [c] = concat (ls @ [rest @ [newline]]) @ []" "is_command (rest @ [newline])"
      using c by (auto simp: is_command_def)
    then show ?thesis
      using c(2) by (intro exI [of _ "ls @ [rest @ [newline]]"] exI [of _ "[]"]) auto
  next
    case False
    then show ?thesis
      using c by (intro exI [of _ ls] exI [of _ "rest @ [c]"]) auto
  qed
qed

section \<open>The driver's memory\<close>

definition entry_addrs :: "aesd_circular_buffer \<Rightarrow> addr list" where
  "entry_addrs b = map (\<lambda>e. the (buffptr e)) (ring_list b)"

definition owned :: "aesd_state \<Rightarrow> addr list" where
  "owned s = entry_addrs (circular_buf s) @ (case g_buff s of None \<Rightarrow> [] | Some a \<Rightarrow> [a])"

definition max_entry :: nat where
  "max_entry = 2 ^ 28"

definition entry_backed :: "heap \<Rightarrow> aesd_buffer_entry \<Rightarrow> bool" where
  "entry_backed h e \<longleftrightarrow>
     (\<exists>a blk. buffptr e = Some a \<and> h a = Some blk \<and> length blk = unat (esize e) \<and>
              unat (esize e) \<le> max_entry)"

definition pending_backed :: "aesd_state \<Rightarrow> bool" where
  "pending_backed s \<longleftrightarrow>
     (case g_buff s of
        None \<Rightarrow> g_len s = 0
      | Some a \<Rightarrow> g_len s \<noteq> 0 \<and> unat (g_len s) \<le> max_entry \<and>
          (\<exists>blk. kheap s a = Some blk \<and> length blk = unat (g_len s)))"

definition drv_mem :: "addr set \<Rightarrow> aesd_state \<Rightarrow> bool" where
  "drv_mem X s \<longleftrightarrow>
     ring_inv (circular_buf s) \<and> distinct (owned s) \<and> set (owned s) \<inter> X = {} \<and>
     dom (kheap s) = set (owned s) \<union> X \<and>
     (\<forall>e \<in> set (ring_list (circular_buf s)). entry_backed (kheap s) e) \<and> pending_backed s"

definition drv_inv :: "aesd_state \<Rightarrow> bool" where
  "drv_inv s \<longleftrightarrow> drv_mem {} s \<and> \<not> mtx (aesd_device s)"

definition dev_cmds :: "aesd_state \<Rightarrow> byte list list" where
  "dev_cmds s = map (\<lambda>e. block_of (buffptr e) (kheap s)) (ring_list (circular_buf s))"

definition dev_pending :: "aesd_state \<Rightarrow> byte list" where
  "dev_pending s = block_of (g_buff s) (kheap s)"

definition dev_abs :: "aesd_state \<Rightarrow> device" where
  "dev_abs s = (dev_cmds s, dev_pending s)"

lemmas drv_abs_defs = dev_abs_def dev_cmds_def dev_pending_def

lemma block_of_upd:
  "block_of p (h(a := v)) = (if p = Some a then (case v of None \<Rightarrow> [] | Some b \<Rightarrow> b) else block_of p h)"
  by (auto simp: block_of_def split: option.splits)

lemma block_of_NULL [simp]: "block_of NULL h = []"
  by (simp add: block_of_def)

lemma set_mtx_simps [simp]:
  "mtx (aesd_device (set_mtx m s)) = m" "circular_buf (set_mtx m s) = circular_buf s"
  "g_buff (set_mtx m s) = g_buff s" "g_len (set_mtx m s) = g_len s" "kheap (set_mtx m s) = kheap s"
  "aesd_major (set_mtx m s) = aesd_major s" "chrdev_region (set_mtx m s) = chrdev_region s"
  "cdev (aesd_device (set_mtx m s)) = cdev (aesd_device s)"
  by (simp_all add: set_mtx_def)

lemma owned_set_mtx [simp]: "owned (set_mtx m s) = owned s"
  by (simp add: owned_def)

lemma drv_mem_set_mtx [simp]: "drv_mem X (set_mtx m s) = drv_mem X s"
  by (simp add: drv_mem_def pending_backed_def cong: option.case_cong)

lemma dev_abs_set_mtx [simp]: "dev_abs (set_mtx m s) = dev_abs s"
  by (simp add: drv_abs_defs)

lemma set_mtx_set_mtx [simp]: "set_mtx a (set_mtx b s) = set_mtx a s"
  by (simp add: set_mtx_def)

lemma set_mtx_same [simp]: "\<not> mtx (aesd_device s) \<Longrightarrow> set_mtx False s = s"
  by (simp add: set_mtx_def)

lemma in_ring_owned: "e \<in> set (ring_list (circular_buf s)) \<Longrightarrow> the (buffptr e) \<in> set (owned s)"
  by (auto simp: owned_def entry_addrs_def)

lemma pending_owned: "g_buff s = Some a \<Longrightarrow> a \<in> set (owned s)"
  by (simp add: owned_def)

text \<open>An entry only depends on its own block.\<close>

lemma entry_frame:
  assumes "entry_backed h e" "h' (the (buffptr e)) = h (the (buffptr e))"
  shows "entry_backed h' e" "block_of (buffptr e) h' = block_of (buffptr e) h"
  using assms by (auto simp: entry_backed_def block_of_def)

lemma drv_memD:
  assumes "drv_mem X s"
  shows "ring_inv (circular_buf s)" "distinct (owned s)" "set (owned s) \<inter> X = {}"
    "dom (kheap s) = set (owned s) \<union> X" "pending_backed s"
    "\<And>e. e \<in> set (ring_list (circular_buf s)) \<Longrightarrow> entry_backed (kheap s) e"
  using assms by (auto simp: drv_mem_def)

lemma entry_addr_in: "e \<in> set (ring_list b) \<Longrightarrow> the (buffptr e) \<in> set (entry_addrs b)"
  by (simp add: entry_addrs_def)

lemma pending_length:
  "pending_backed s \<Longrightarrow> length (dev_pending s) = unat (g_len s) \<and> unat (g_len s) \<le> max_entry"
  by (auto simp: pending_backed_def dev_pending_def block_of_def split: option.splits)

section \<open>Feeding one byte\<close>

text \<open>The grown block with the byte stored: the pending command gets one byte longer.\<close>

lemma grow_keeps:
  assumes mem: "drv_mem X s"
    and fresh: "g_buff s \<noteq> Some b \<longrightarrow> kheap s b = None"
    and len: "Suc (unat (g_len s)) \<le> max_entry"
    and s': "s' = s\<lparr>g_buff := Some b,
                   kheap := (drop_block (g_buff s) (kheap s))(b \<mapsto> dev_pending s @ [c]),
                   g_len := g_len s + 1\<rparr>"
  shows "drv_mem X s' \<and> dev_abs s' = (dev_cmds s, dev_pending s @ [c]) \<and>
         (\<forall>x \<in> X. kheap s' x = kheap s x)"
proof -
  let ?es = "entry_addrs (circular_buf s)"
  note inv = drv_memD [OF mem]
  have es: "distinct ?es" "set ?es \<subseteq> dom (kheap s)" "X \<subseteq> dom (kheap s)" "set ?es \<inter> X = {}"
    using inv(2-4) by (auto simp: owned_def)
  have g: "a \<notin> set ?es" "a \<notin> X" if "g_buff s = Some a" for a
    using inv(2,3) that by (auto simp: owned_def)
  have b: "b \<notin> set ?es" "b \<notin> X"
    using fresh es(2,3) g [of b] by (auto simp: subset_iff domIff)
  have keep: "kheap s' x = kheap s x" if "x \<in> set ?es \<union> X" for x
    using that b g by (auto simp: s' drop_block_def split: option.splits)
  have dom: "dom (kheap s) = set ?es \<union> set_option (g_buff s) \<union> X"
    using inv(4) by (auto simp: owned_def split: option.splits)
  have dom': "dom (kheap s') = set ?es \<union> {b} \<union> X"
  proof -
    have "dom (kheap s') = insert b (dom (kheap s) - set_option (g_buff s))"
      by (auto simp: s' drop_block_def split: option.splits if_splits)
    then show ?thesis
      using dom g b by (cases "g_buff s") auto
  qed
  have "g_len s < 0xFFFFFFFFFFFFFFFF"
    using len by (simp add: word_less_nat_alt max_entry_def)
  then have one: "unat (g_len s + 1) = Suc (unat (g_len s))"
    by (rule unat_plus_one_less)
  then have "g_len s + 1 \<noteq> 0"
    by (metis nat.distinct(1) unat_0)
  then have pb: "pending_backed s'"
    using one pending_length [OF inv(5)] len by (simp add: pending_backed_def s')
  have frame: "entry_backed (kheap s') e" "block_of (buffptr e) (kheap s') = block_of (buffptr e) (kheap s)"
    if "e \<in> set (ring_list (circular_buf s))" for e
    using entry_frame [OF inv(6) [OF that], of "kheap s'"] keep [of "the (buffptr e)"]
      entry_addr_in [OF that] by auto
  have "owned s' = ?es @ [b]"
    by (simp add: s' owned_def)
  then have "drv_mem X s'"
    using inv(1) es b dom' frame pb by (auto simp: drv_mem_def s')
  moreover have "dev_abs s' = (dev_cmds s, dev_pending s @ [c])"
    using frame by (simp add: drv_abs_defs s' block_of_def)
  ultimately show ?thesis
    using keep by blast
qed

text \<open>What the write path never touches: lock, device and region.\<close>

definition same_dev :: "aesd_state \<Rightarrow> aesd_state \<Rightarrow> bool" where
  "same_dev s s' \<longleftrightarrow> aesd_device s' = aesd_device s \<and> aesd_major s' = aesd_major s \<and>
     chrdev_region s' = chrdev_region s"

lemma same_dev_refl [simp]: "same_dev s s"
  by (simp add: same_dev_def)

lemma same_dev_trans: "same_dev s t \<Longrightarrow> same_dev t u \<Longrightarrow> same_dev s u"
  by (simp add: same_dev_def)

text \<open>
  The newline: the pending block becomes the newest entry; the displaced block, if there is one,
  is the oldest entry's and is freed. This is where the contract of the ring is used.
\<close>

lemma commit_keeps:
  assumes ok: "kernel_ok k" and mem: "drv_mem X s" and g: "g_buff s = Some g"
  shows "\<exists>s'. commit_entry k s = Some s' \<and> drv_mem X s' \<and>
    dev_abs s' = (last_n 10 (dev_cmds s @ [dev_pending s]), []) \<and>
    (\<forall>x \<in> X. kheap s' x = kheap s x) \<and> same_dev s s'"
proof -
  let ?e = "\<lparr>buffptr = g_buff s, esize = g_len s\<rparr>"
  let ?cb = "circular_buf s"
  note inv = drv_memD [OF mem]
  have pend: "g_len s \<noteq> 0" "entry_backed (kheap s) ?e"
    using inv(5) g by (auto simp: pending_backed_def entry_backed_def)
  then have live: "live ?e"
    using g by (simp add: live_def)
  obtain cb' where cb': "ring_inv cb'" and step:
    "if length (ring_list ?cb) < 10
     then aesd_circular_buffer_add_entry ?cb ?e = Some (NULL, cb') \<and> ring_list cb' = ring_list ?cb @ [?e]
     else \<exists>old rest. ring_list ?cb = old # rest \<and>
            aesd_circular_buffer_add_entry ?cb ?e = Some (buffptr old, cb') \<and> ring_list cb' = rest @ [?e]"
    using ring.add_step [OF inv(1) live] by blast
  have gX: "g \<notin> X"
    using inv(3) g by (auto simp: owned_def)
  show ?thesis
  proof (cases "length (ring_list ?cb) < 10")
    case True
    let ?s' = "s\<lparr>circular_buf := cb', g_buff := NULL, g_len := 0\<rparr>"
    have rl: "ring_list cb' = ring_list ?cb @ [?e]"
      and call: "commit_entry k s = Some ?s'"
      using step True by (auto simp: commit_entry_def)
    have own: "owned ?s' = owned s"
      using g by (simp add: owned_def entry_addrs_def rl)
    then have "drv_mem X ?s'"
      using inv cb' rl pend by (auto simp: drv_mem_def pending_backed_def)
    moreover have "dev_abs ?s' = (last_n 10 (dev_cmds s @ [dev_pending s]), [])"
      using True by (simp add: drv_abs_defs rl block_of_def)
    ultimately show ?thesis
      using call by (auto simp: same_dev_def)
  next
    case False
    then obtain old rest where rl: "ring_list ?cb = old # rest" "ring_list cb' = rest @ [?e]"
      and add: "aesd_circular_buffer_add_entry ?cb ?e = Some (buffptr old, cb')"
      using step by auto
    obtain a blk where a: "buffptr old = Some a" "kheap s a = Some blk"
      using inv(6) [of old] rl by (auto simp: entry_backed_def)
    let ?s' = "s\<lparr>circular_buf := cb', kheap := (kheap s)(a := None), g_buff := NULL, g_len := 0\<rparr>"
    have call: "commit_entry k s = Some ?s'"
      using add a by (simp add: commit_entry_def kfree_allocated [OF ok])
    have own: "owned s = a # map (\<lambda>e. the (buffptr e)) rest @ [g]"
      using g rl a by (simp add: owned_def entry_addrs_def)
    have own': "owned ?s' = map (\<lambda>e. the (buffptr e)) rest @ [g]"
      using g rl by (simp add: owned_def entry_addrs_def)
    have frame: "entry_backed (kheap ?s') e"
      "block_of (buffptr e) (kheap ?s') = block_of (buffptr e) (kheap s)"
      if "e \<in> set (rest @ [?e])" for e
    proof -
      have "entry_backed (kheap s) e" "the (buffptr e) \<noteq> a"
        using that inv(2,6) own rl g pend by auto
      then show "entry_backed (kheap ?s') e"
        "block_of (buffptr e) (kheap ?s') = block_of (buffptr e) (kheap s)"
        using entry_frame [of "kheap s" e "kheap ?s'"] by auto
    qed
    have "dom (kheap ?s') = set (owned ?s') \<union> X"
      using inv(2-4) own own' by auto
    then have "drv_mem X ?s'"
      using inv(2,3) own own' cb' rl frame by (auto simp: drv_mem_def pending_backed_def)
    moreover have "last_n 10 (dev_cmds s @ [dev_pending s]) = tl (dev_cmds s) @ [dev_pending s]"
      using ring_count_le [of ?cb] False by (intro last_n_snoc_full) (auto simp: dev_cmds_def)
    then have "dev_abs ?s' = (last_n 10 (dev_cmds s @ [dev_pending s]), [])"
      using frame frame(2) [of ?e] by (simp add: drv_abs_defs rl)
    moreover have "\<forall>x \<in> X. kheap ?s' x = kheap s x"
      using inv(3) own by auto
    ultimately show ?thesis
      using call by (auto simp: same_dev_def)
  qed
qed

section \<open>The write loop\<close>

lemma pending_grow:
  assumes "pending_backed s"
  shows "unat (g_len s + 1) = Suc (length (block_of (g_buff s) (kheap s)))"
    "\<forall>a. g_buff s = Some a \<longrightarrow> kheap s a \<noteq> None"
proof -
  have "g_len s < 0xFFFFFFFFFFFFFFFF"
    using pending_length [OF assms] by (simp add: word_less_nat_alt max_entry_def)
  then have "unat (g_len s + 1) = Suc (unat (g_len s))"
    by (rule unat_plus_one_less)
  then show "unat (g_len s + 1) = Suc (length (block_of (g_buff s) (kheap s)))"
    using pending_length [OF assms] by (simp add: dev_pending_def)
  show "\<forall>a. g_buff s = Some a \<longrightarrow> kheap s a \<noteq> None"
    using assms by (auto simp: pending_backed_def)
qed

text \<open>One turn: either \<open>krealloc\<close> fails and nothing has changed, or the device is fed one byte.\<close>

lemma write_turn:
  assumes ok: "kernel_ok k" and mem: "drv_mem X s" and w: "w \<in> X" "kheap s w = Some wb"
    and i: "i < count" "unat i < length wb"
  obtains (fail) "krealloc k (g_buff s) (g_len s + 1) (kheap s) = Some (NULL, kheap s)"
  | (fed) s' where
      "write_loop k (Some w) count i l s = write_loop k (Some w) count (i + 1) (l + 1) s'"
      "drv_mem X s'" "dev_abs s' = spec_feed (dev_abs s) (wb ! unat i)"
      "\<forall>x \<in> X. kheap s' x = kheap s x" "same_dev s s'"
proof -
  let ?g = "g_buff s" and ?c = "wb ! unat i"
  note inv = drv_memD [OF mem]
  note grow = pending_grow [OF inv(5)]
  show ?thesis
  proof (cases rule: krealloc_grow_cases [OF ok grow(2) grow(1)])
    case 1
    then show ?thesis by (rule fail)
  next
    case (2 b c0)
    let ?h1 = "(drop_block ?g (kheap s))(b \<mapsto> block_of ?g (kheap s) @ [c0])"
    let ?h2 = "(drop_block ?g (kheap s))(b \<mapsto> dev_pending s @ [?c])"
    let ?s1 = "s\<lparr>g_buff := Some b, kheap := ?h2, g_len := g_len s + 1\<rparr>"
    have len: "Suc (unat (g_len s)) \<le> max_entry"
      using 2(3) grow(1) pending_length [OF inv(5)] kernel_okD(5) [OF ok]
      by (simp add: max_entry_def dev_pending_def)
    have s1: "drv_mem X ?s1" "dev_abs ?s1 = (dev_cmds s, dev_pending s @ [?c])"
      "\<forall>x \<in> X. kheap ?s1 x = kheap s x"
      using grow_keeps [OF mem 2(2) len refl, of ?c] by auto
    have wb: "b \<noteq> w" "?h1 w = Some wb" "?h2 w = Some wb"
      using s1(3) w 2(2) inv(3) pending_owned [of s b] by (auto split: if_splits)
    have "store ?h1 (Some b) (unat (g_len s)) ?c = Some ?h2"
      using pending_length [OF inv(5)]
      by (simp add: store_def dev_pending_def list_update_append)
    then have turn: "write_loop k (Some w) count i l s =
      do { s \<leftarrow> (if ?c = newline then commit_entry k ?s1 else Some ?s1);
           write_loop k (Some w) count (i + 1) (l + 1) s }"
      using 2(1) i wb by (subst write_loop.simps) (simp add: load_def)
    show ?thesis
    proof (cases "?c = newline")
      case True
      obtain s' where s': "commit_entry k ?s1 = Some s'" "drv_mem X s'"
        "dev_abs s' = (last_n 10 (dev_cmds ?s1 @ [dev_pending ?s1]), [])"
        "\<forall>x \<in> X. kheap s' x = kheap ?s1 x" "same_dev ?s1 s'"
        using commit_keeps [OF ok s1(1), of b] by auto
      then show ?thesis
        using turn True s1(2,3) by (intro fed [of s']) (auto simp: dev_abs_def same_dev_def)
    next
      case False
      then show ?thesis
        using turn s1 by (intro fed [of ?s1]) (auto simp: dev_abs_def same_dev_def)
    qed
  qed
qed

text \<open>Blocks the state does not point to can come, go and change.\<close>

lemma mem_outside:
  assumes mem: "drv_mem X s" and same: "\<And>a. a \<in> set (owned s) \<Longrightarrow> h' a = kheap s a"
    and dom: "dom h' = set (owned s) \<union> Y" and Y: "set (owned s) \<inter> Y = {}"
  shows "drv_mem Y (s\<lparr>kheap := h'\<rparr>)" "dev_abs (s\<lparr>kheap := h'\<rparr>) = dev_abs s"
proof -
  let ?s' = "s\<lparr>kheap := h'\<rparr>"
  note inv = drv_memD [OF mem]
  have frame: "entry_backed h' e" "block_of (buffptr e) h' = block_of (buffptr e) (kheap s)"
    if "e \<in> set (ring_list (circular_buf s))" for e
    using entry_frame [OF inv(6) [OF that]] same [OF in_ring_owned [OF that]] by blast+
  have pend: "h' a = kheap s a" if "g_buff s = Some a" for a
    using same [OF pending_owned [OF that]] .
  then have "pending_backed ?s'"
    using inv(5) by (auto simp: pending_backed_def split: option.splits)
  moreover have "owned ?s' = owned s"
    by (simp add: owned_def)
  ultimately show "drv_mem Y ?s'"
    using inv(1,2) frame dom Y by (auto simp: drv_mem_def)
  show "dev_abs ?s' = dev_abs s"
    using frame pend by (auto simp: drv_abs_defs block_of_def split: option.splits)
qed

lemma free_extra:
  assumes "kernel_ok k" "drv_mem X s" "w \<in> X"
  shows "kfree k (Some w) (kheap s) = Some ((kheap s)(w := None))"
    "drv_mem (X - {w}) (s\<lparr>kheap := (kheap s)(w := None)\<rparr>)"
    "dev_abs (s\<lparr>kheap := (kheap s)(w := None)\<rparr>) = dev_abs s"
proof -
  note inv = drv_memD [OF assms(2)]
  have w: "w \<notin> set (owned s)" "w \<in> dom (kheap s)"
    using inv(3,4) assms(3) by auto
  then show "kfree k (Some w) (kheap s) = Some ((kheap s)(w := None))"
    using kfree_allocated [OF assms(1)] by auto
  have "dom ((kheap s)(w := None)) = set (owned s) \<union> (X - {w})" "set (owned s) \<inter> (X - {w}) = {}"
    using w inv(3,4) by auto
  then show "drv_mem (X - {w}) (s\<lparr>kheap := (kheap s)(w := None)\<rparr>)"
    "dev_abs (s\<lparr>kheap := (kheap s)(w := None)\<rparr>) = dev_abs s"
    using mem_outside [OF assms(2), of "(kheap s)(w := None)"] w(1) by (metis fun_upd_other)+
qed

lemma store_extra:
  assumes mem: "drv_mem X s" and w: "w \<notin> set (owned s)"
  shows "drv_mem (insert w X) (s\<lparr>kheap := (kheap s)(w \<mapsto> blk)\<rparr>)"
    "dev_abs (s\<lparr>kheap := (kheap s)(w \<mapsto> blk)\<rparr>) = dev_abs s"
proof -
  have "dom ((kheap s)(w \<mapsto> blk)) = set (owned s) \<union> insert w X" "set (owned s) \<inter> insert w X = {}"
    using w drv_memD(3,4) [OF mem] by auto
  then show "drv_mem (insert w X) (s\<lparr>kheap := (kheap s)(w \<mapsto> blk)\<rparr>)"
    "dev_abs (s\<lparr>kheap := (kheap s)(w \<mapsto> blk)\<rparr>) = dev_abs s"
    using mem_outside [OF mem, of "(kheap s)(w \<mapsto> blk)"] w by (metis fun_upd_other)+
qed

text \<open>The state in which an allocation failed.\<close>

definition realloc_failed :: "kernel \<Rightarrow> addr set \<Rightarrow> aesd_state \<Rightarrow> bool" where
  "realloc_failed k X t \<longleftrightarrow> drv_mem X t \<and>
     krealloc k (g_buff t) (g_len t + 1) (kheap t) = Some (NULL, kheap t)"

text \<open>
  The loop from byte \<open>i\<close> on: all bytes are fed; or \<open>krealloc\<close> fails after some of them, the lock
  is released and \<open>wbuff\<close> freed.
\<close>

lemma write_loop_feeds:
  assumes ok: "kernel_ok k" and w: "w \<in> X" and len: "length wb = unat count"
  shows "drv_mem X s \<Longrightarrow> kheap s w = Some wb \<Longrightarrow> mtx (aesd_device s) \<Longrightarrow> i \<le> count \<Longrightarrow>
    \<exists>r s'. write_loop k (Some w) count i l s = Some (r, s') \<and>
      (case r of
         Inr n \<Rightarrow> n = l + (count - i) \<and> drv_mem X s' \<and> same_dev s s' \<and>
           dev_abs s' = spec_write (dev_abs s) (drop (unat i) wb)
       | Inl err \<Rightarrow> err = - ENOMEM \<and> drv_mem (X - {w}) s' \<and> same_dev (set_mtx False s) s' \<and>
           (\<exists>n < unat count - unat i. \<exists>t. realloc_failed k X t \<and> dev_abs s' = dev_abs t \<and>
              dev_abs t = spec_write (dev_abs s) (take n (drop (unat i) wb))))"
proof (induction "unat count - unat i" arbitrary: i l s)
  case 0
  then have "i = count"
    by (simp add: word_le_nat_alt word_unat_eq_iff)
  then show ?case
    using 0 len by (subst write_loop.simps) simp
next
  case (Suc d)
  have i: "i < count" "unat i < length wb"
    using Suc.hyps(2) len by (auto simp: word_less_nat_alt)
  have one: "unat (i + 1) = Suc (unat i)"
    using i(1) by (rule unat_plus_one_less)
  show ?case
  proof (cases rule: write_turn [OF ok Suc.prems(1) w Suc.prems(2) i, where l = l])
    case 1
    let ?s' = "set_mtx False (s\<lparr>kheap := (kheap s)(w := None)\<rparr>)"
    note free = free_extra [OF ok Suc.prems(1) w]
    have "write_loop k (Some w) count i l s = Some (Inl (- ENOMEM), ?s')"
      using 1 i(1) free(1) Suc.prems(3) by (subst write_loop.simps) simp
    moreover have "same_dev (set_mtx False s) ?s'"
      by (simp add: same_dev_def set_mtx_def)
    moreover have "\<exists>n < unat count - unat i. \<exists>t. realloc_failed k X t \<and> dev_abs ?s' = dev_abs t \<and>
        dev_abs t = spec_write (dev_abs s) (take n (drop (unat i) wb))"
      using 1 free(3) Suc.hyps(2) Suc.prems(1)
      by (intro exI [of _ 0] exI [of _ s] conjI) (simp_all add: realloc_failed_def)
    moreover have "drv_mem (X - {w}) ?s'"
      using free(2) by simp
    ultimately show ?thesis
      by auto
  next
    case (2 s1)
    have mtx1: "mtx (aesd_device s1)" "kheap s1 w = Some wb"
      using 2(4,5) Suc.prems(2,3) w by (auto simp: same_dev_def)
    have "d = unat count - unat (i + 1)" "i + 1 \<le> count"
      using Suc.hyps(2) one i(1) by (auto simp: word_le_nat_alt word_less_nat_alt)
    from Suc.hyps(1) [OF this(1) 2(2) mtx1(2,1) this(2), of "l + 1"]
    obtain r s' where r: "write_loop k (Some w) count (i + 1) (l + 1) s1 = Some (r, s')"
      and post: "case r of
         Inr n \<Rightarrow> n = l + 1 + (count - (i + 1)) \<and> drv_mem X s' \<and> same_dev s1 s' \<and>
           dev_abs s' = spec_write (dev_abs s1) (drop (unat (i + 1)) wb)
       | Inl err \<Rightarrow> err = - ENOMEM \<and> drv_mem (X - {w}) s' \<and> same_dev (set_mtx False s1) s' \<and>
           (\<exists>n < unat count - unat (i + 1). \<exists>t. realloc_failed k X t \<and> dev_abs s' = dev_abs t \<and>
              dev_abs t = spec_write (dev_abs s1) (take n (drop (unat (i + 1)) wb)))"
      by blast
    have cut: "drop (unat i) wb = [wb ! unat i] @ drop (unat (i + 1)) wb"
      using i(2) one by (simp add: Cons_nth_drop_Suc)
    have fed: "spec_write (dev_abs s1) bs = spec_write (dev_abs s) ([wb ! unat i] @ bs)" for bs
      using 2(3) by (simp add: spec_write_def)
    have dev: "same_dev (set_mtx m s) (set_mtx m s1)" for m
      using 2(5) by (simp add: same_dev_def set_mtx_def)
    show ?thesis
    proof (cases r)
      case (Inr n)
      then show ?thesis
        using 2(1,5) r post cut fed same_dev_trans by fastforce
    next
      case (Inl err)
      then obtain n t where n: "n < unat count - unat (i + 1)"
        "dev_abs t = spec_write (dev_abs s1) (take n (drop (unat (i + 1)) wb))"
        "realloc_failed k X t" "dev_abs s' = dev_abs t"
        and err: "err = - ENOMEM" "drv_mem (X - {w}) s'" "same_dev (set_mtx False s1) s'"
        using post by auto
      have "dev_abs t = spec_write (dev_abs s) (take (Suc n) (drop (unat i) wb))"
        using n(2) fed cut by simp
      moreover have "Suc n < unat count - unat i"
        using n(1) one by simp
      ultimately have "\<exists>n < unat count - unat i. \<exists>t. realloc_failed k X t \<and> dev_abs s' = dev_abs t \<and>
              dev_abs t = spec_write (dev_abs s) (take n (drop (unat i) wb))"
        using n(3,4) by blast
      moreover have "same_dev (set_mtx False s) s'"
        using err(3) dev same_dev_trans by blast
      ultimately show ?thesis
        using 2(1) r Inl err(1,2) by simp
    qed
  qed
qed

section \<open>write\<close>

text \<open>What a call of \<open>aesd_write\<close> has done, by its return value.\<close>

definition write_post :: "kernel \<Rightarrow> byte list \<Rightarrow> aesd_state \<Rightarrow> s64 \<Rightarrow> aesd_state \<Rightarrow> bool" where
  "write_post k bs s r s' \<longleftrightarrow>
     r = word_of_nat (length bs) \<and> dev_abs s' = spec_write (dev_abs s) bs \<or>
     r \<in> {- EFAULT, - ERESTARTSYS} \<and> dev_abs s' = dev_abs s \<or>
     r = - ENOMEM \<and> (\<exists>n \<le> length bs. dev_abs s' = spec_write (dev_abs s) (take n bs))"

text \<open>The critical section, entered with \<open>wbuff\<close> filled: loop, unlock, free.\<close>

lemma write_section:
  assumes ok: "kernel_ok k" and mem: "drv_mem {w} s" and w: "kheap s w = Some bs"
    and len: "length bs = unat count" and free: "\<not> mtx (aesd_device s)"
  shows "\<exists>r s'.
    do { (r, s) \<leftarrow> write_loop k (Some w) count 0 0 (set_mtx True s);
         case r of
           Inl err \<Rightarrow> Some (err, s)
         | Inr wr_len \<Rightarrow> do {
             held \<leftarrow> mutex_unlock (mtx (aesd_device s));
             let s = set_mtx held s;
             h \<leftarrow> kfree k (Some w) (kheap s);
             Some (wr_len, s\<lparr>kheap := h\<rparr>)
           } } = Some (r, s') \<and>
    drv_inv s' \<and> same_dev s s' \<and>
    (r = count \<and> dev_abs s' = spec_write (dev_abs s) bs \<or>
     r = - ENOMEM \<and> (\<exists>n < length bs. \<exists>t. realloc_failed k {w} t \<and> dev_abs s' = dev_abs t \<and>
       dev_abs t = spec_write (dev_abs s) (take n bs)))"
proof -
  have mem1: "drv_mem {w} (set_mtx True s)" "kheap (set_mtx True s) w = Some bs"
    "mtx (aesd_device (set_mtx True s))"
    using mem w by simp_all
  have "\<exists>r s1. write_loop k (Some w) count 0 0 (set_mtx True s) = Some (r, s1) \<and>
      (case r of
         Inr n \<Rightarrow> n = count \<and> drv_mem {w} s1 \<and> same_dev (set_mtx True s) s1 \<and>
           dev_abs s1 = spec_write (dev_abs s) bs
       | Inl err \<Rightarrow> err = - ENOMEM \<and> drv_mem {} s1 \<and> same_dev (set_mtx False s) s1 \<and>
           (\<exists>n < unat count. \<exists>t. realloc_failed k {w} t \<and> dev_abs s1 = dev_abs t \<and>
              dev_abs t = spec_write (dev_abs s) (take n bs)))"
    using write_loop_feeds [OF ok _ len mem1, of 0 0] by (simp cong: sum.case_cong)
  then obtain r s1 where r: "write_loop k (Some w) count 0 0 (set_mtx True s) = Some (r, s1)"
    and post: "case r of
         Inr n \<Rightarrow> n = count \<and> drv_mem {w} s1 \<and> same_dev (set_mtx True s) s1 \<and>
           dev_abs s1 = spec_write (dev_abs s) bs
       | Inl err \<Rightarrow> err = - ENOMEM \<and> drv_mem {} s1 \<and> same_dev (set_mtx False s) s1 \<and>
           (\<exists>n < unat count. \<exists>t. realloc_failed k {w} t \<and> dev_abs s1 = dev_abs t \<and>
              dev_abs t = spec_write (dev_abs s) (take n bs))"
    by blast
  show ?thesis
  proof (cases r)
    case (Inl err)
    obtain n t where n: "n < length bs" "realloc_failed k {w} t" "dev_abs s1 = dev_abs t"
      "dev_abs t = spec_write (dev_abs s) (take n bs)"
      using post Inl len by auto
    have s1: "err = - ENOMEM" "drv_inv s1" "same_dev s s1"
      using post Inl free by (auto simp: drv_inv_def same_dev_def)
    moreover have "\<exists>n < length bs. \<exists>t. realloc_failed k {w} t \<and> dev_abs s1 = dev_abs t \<and>
       dev_abs t = spec_write (dev_abs s) (take n bs)"
      using n by blast
    ultimately show ?thesis
      using r Inl by simp
  next
    case (Inr n)
    let ?s2 = "set_mtx False s1"
    let ?s' = "?s2\<lparr>kheap := (kheap s1)(w := None)\<rparr>"
    have "same_dev (set_mtx True s) s1"
      using post Inr by simp
    then have s1: "mtx (aesd_device s1)" "same_dev s ?s2"
      using free by (simp_all add: same_dev_def set_mtx_def)
    have s2: "n = count" "drv_mem {w} ?s2" "dev_abs ?s2 = spec_write (dev_abs s) bs"
      using post Inr by simp_all
    have fr: "kfree k (Some w) (kheap s1) = Some ((kheap s1)(w := None))"
      "drv_mem {} ?s'" "dev_abs ?s' = spec_write (dev_abs s) bs"
      using free_extra [OF ok s2(2), of w] s2(3) by auto
    have "drv_inv ?s'" "same_dev s ?s'"
      using fr(2) s1(2) free by (auto simp: drv_inv_def same_dev_def)
    then show ?thesis
      using r Inr s1(1) s2(1) fr(1,3) by auto
  qed
qed

text \<open>What made an allocation fail in a call that returned \<open>-ENOMEM\<close>.\<close>

definition write_starved :: "kernel \<Rightarrow> byte list \<Rightarrow> aesd_state \<Rightarrow> bool" where
  "write_starved k bs s \<longleftrightarrow>
     k_kmalloc k (word_of_nat (length bs)) (kheap s) = (NULL, kheap s) \<or>
     (\<exists>w n t. n < length bs \<and> realloc_failed k {w} t \<and>
        dev_abs t = spec_write (dev_abs s) (take n bs))"

lemma write_total:
  assumes ok: "kernel_ok k" and inv: "drv_inv s"
  shows "\<exists>r s'. aesd_write k buf count m s = Some (r, s') \<and> drv_inv s' \<and> same_dev s s' \<and>
    write_post k (load_user buf (unat count) m) s r s' \<and>
    (r = - ENOMEM \<longrightarrow> write_starved k (load_user buf (unat count) m) s) \<and>
    (r = - EFAULT \<longrightarrow> fst (k_copy_from_user k buf count m) \<noteq> 0) \<and>
    (r = - ERESTARTSYS \<longrightarrow> k_mutex_lock_interruptible k \<noteq> 0)"
proof (cases rule: kmalloc_cases [OF ok, of count "kheap s"])
  case 1
  then show ?thesis
    using inv by (auto simp: aesd_write_def write_post_def write_starved_def errno_defs
                    intro: exI [of _ 0])
next
  case (2 w blk)
  have mem: "drv_mem {} s" and free: "\<not> mtx (aesd_device s)"
    using inv by (auto simp: drv_inv_def)
  have w: "w \<notin> set (owned s)"
    using drv_memD(4) [OF mem] 2(2) by auto
  obtain rc bs where cp: "k_copy_from_user k buf count m = (rc, bs)"
    by (cases "k_copy_from_user k buf count m")
  have bs: "length bs = unat count" "rc = 0 \<longrightarrow> bs = load_user buf (unat count) m"
    using kernel_okD(3) [OF ok] cp unfolding copy_ok_def by (metis snd_conv fst_conv)+
  let ?s1 = "s\<lparr>kheap := (kheap s)(w \<mapsto> bs)\<rparr>"
  have s1: "drv_mem {w} ?s1" "dev_abs ?s1 = dev_abs s"
    using store_extra [OF mem w, of bs] by auto
  have freed: "kfree k (Some w) (kheap ?s1) = Some (kheap s)"
    using kfree_allocated [OF ok, of "kheap ?s1" w bs] 2(2) by (simp add: fun_upd_idem)
  have stored: "store_range ((kheap s)(w \<mapsto> blk)) (Some w) bs = Some ((kheap s)(w \<mapsto> bs))"
    using bs(1) 2(3) by (simp add: store_range_def)
  have same: "s\<lparr>kheap := kheap s\<rparr> = s"
    by simp
  consider (fault) "rc \<noteq> 0" | (signal) "rc = 0" "k_mutex_lock_interruptible k \<noteq> 0"
    | (run) "rc = 0" "k_mutex_lock_interruptible k = 0"
    by blast
  then show ?thesis
  proof cases
    case fault
    have "aesd_write k buf count m s = Some (- EFAULT, s)"
      using fault cp 2(1) freed stored by (simp add: aesd_write_def Let_def)
    then show ?thesis
      using inv cp fault by (simp add: write_post_def errno_defs)
  next
    case signal
    have "set_mtx False s = s"
      using free by simp
    then have "aesd_write k buf count m s = Some (- ERESTARTSYS, s)"
      using signal cp 2(1) freed stored free
      by (simp add: aesd_write_def Let_def mutex_lock_interruptible_def set_mtx_def)
    then show ?thesis
      using inv signal by (simp add: write_post_def errno_defs)
  next
    case run
    have lb: "length bs \<le> max_entry"
      using bs(1) 2(4) kernel_okD(5) [OF ok] by (simp add: max_entry_def)
    have w1: "kheap ?s1 w = Some bs" "\<not> mtx (aesd_device ?s1)"
      using free by simp_all
    obtain r s' where sec: "aesd_write k buf count m s = Some (r, s')"
      and post: "drv_inv s'" "same_dev ?s1 s'"
        "r = count \<and> dev_abs s' = spec_write (dev_abs ?s1) bs \<or>
         r = - ENOMEM \<and> (\<exists>n < length bs. \<exists>t. realloc_failed k {w} t \<and> dev_abs s' = dev_abs t \<and>
           dev_abs t = spec_write (dev_abs ?s1) (take n bs))"
      using write_section [OF ok s1(1) w1(1) bs(1) w1(2)] run cp 2(1) stored free
      by (auto simp: aesd_write_def Let_def mutex_lock_interruptible_def)
    have dev: "same_dev s s'"
      using post(2) by (simp add: same_dev_def)
    have small: "count \<noteq> - ENOMEM" "count \<noteq> - EFAULT" "count \<noteq> - ERESTARTSYS"
      using lb bs(1) by (auto simp: errno_defs max_entry_def)
    have lbs: "bs = load_user buf (unat count) m"
      using bs(2) run(1) by simp
    from post(3) show ?thesis
    proof (elim disjE conjE)
      assume "r = count" "dev_abs s' = spec_write (dev_abs ?s1) bs"
      then show ?thesis
        using sec post(1) dev small lbs s1(2) by (auto simp: write_post_def)
    next
      assume r: "r = - ENOMEM" and "\<exists>n < length bs. \<exists>t. realloc_failed k {w} t \<and>
        dev_abs s' = dev_abs t \<and> dev_abs t = spec_write (dev_abs ?s1) (take n bs)"
      then obtain n t where n: "n < length bs" "realloc_failed k {w} t" "dev_abs s' = dev_abs t"
        "dev_abs t = spec_write (dev_abs s) (take n bs)"
        using s1(2) by auto
      then have "write_post k bs s r s'" "write_starved k bs s"
        using r unfolding write_post_def write_starved_def by (metis less_imp_le)+
      then show ?thesis
        using sec post(1) dev r lbs by (auto simp: errno_defs)
    qed
  qed
qed

end
