(* ===== verification/DriverRead.thy ===== *)
theory DriverRead
  imports DriverInvariant
begin

text \<open>
  Reading, seeking and the ioctl against the abstract device: the content of the device is the
  concatenation of the commands it remembers; a read at \<open>pos\<close> delivers the bytes from \<open>pos\<close> on.
\<close>

section \<open>The content\<close>

definition dev_content :: "aesd_state \<Rightarrow> byte list" where
  "dev_content s = concat (dev_cmds s)"

lemma dev_cmds_nth:
  "i < ring_count (circular_buf s) \<Longrightarrow>
   dev_cmds s ! i = block_of (buffptr (entry (circular_buf s) ! ring_slot (circular_buf s) i)) (kheap s)"
  by (simp add: dev_cmds_def ring_list_nth)

lemma length_dev_cmds [simp]: "length (dev_cmds s) = ring_count (circular_buf s)"
  by (simp add: dev_cmds_def)

lemma entry_backed_length: "entry_backed h e \<Longrightarrow> length (block_of (buffptr e) h) = unat (esize e)"
  by (auto simp: entry_backed_def block_of_def)

lemma ring_sizes_cmds: "drv_mem X s \<Longrightarrow> ring_sizes (circular_buf s) = map length (dev_cmds s)"
  by (auto simp: ring_sizes_def dev_cmds_def drv_memD(6) entry_backed_length)

lemma content_bound:
  assumes mem: "drv_mem X s"
  shows "length (dev_content s) \<le> 10 * 2 ^ 28"
proof -
  have "\<forall>x \<in> set (ring_sizes (circular_buf s)). x \<le> max_entry"
    using drv_memD(6) [OF mem] by (auto simp: ring_sizes_def entry_backed_def)
  then have "sum_list (ring_sizes (circular_buf s)) \<le> ring_count (circular_buf s) * max_entry"
    using sum_list_bounded by fastforce
  also have "\<dots> \<le> 10 * max_entry"
    using ring_count_le by (intro mult_right_mono) auto
  finally show ?thesis
    by (simp add: dev_content_def length_concat ring_sizes_cmds [OF mem] max_entry_def)
qed

text \<open>The search of the code, on a driver state: \<open>locate\<close> on the commands.\<close>

lemma find_in_dev:
  assumes mem: "drv_mem X s"
  shows "aesd_circular_buffer_find_entry_offset_for_fpos (circular_buf s) off =
    Some (case locate (map length (dev_cmds s)) (unat off) of
            None \<Rightarrow> None
          | Some (i, j) \<Rightarrow> Some (word_of_nat (ring_slot (circular_buf s) i), word_of_nat j))"
proof -
  note inv = drv_memD [OF mem]
  have nz: "\<forall>n \<in> set (ring_sizes (circular_buf s)). n \<noteq> 0"
    using ring_list_live [OF inv(1)] unfolding ring_sizes_def live_def by (auto simp: unat_gt_0)
  have "sum_list (ring_sizes (circular_buf s)) = length (dev_content s)"
    by (simp add: ring_sizes_cmds [OF mem] dev_content_def length_concat)
  then have "sum_list (ring_sizes (circular_buf s)) < 2 ^ 64"
    using content_bound [OF mem] by simp
  then show ?thesis
    using find_entry_locate [OF ring_inv_wf [OF inv(1)] nz] by (simp add: ring_sizes_cmds [OF mem])
qed

text \<open>A located entry: its slot, its block and what follows in the content.\<close>

lemma located_entry:
  assumes mem: "drv_mem X s" and loc: "locate (map length (dev_cmds s)) p = Some (i, j)"
  defines "e \<equiv> entry (circular_buf s) ! ring_slot (circular_buf s) i"
  shows "unat (word_of_nat (ring_slot (circular_buf s) i) :: u8) = ring_slot (circular_buf s) i"
    "length (entry (circular_buf s)) = 10"
    "entry_backed (kheap s) e" "j < unat (esize e)" "dev_cmds s ! i = block_of (buffptr e) (kheap s)"
    "drop p (dev_content s) = drop j (dev_cmds s ! i) @ concat (drop (Suc i) (dev_cmds s))"
proof -
  have i: "i < ring_count (circular_buf s)" "j < length (dev_cmds s ! i)"
    using locate_Some [OF loc] by auto
  have "ring_slot (circular_buf s) i < 256"
    by (rule less_trans [OF ring_slot_lt]) simp
  then show "unat (word_of_nat (ring_slot (circular_buf s) i) :: u8) = ring_slot (circular_buf s) i"
    by (simp add: unat_of_nat_small)
  show "length (entry (circular_buf s)) = 10"
    using drv_memD(1) [OF mem] by (simp add: ring_inv_def)
  have "e \<in> set (ring_list (circular_buf s))"
    using i(1) unfolding e_def by (metis length_ring_list nth_mem ring_list_nth)
  then show backed: "entry_backed (kheap s) e"
    by (rule drv_memD(6) [OF mem])
  show cmd: "dev_cmds s ! i = block_of (buffptr e) (kheap s)"
    using i(1) by (simp add: dev_cmds_nth e_def)
  show "j < unat (esize e)"
    using i(2) entry_backed_length [OF backed] cmd by simp
  show "drop p (dev_content s) = drop j (dev_cmds s ! i) @ concat (drop (Suc i) (dev_cmds s))"
    unfolding dev_content_def by (rule locate_drop [OF loc])
qed

section \<open>read\<close>

definition copy_faults :: "kernel \<Rightarrow> bool" where
  "copy_faults k \<longleftrightarrow> (\<exists>d bs m. fst (k_copy_to_user k d bs m) \<noteq> 0)"

text \<open>The number of bytes a read of at most \<open>n\<close> bytes at \<open>pos\<close> can deliver.\<close>

definition readable :: "aesd_state \<Rightarrow> s64 \<Rightarrow> nat \<Rightarrow> nat" where
  "readable s fpos n = min n (length (dev_content s) - unat fpos)"

lemma min_word: "unat (if a > b then b else a) = min (unat a) (unat (b :: u64))"
  by (simp add: min_def word_less_nat_alt)

text \<open>One turn of the copy loop moves the rest of an entry, or what the caller still wants.\<close>

lemma read_turn:
  assumes ok: "kernel_ok k" and mem: "drv_mem X s"
    and pos: "aesd_circular_buffer_find_entry_offset_for_fpos (circular_buf s) fpos = Some (Some ij)"
    and br: "br < count"
  obtains (fault) m' where
      "read_loop k s buf count (Some ij) br fpos m = Some (Inl (- EFAULT), fpos, m')" "copy_faults k"
  | (copied) n pos' where
      "0 < n" "n \<le> readable s fpos (unat count - unat br)"
      "aesd_circular_buffer_find_entry_offset_for_fpos (circular_buf s) (fpos + word_of_nat n) = Some pos'"
      "read_loop k s buf count (Some ij) br fpos m =
         read_loop k s buf count pos' (br + word_of_nat n) (fpos + word_of_nat n)
           (store_user (buf + br) (take n (drop (unat fpos) (dev_content s))) m)"
proof -
  let ?cb = "circular_buf s"
  obtain i j where loc: "locate (map length (dev_cmds s)) (unat fpos) = Some (i, j)"
    and ij: "ij = (word_of_nat (ring_slot ?cb i), word_of_nat j)"
    using pos find_in_dev [OF mem, of fpos] by (auto split: option.splits prod.splits)
  let ?e = "entry ?cb ! ring_slot ?cb i"
  note le = located_entry [OF mem loc]
  let ?avail = "esize ?e - word_of_nat j"
  define cp where "cp = (if ?avail > count - br then count - br else ?avail)"
  have "unat (esize ?e) < 2 ^ LENGTH(64)"
    by (rule unsigned_less)
  then have j: "unat (word_of_nat j :: u64) = j"
    using le(4) by (intro unat_of_nat_small) simp
  have avail: "unat ?avail = unat (esize ?e) - j"
    using le(4) j by (subst unat_minus_le) (auto simp: word_le_nat_alt)
  have left: "unat (count - br) = unat count - unat br"
    using br by (intro unat_minus_le) simp
  have cp: "unat cp = min (unat (esize ?e) - j) (unat count - unat br)"
    unfolding cp_def by (simp add: min_word avail left)
  obtain a blk where blk: "buffptr ?e = Some a" "kheap s a = Some blk" "length blk = unat (esize ?e)"
    using le(3) by (auto simp: entry_backed_def)
  have cmd: "dev_cmds s ! i = blk"
    using le(5) blk by (simp add: block_of_def)
  let ?bs = "take (unat cp) (drop j blk)"
  have bs: "?bs = take (unat cp) (drop (unat fpos) (dev_content s))"
    using le(6) cmd cp blk(3) by simp
  have "load_range (kheap s) (buffptr ?e) j (unat cp) = Some ?bs"
    using blk cp le(4) by (simp add: load_range_def)
  then have turn: "read_loop k s buf count (Some ij) br fpos m =
      (let (rc, m) = k_copy_to_user k (buf + br) ?bs m
       in if rc \<noteq> 0 then Some (Inl (- EFAULT), fpos, m)
          else do {
            pos \<leftarrow> aesd_circular_buffer_find_entry_offset_for_fpos ?cb (fpos + cp);
            read_loop k s buf count pos (br + cp) (fpos + cp) m
          })"
    using br le(1,2) j
    by (subst read_loop.simps) (simp add: ij Let_def flip: cp_def cong: prod.case_cong if_cong)
  obtain rc m' where call: "k_copy_to_user k (buf + br) ?bs m = (rc, m')"
    by (cases "k_copy_to_user k (buf + br) ?bs m")
  show ?thesis
  proof (cases "rc = 0")
    case False
    then have "copy_faults k"
      unfolding copy_faults_def using call by (metis fst_conv)
    then show ?thesis
      using turn call False by (intro fault [of m']) simp_all
  next
    case True
    then have m': "m' = store_user (buf + br) ?bs m"
      using kernel_okD(3) [OF ok] call unfolding copy_ok_def by (metis fst_conv snd_conv)
    obtain pos' where pos': "aesd_circular_buffer_find_entry_offset_for_fpos ?cb (fpos + cp) = Some pos'"
      using find_in_dev [OF mem, of "fpos + cp"] by blast
    have "length (drop (unat fpos) (dev_content s)) \<ge> length (drop j blk)"
      using le(6) cmd by simp
    then have "unat cp \<le> readable s fpos (unat count - unat br)"
      using cp blk(3) by (simp add: readable_def)
    moreover have "0 < unat cp"
      using cp le(4) br by (simp add: word_less_nat_alt)
    ultimately show ?thesis
      using turn call True m' pos' bs by (intro copied [of "unat cp" pos']) simp_all
  qed
qed

lemma read_loop_delivers:
  assumes ok: "kernel_ok k" and mem: "drv_mem X s"
  shows "aesd_circular_buffer_find_entry_offset_for_fpos (circular_buf s) fpos = Some pos \<Longrightarrow>
    br \<le> count \<Longrightarrow>
    \<exists>r fpos' m'. read_loop k s buf count pos br fpos m = Some (r, fpos', m') \<and>
      (let n = readable s fpos (unat count - unat br)
       in r = Inr (br + word_of_nat n) \<and> fpos' = fpos + word_of_nat n \<and>
          m' = store_user (buf + br) (take n (drop (unat fpos) (dev_content s))) m \<or>
          r = Inl (- EFAULT) \<and> copy_faults k \<and> (\<exists>j \<le> n. fpos' = fpos + word_of_nat j))"
proof (induction "unat count - unat br" arbitrary: pos br fpos m rule: less_induct)
  case less
  show ?case
  proof (cases pos)
    case None
    then have "locate (map length (dev_cmds s)) (unat fpos) = None"
      using less.prems(1) find_in_dev [OF mem, of fpos] by (auto split: option.splits)
    then have "length (dev_content s) \<le> unat fpos"
      by (simp add: locate_None_iff dev_content_def length_concat)
    then show ?thesis
      using None by (subst read_loop.simps) (simp add: readable_def)
  next
    case (Some ij)
    show ?thesis
    proof (cases "br < count")
      case False
      then have "br = count"
        using less.prems(2) by simp
      then show ?thesis
        using Some by (subst read_loop.simps) (cases ij, simp add: readable_def)
    next
      case True
      show ?thesis
      proof (cases rule: read_turn [OF ok mem less.prems(1) [unfolded Some] True, of buf m])
        case (1 m')
        then show ?thesis
          using Some by (auto simp: Let_def intro: exI [of _ 0])
      next
        case (2 n pos')
        let ?w = "word_of_nat n :: u64"
        have n: "n \<le> unat count - unat br" "n \<le> length (dev_content s) - unat fpos"
          using 2(2) by (auto simp: readable_def)
        have w: "unat ?w = n"
          using n(2) content_bound [OF mem] by (intro unat_of_nat_small) simp
        have lt: "unat count < 2 ^ LENGTH(64)" "unat fpos < 2 ^ LENGTH(64)" "unat br < unat count"
          using True by (auto simp: word_less_nat_alt unat_lt_u64)
        have br': "unat (br + ?w) = unat br + n"
          using n(1) lt by (subst unat_plus_no_wrap) (auto simp: w)
        have "n = 0 \<or> unat fpos + n \<le> length (dev_content s)"
          using n(2) by auto
        then have fpos': "unat (fpos + ?w) = unat fpos + n"
          using content_bound [OF mem] lt(2) by (subst unat_plus_no_wrap) (auto simp: w)
        let ?rest = "readable s (fpos + ?w) (unat count - unat (br + ?w))"
        have split: "readable s fpos (unat count - unat br) = n + ?rest"
          using n br' fpos' by (simp add: readable_def)
        have "unat count - unat (br + ?w) < unat count - unat br" "br + ?w \<le> count"
          using 2(1) n(1) br' lt by (auto simp: word_le_nat_alt)
        from less.hyps [OF this(1) 2(3) this(2), of "store_user (buf + br) (take n (drop (unat fpos) (dev_content s))) m"]
        obtain r f m2 where r: "read_loop k s buf count pos' (br + ?w) (fpos + ?w)
            (store_user (buf + br) (take n (drop (unat fpos) (dev_content s))) m) = Some (r, f, m2)"
          and post: "r = Inr (br + ?w + word_of_nat ?rest) \<and> f = fpos + ?w + word_of_nat ?rest \<and>
              m2 = store_user (buf + (br + ?w)) (take ?rest (drop (unat (fpos + ?w)) (dev_content s)))
                 (store_user (buf + br) (take n (drop (unat fpos) (dev_content s))) m) \<or>
            r = Inl (- EFAULT) \<and> copy_faults k \<and> (\<exists>j \<le> ?rest. f = fpos + ?w + word_of_nat j)"
          by (auto simp: Let_def)
        have faulted: "\<exists>i \<le> n + ?rest. f = fpos + word_of_nat i"
          if "\<exists>j \<le> ?rest. f = fpos + ?w + word_of_nat j"
          using that by (metis add.assoc add_left_mono of_nat_add)
        have "take (n + ?rest) (drop (unat fpos) (dev_content s)) =
            take n (drop (unat fpos) (dev_content s)) @
            take ?rest (drop (unat (fpos + ?w)) (dev_content s))"
          by (simp add: take_add fpos' add.commute)
        then have mem2: "store_user (buf + br) (take (n + ?rest) (drop (unat fpos) (dev_content s))) m =
            store_user (buf + (br + ?w)) (take ?rest (drop (unat (fpos + ?w)) (dev_content s)))
                 (store_user (buf + br) (take n (drop (unat fpos) (dev_content s))) m)"
          using n(2) by (simp add: store_user_append min_absorb2 add.assoc)
        show ?thesis
          using Some 2(4) r post mem2 faulted unfolding split by (auto simp: Let_def add.assoc)
      qed
    qed
  qed
qed


text \<open>What a call of \<open>aesd_read\<close> has done: result, new offset and user memory.\<close>

definition read_post ::
  "kernel \<Rightarrow> u64 \<Rightarrow> u64 \<Rightarrow> s64 \<Rightarrow> umem \<Rightarrow> aesd_state \<Rightarrow> s64 \<Rightarrow> s64 \<Rightarrow> umem \<Rightarrow> bool" where
  "read_post k buf count fpos m s r fpos' m' \<longleftrightarrow>
     (if k_mutex_lock_interruptible k \<noteq> 0 then r = - ERESTARTSYS \<and> fpos' = fpos \<and> m' = m
      else
        (let n = readable s fpos (unat count)
         in r = word_of_nat n \<and> fpos' = fpos + word_of_nat n \<and>
            m' = store_user buf (take n (drop (unat fpos) (dev_content s))) m) \<or>
        r = - EFAULT \<and> copy_faults k \<and>
          (\<exists>j \<le> readable s fpos (unat count). fpos' = fpos + word_of_nat j))"

lemma read_total:
  assumes ok: "kernel_ok k" and inv: "drv_inv s"
  shows "\<exists>r fpos' m'. aesd_read k buf count fpos m s = Some (r, fpos', m', s) \<and>
    read_post k buf count fpos m s r fpos' m'"
proof -
  have mem: "drv_mem {} s" and free: "\<not> mtx (aesd_device s)"
    using inv by (auto simp: drv_inv_def)
  show ?thesis
  proof (cases "k_mutex_lock_interruptible k = 0")
    case False
    then show ?thesis
      using free by (simp add: aesd_read_def mutex_lock_interruptible_def read_post_def)
  next
    case True
    let ?s1 = "set_mtx True s"
    have s1: "drv_mem {} ?s1" "dev_content ?s1 = dev_content s"
      using mem by (simp_all add: dev_content_def dev_cmds_def)
    obtain pos where pos: "aesd_circular_buffer_find_entry_offset_for_fpos (circular_buf s) fpos = Some pos"
      using find_in_dev [OF mem, of fpos] by blast
    obtain r f m' where r: "read_loop k ?s1 buf count pos 0 fpos m = Some (r, f, m')"
      and post: "r = Inr (word_of_nat (readable s fpos (unat count))) \<and>
          f = fpos + word_of_nat (readable s fpos (unat count)) \<and>
          m' = store_user buf (take (readable s fpos (unat count)) (drop (unat fpos) (dev_content s))) m \<or>
        r = Inl (- EFAULT) \<and> copy_faults k \<and>
          (\<exists>j \<le> readable s fpos (unat count). f = fpos + word_of_nat j)"
      using read_loop_delivers [OF ok s1(1), of fpos pos 0 count buf m] pos
      by (auto simp: Let_def readable_def s1(2))
    show ?thesis
    proof (cases "pos = None")
      case pNone: True
      then have "r = Inr 0" "f = fpos" "m' = m"
        using r by (simp_all add: read_loop.simps)
      then show ?thesis
        using True free pos pNone post
        by (auto simp: aesd_read_def mutex_lock_interruptible_def read_post_def Let_def)
    next
      case False
      then show ?thesis
        using True free pos post r
        by (auto simp: aesd_read_def mutex_lock_interruptible_def read_post_def Let_def)
    qed
  qed
qed

section \<open>llseek\<close>

text \<open>
  The target of a seek over integers: \<open>SEEK_SET\<close> and \<open>SEEK_CUR\<close> must land on a stored byte,
  \<open>SEEK_END\<close> may also land on the end.
\<close>

definition seek_target :: "nat \<Rightarrow> int \<Rightarrow> int \<Rightarrow> u32 \<Rightarrow> int option" where
  "seek_target n cur off whence =
     (if whence = SEEK_SET then (if 0 \<le> off \<and> off < int n then Some off else None)
      else if whence = SEEK_CUR then (if 0 \<le> cur + off \<and> cur + off < int n then Some (cur + off) else None)
      else if whence = SEEK_END then (if off \<le> 0 \<and> 0 \<le> int n + off then Some (int n + off) else None)
      else None)"

lemma size_of_content:
  assumes mem: "drv_mem X s"
  shows "aesd_circular_buffer_size (circular_buf s) = Some (word_of_nat (length (dev_content s)))"
    "unat (word_of_nat (length (dev_content s)) :: u64) = length (dev_content s)"
proof -
  have sum: "sum_list (ring_sizes (circular_buf s)) = length (dev_content s)"
    by (simp add: ring_sizes_cmds [OF mem] dev_content_def length_concat)
  then obtain n where "aesd_circular_buffer_size (circular_buf s) = Some n" "unat n = length (dev_content s)"
    using size_total [OF drv_memD(1) [OF mem]] content_bound [OF mem] by fastforce
  moreover show small: "unat (word_of_nat (length (dev_content s)) :: u64) = length (dev_content s)"
    using content_bound [OF mem] by (intro unat_of_nat_small) simp
  ultimately show "aesd_circular_buffer_size (circular_buf s) = Some (word_of_nat (length (dev_content s)))"
    by (metis word_unat_eq_iff)
qed


lemma seek_arith:
  fixes off f n :: u64
  assumes n: "unat n \<le> 10 * 2 ^ 28" and f: "0 \<le> sint f"
  shows "\<not> (sint off < 0 \<or> n \<le> off) \<longleftrightarrow> 0 \<le> sint off \<and> sint off < int (unat n)"
    "\<not> (sint (f + off) < 0 \<or> n \<le> f + off) \<longleftrightarrow>
       0 \<le> sint f + sint off \<and> sint f + sint off < int (unat n)"
    "\<not> (n + off < 0 \<or> n < n + off) \<longleftrightarrow> sint off \<le> 0 \<and> 0 \<le> int (unat n) + sint off"
    "0 \<le> sint f + sint off \<Longrightarrow> sint f + sint off < int (unat n) \<Longrightarrow> sint (f + off) = sint f + sint off"
    "sint off \<le> 0 \<Longrightarrow> 0 \<le> int (unat n) + sint off \<Longrightarrow> sint (n + off) = int (unat n) + sint off"
  using n f unat_lt_u64 [of f] unat_lt_u64 [of off] unat_lt_u64 [of "f + off"] unat_lt_u64 [of "n + off"]
  unfolding sint_u64 unat_add_u64 word_le_nat_alt word_less_nat_alt
  by (simp_all del: of_nat_unat split: if_splits) linarith+

text \<open>The call reaches the target if there is one and otherwise leaves the file alone.\<close>

lemma seek_total:
  assumes inv: "drv_inv s" and f: "0 \<le> sint (f_pos filp)"
  shows "aesd_seek filp off whence s = Some
    (case seek_target (length (dev_content s)) (sint (f_pos filp)) (sint off) whence of
       None \<Rightarrow> (- EINVAL, filp)
     | Some p \<Rightarrow> (word_of_int p, filp\<lparr>f_pos := word_of_int p\<rparr>))"
proof -
  have mem: "drv_mem {} s"
    using inv by (simp add: drv_inv_def)
  note size = size_of_content [OF mem]
  define n :: u64 where "n = word_of_nat (length (dev_content s))"
  have n: "unat n = length (dev_content s)" "aesd_circular_buffer_size (circular_buf s) = Some n"
    using size by (auto simp: n_def)
  have n40: "unat n \<le> 10 * 2 ^ 28"
    using content_bound [OF mem] n(1) by simp
  note arith = seek_arith [OF n40 f, of off, unfolded n(1)]
  have again: "word_of_int (sint w) = w" for w :: u64
    by simp
  consider "whence = SEEK_SET" | "whence = SEEK_CUR" | "whence = SEEK_END"
    | "whence \<notin> {SEEK_SET, SEEK_CUR, SEEK_END}"
    by auto
  then show ?thesis
  proof cases
    case 1
    then show ?thesis
      using arith(1) by (auto simp: aesd_seek_def n(2) seek_target_def)
  next
    case 2
    then show ?thesis
      using arith(2,4) by (auto simp: aesd_seek_def n(2) seek_target_def whence_defs simp flip: again)
  next
    case 3
    then show ?thesis
      using arith(3,5) n_def by (auto simp: aesd_seek_def n(2) seek_target_def whence_defs simp flip: again)
  next
    case 4
    then show ?thesis
      by (simp add: aesd_seek_def n(2) seek_target_def)
  qed
qed


section \<open>ioctl\<close>

text \<open>The commands in the order of the slots of the array, and the target of a seek among them.\<close>

definition dev_raw :: "aesd_state \<Rightarrow> byte list list" where
  "dev_raw s = map (\<lambda>e. block_of (buffptr e) (kheap s)) (raw_list (circular_buf s))"

definition ioctl_target :: "byte list list \<Rightarrow> nat \<Rightarrow> nat \<Rightarrow> nat option" where
  "ioctl_target cmds c off =
     (if c < length cmds \<and> off \<le> length (cmds ! c)
      then Some (sum_list (map length (take c cmds)) + off) else None)"

lemma dev_cmds_rotate:
  "drv_mem X s \<Longrightarrow> dev_cmds s = rotate (unat (out_offs (circular_buf s))) (dev_raw s)"
  by (simp add: dev_cmds_def dev_raw_def ring_list_rotate drv_memD(1) rotate_map)

lemma dev_raw_unwrapped:
  "drv_mem X s \<Longrightarrow> out_offs (circular_buf s) = 0 \<Longrightarrow> dev_raw s = dev_cmds s"
  by (simp add: dev_cmds_rotate)

lemma length_dev_raw: "drv_mem X s \<Longrightarrow> length (dev_raw s) = ring_count (circular_buf s)"
  by (simp add: dev_raw_def length_raw_list drv_memD(1))

lemma raw_backed:
  assumes mem: "drv_mem X s" and e: "e \<in> set (raw_list (circular_buf s))"
  shows "length (block_of (buffptr e) (kheap s)) = unat (esize e)" "unat (esize e) \<le> max_entry"
proof -
  have "e \<in> set (ring_list (circular_buf s))"
    using e by (simp add: ring_list_rotate [OF drv_memD(1) [OF mem]])
  then have "entry_backed (kheap s) e"
    by (rule drv_memD(6) [OF mem])
  then show "length (block_of (buffptr e) (kheap s)) = unat (esize e)" "unat (esize e) \<le> max_entry"
    by (auto simp: entry_backed_length entry_backed_def)
qed

lemma raw_sizes:
  "drv_mem X s \<Longrightarrow> map (\<lambda>e. unat (esize e)) (raw_list (circular_buf s)) = map length (dev_raw s)"
  by (simp add: dev_raw_def raw_backed)

lemma raw_sum_bound:
  assumes mem: "drv_mem X s"
  shows "sum_list (map length (take n (dev_raw s))) \<le> 10 * 2 ^ 28"
proof -
  have "sum_list (map length (take n (dev_raw s))) \<le> sum_list (map length (dev_raw s))"
    by (metis sum_take_le take_map)
  also have "\<dots> = sum_list (map length (dev_cmds s))"
    by (simp add: dev_cmds_rotate [OF mem] sum_list_rotate flip: rotate_map)
  finally show ?thesis
    using content_bound [OF mem] by (simp add: dev_content_def length_concat)
qed

lemma seek_in_dev:
  assumes mem: "drv_mem X s" and c: "unat c < 10"
  shows "aesd_circular_buffer_seek (circular_buf s) c =
    Some (word_of_nat (sum_list (map length (take (unat c) (dev_raw s)))))"
proof -
  have inv: "length (entry (circular_buf s)) = 10"
    using drv_memD(1) [OF mem] by (simp add: ring_inv_def)
  let ?ws = "map esize (take (unat c) (raw_list (circular_buf s)))"
  have nat: "sum_list (map unat ?ws) = sum_list (map length (take (unat c) (dev_raw s)))"
    using raw_sizes [OF mem] by (simp add: comp_def flip: take_map)
  then have "unat (sum_list ?ws) = sum_list (map length (take (unat c) (dev_raw s)))"
    using raw_sum_bound [OF mem, of "unat c"] by (subst unat_sum_list) simp_all
  then have "sum_list ?ws = word_of_nat (sum_list (map length (take (unat c) (dev_raw s))))"
    by (metis word_of_nat_unat_u64)
  then show ?thesis
    using seek_raw [OF inv c] by simp
qed

lemma unat_ucast_u32 [simp]: "unat (ucast (w :: u32) :: u64) = unat w"
proof -
  have "unat w < 2 ^ LENGTH(32)"
    by (rule unsigned_less)
  then show ?thesis
    by (simp add: unsigned_ucast_eq take_bit_nat_eq_self)
qed

lemma ioctl_total:
  fixes arg :: u64 and m :: umem
  assumes ok: "kernel_ok k" and inv: "drv_inv s"
  defines "sk \<equiv> seekto_of_bytes (load_user arg 8 m)"
  shows "aesd_unlocked_ioctl k filep cmd arg m s = Some
    (if cmd \<noteq> AESDCHAR_IOCSEEKTO then (- EINVAL, filep)
     else if fst (k_copy_from_user k arg 8 m) \<noteq> 0 then (- EFAULT, filep)
     else case ioctl_target (dev_raw s) (unat (write_cmd sk)) (unat (write_cmd_offset sk)) of
       None \<Rightarrow> (- EINVAL, filep)
     | Some p \<Rightarrow> (word_of_nat p, filep\<lparr>f_pos := word_of_nat p\<rparr>))"
proof -
  have mem: "drv_mem {} s"
    using inv by (simp add: drv_inv_def)
  let ?cb = "circular_buf s" and ?c = "unat (write_cmd sk)"
  let ?n = "ring_count ?cb"
  note rinv = drv_memD(1) [OF mem]
  have n: "unat (word_of_nat ?n :: u64) = ?n" "?n \<le> 10"
    using ring_count_le [of ?cb] by (auto simp: unat_of_nat_small)
  have len: "length (entry ?cb) = 10"
    using rinv by (simp add: ring_inv_def)
  have slot: "esize (entry ?cb ! ?c) < ucast (write_cmd_offset sk) \<longleftrightarrow>
      \<not> unat (write_cmd_offset sk) \<le> length (dev_raw s ! ?c)" if c: "?c < ?n"
  proof -
    have raw: "?c < length (raw_list ?cb)"
      using c by (simp add: length_raw_list [OF rinv])
    then have "raw_list ?cb ! ?c = entry ?cb ! ?c"
      by (simp add: raw_list_def takeWhile_nth)
    then have "length (dev_raw s ! ?c) = unat (esize (entry ?cb ! ?c))"
      using raw raw_backed(1) [OF mem, of "entry ?cb ! ?c"] nth_mem [OF raw]
      by (simp add: dev_raw_def)
    then show ?thesis
      by (simp add: word_less_nat_alt not_le)
  qed
  obtain rc bs where cp: "k_copy_from_user k arg 8 m = (rc, bs)"
    by (cases "k_copy_from_user k arg 8 m")
  have bs: "rc = 0 \<longrightarrow> bs = load_user arg (unat (8 :: u64)) m"
    using kernel_okD(3) [OF ok] cp unfolding copy_ok_def by (metis fst_conv snd_conv)
  show ?thesis
  proof (cases "cmd = AESDCHAR_IOCSEEKTO \<and> rc = 0")
    case False
    then show ?thesis
      using cp by (auto simp: aesd_unlocked_ioctl_def count_total [OF rinv])
  next
    case True
    then have sk: "seekto_of_bytes bs = sk"
      using bs by (simp add: sk_def)
    show ?thesis
    proof (cases "?c < ?n")
      case False
      then have "ioctl_target (dev_raw s) ?c (unat (write_cmd_offset sk)) = None"
        by (simp add: ioctl_target_def length_dev_raw [OF mem])
      moreover have "word_of_nat ?n \<le> (ucast (write_cmd sk) :: u64)"
        using False n by (simp add: word_le_nat_alt)
      ultimately show ?thesis
        using True cp by (simp add: aesd_unlocked_ioctl_def count_total [OF rinv] sk)
    next
      case c: True
      then have "\<not> word_of_nat ?n \<le> (ucast (write_cmd sk) :: u64)" "\<not> 10 \<le> ?c"
        using n by (simp_all add: word_le_nat_alt)
      then show ?thesis
        using True cp c slot [OF c] len seek_in_dev [OF mem, of "write_cmd sk"]
        by (simp add: aesd_unlocked_ioctl_def count_total [OF rinv] sk ioctl_target_def
              length_dev_raw [OF mem] Let_def)
    qed
  qed
qed

end
