(* ===== verification/DriverLifecycle.thy ===== *)
theory DriverLifecycle
  imports DriverRead
begin

text \<open>
  The life of the module: loading and unloading, the system calls of user programs in between as
  a step relation with its reachable states, and the two ends of a write that succeeds: that it
  does succeed where memory lasts, and what a sequence of writes leaves in the device.
\<close>

section \<open>Loading\<close>

text \<open>The static data of the module before \<open>aesd_init_module\<close> runs.\<close>

definition aesd_static :: aesd_state where
  "aesd_static =
     \<lparr>aesd_major = 0, aesd_device = \<lparr>mtx = False, cdev = None\<rparr>,
      circular_buf = aesd_circular_buffer_init,
      g_buff = NULL, g_len = 0, kheap = Map.empty, chrdev_region = None\<rparr>"

text \<open>
  \<open>alloc_chrdev_region\<close> is asked for minor 0 and, when it succeeds, returns a device number with
  that minor.
\<close>

definition region_ok :: "kernel \<Rightarrow> bool" where
  "region_ok k \<longleftrightarrow>
     (0 \<le> fst (k_alloc_chrdev_region k) \<longrightarrow> take_bit 20 (snd (k_alloc_chrdev_region k)) = 0)"

lemma demo_region_ok: "region_ok demo_kernel"
  by (simp add: region_ok_def demo_kernel_def)

lemma MKDEV_MAJOR: "take_bit 20 dev = 0 \<Longrightarrow> MKDEV (MAJOR dev) aesd_minor = dev"
proof -
  assume "take_bit 20 dev = 0"
  then have "\<forall>n < 20. \<not> bit dev n"
    by (metis bit_0_eq bit_take_bit_iff bot_apply bot_bool_def)
  then have "push_bit 20 (drop_bit 20 dev) = dev"
    by (intro bit_eqI) (metis bit_push_bit_iff bit_drop_bit_eq comp_apply le_add_diff_inverse not_less
        possible_bit_word)
  then show ?thesis
    by (simp add: MKDEV_def MAJOR_def aesd_minor_def)
qed

lemma init_ring_mem:
  "circular_buf s = aesd_circular_buffer_init \<Longrightarrow> g_buff s = NULL \<Longrightarrow> g_len s = 0 \<Longrightarrow>
   kheap s = Map.empty \<Longrightarrow> drv_mem {} s \<and> dev_abs s = ([], [])"
  by (simp add: drv_mem_def drv_abs_defs owned_def entry_addrs_def init_inv pending_backed_def)

definition module_live :: "aesd_state \<Rightarrow> bool" where
  "module_live s \<longleftrightarrow> chrdev_region s = Some (MKDEV (aesd_major s) aesd_minor) \<and>
     cdev (aesd_device s) = Some (MKDEV (aesd_major s) aesd_minor)"

text \<open>Loading gives a live, empty device, or an error with nothing left registered.\<close>

lemma init_module_spec:
  assumes reg: "region_ok k" and call: "aesd_init_module k aesd_static = (rc, s)"
    and cdev: "k_cdev_add k \<le> 0"
  shows "if rc = 0 then drv_inv s \<and> dev_abs s = ([], []) \<and> module_live s
         else rc < 0 \<and> chrdev_region s = None \<and> cdev (aesd_device s) = None \<and> kheap s = Map.empty"
proof -
  obtain res dev where alloc: "k_alloc_chrdev_region k = (res, dev)"
    by (cases "k_alloc_chrdev_region k")
  show ?thesis
  proof (cases "res < 0")
    case True
    then show ?thesis
      using call alloc by (auto simp: aesd_init_module_def aesd_static_def)
  next
    case False
    then have "MKDEV (MAJOR dev) aesd_minor = dev"
      using reg alloc by (intro MKDEV_MAJOR) (simp add: region_ok_def)
    then show ?thesis
      using False call alloc cdev init_ring_mem [of s]
      by (auto simp: aesd_init_module_def aesd_setup_cdev_def aesd_static_def Let_def
               drv_inv_def module_live_def)
  qed
qed

section \<open>Unloading\<close>

text \<open>The blocks that a list of slots points to.\<close>

definition slot_addrs :: "aesd_buffer_entry list \<Rightarrow> addr list" where
  "slot_addrs es = List.map_filter buffptr es"

lemma slot_addrs_simps [simp]:
  "slot_addrs [] = []"
  "slot_addrs (e # es) = (case buffptr e of None \<Rightarrow> slot_addrs es | Some a \<Rightarrow> a # slot_addrs es)"
  by (simp_all add: slot_addrs_def List.map_filter_simps split: option.splits)

lemma slot_addrs_append: "slot_addrs (xs @ ys) = slot_addrs xs @ slot_addrs ys"
  by (induction xs) (simp_all split: option.splits)

lemma slot_addrs_live: "\<forall>e \<in> set es. live e \<Longrightarrow> slot_addrs es = map (\<lambda>e. the (buffptr e)) es"
  by (induction es) (auto simp: live_def)

lemma slot_addrs_NULL: "\<forall>e \<in> set es. buffptr e = NULL \<Longrightarrow> slot_addrs es = []"
  by (induction es) auto

lemma slot_addrs_ring:
  assumes inv: "ring_inv b"
  shows "slot_addrs (entry b) = map (\<lambda>e. the (buffptr e)) (raw_list b)"
proof -
  have inv_len: "length (entry b) = 10" "unat (in_offs b) < 10"
    using inv by (auto simp: ring_inv_def)
  let ?raw = "raw_list b" and ?rest = "dropWhile (\<lambda>e. buffptr e \<noteq> NULL) (entry b)"
  have raw_live: "\<forall>e \<in> set ?raw. live e"
    using ring_list_live [OF inv] by (simp add: ring_list_rotate [OF inv])
  have rest_NULL: "\<forall>e \<in> set ?rest. buffptr e = NULL"
  proof (cases "full b")
    case True
    then have "\<forall>e \<in> set (entry b). buffptr e \<noteq> NULL"
      using inv by (simp add: ring_inv_def live_def)
    then have "?rest = []"
      by (simp only: dropWhile_eq_Nil_conv)
    then show ?thesis by (simp only: list.set ball_empty)
  next
    case False
    let ?i = "unat (in_offs b)"
    have raw: "?raw = take ?i (entry b)"
      using raw_list_eq [OF inv] False by simp
    then have "length ?raw = ?i"
      using inv_len by simp
    then have "?rest = drop ?i (entry b)"
      unfolding dropWhile_eq_drop raw_list_def by (simp only:)
    moreover have "buffptr (entry b ! j) = NULL" if "?i \<le> j" "j < 10" for j
      using inv False that by (auto simp: ring_inv_def)
    ultimately show ?thesis
      using inv by (auto simp: ring_inv_def in_set_conv_nth)
  qed
  have "slot_addrs (entry b) = slot_addrs ?raw @ slot_addrs ?rest"
    unfolding slot_addrs_append [symmetric] raw_list_def by (simp only: takeWhile_dropWhile_id)
  then show ?thesis
    unfolding slot_addrs_live [OF raw_live] slot_addrs_NULL [OF rest_NULL] by simp
qed

lemma slot_addrs_entry_addrs:
  assumes inv: "ring_inv b"
  shows "set (slot_addrs (entry b)) = set (entry_addrs b)"
    "distinct (slot_addrs (entry b)) = distinct (entry_addrs b)"
  by (simp_all add: slot_addrs_ring [OF inv] entry_addrs_def ring_list_rotate [OF inv] rotate_map [symmetric])

text \<open>The loop frees every block of the remaining slots, each once, and nothing else.\<close>

lemma cleanup_loop_frees:
  assumes ok: "kernel_ok k"
  shows "length (entry (circular_buf s)) = 10 \<Longrightarrow>
    distinct (slot_addrs (drop i (entry (circular_buf s)))) \<Longrightarrow>
    set (slot_addrs (drop i (entry (circular_buf s)))) \<subseteq> dom (kheap s) \<Longrightarrow>
    \<exists>s'. cleanup_loop k i s = Some s' \<and>
      kheap s' = (kheap s) |` (- set (slot_addrs (drop i (entry (circular_buf s))))) \<and>
      g_buff s' = g_buff s \<and> same_dev s s'"
proof (induction "10 - i" arbitrary: i s)
  case 0
  then show ?case
    by (subst cleanup_loop.simps) (simp add: restrict_map_def)
next
  case (Suc d)
  let ?es = "entry (circular_buf s)"
  have i: "i < 10" "i < length ?es" "d = 10 - Suc i"
    using Suc.hyps(2) Suc.prems(1) by auto
  have cut: "drop i ?es = ?es ! i # drop (Suc i) ?es"
    using i(2) by (simp add: Cons_nth_drop_Suc)
  show ?case
  proof (cases "buffptr (?es ! i)")
    case None
    then show ?thesis
      using Suc.hyps(1) [OF i(3), of s] Suc.prems i(1,2) cut by (subst cleanup_loop.simps) simp
  next
    case (Some a)
    let ?s1 = "s\<lparr>kheap := (kheap s)(a := None), circular_buf := (circular_buf s)
                 \<lparr>entry := ?es[i := (?es ! i)\<lparr>buffptr := NULL\<rparr>]\<rparr>\<rparr>"
    obtain blk where blk: "kheap s a = Some blk"
      using Suc.prems(3) Some cut by auto
    have rest: "drop (Suc i) (entry (circular_buf ?s1)) = drop (Suc i) ?es"
      by simp
    have a: "a \<notin> set (slot_addrs (drop (Suc i) ?es))"
      using Suc.prems(2) Some cut by simp
    have "cleanup_loop k i s = cleanup_loop k (Suc i) ?s1"
      using i Some blk by (subst cleanup_loop.simps) (simp add: kfree_allocated [OF ok])
    moreover have "\<exists>s'. cleanup_loop k (Suc i) ?s1 = Some s' \<and>
        kheap s' = (kheap ?s1) |` (- set (slot_addrs (drop (Suc i) ?es))) \<and>
        g_buff s' = g_buff ?s1 \<and> same_dev ?s1 s'"
      using Suc.hyps(1) [OF i(3), of ?s1] Suc.prems Some cut a unfolding rest by auto
    moreover have "(kheap ?s1) |` (- set (slot_addrs (drop (Suc i) ?es))) =
        (kheap s) |` (- set (slot_addrs (drop i ?es)))"
      using Some cut by (auto simp: restrict_map_def fun_eq_iff)
    ultimately show ?thesis
      by (auto simp: same_dev_def)
  qed
qed

text \<open>Unloading gives back all memory and the region that loading registered.\<close>

lemma cleanup_module_spec:
  assumes ok: "kernel_ok k" and inv: "drv_inv s" and live: "module_live s"
  shows "\<exists>s'. aesd_cleanup_module k s = Some s' \<and> kheap s' = Map.empty \<and>
    chrdev_region s' = None \<and> cdev (aesd_device s') = None"
proof -
  have mem: "drv_mem {} s"
    using inv by (simp add: drv_inv_def)
  note m = drv_memD [OF mem]
  let ?s1 = "s\<lparr>aesd_device := (aesd_device s)\<lparr>cdev := None\<rparr>\<rparr>"
  let ?es = "set (entry_addrs (circular_buf s))"
  have addrs: "set (slot_addrs (entry (circular_buf s))) = ?es" "distinct (slot_addrs (entry (circular_buf s)))"
    using slot_addrs_entry_addrs [OF m(1)] m(2) by (auto simp: owned_def)
  have dom: "dom (kheap s) = ?es \<union> set_option (g_buff s)" "?es \<inter> set_option (g_buff s) = {}"
    using m(2,4) by (auto simp: owned_def split: option.splits)
  have "length (entry (circular_buf s)) = 10"
    using m(1) by (simp add: ring_inv_def)
  then obtain s2 where s2: "cleanup_loop k 0 ?s1 = Some s2" "kheap s2 = kheap s |` (- ?es)"
      "g_buff s2 = g_buff s" "same_dev ?s1 s2"
    using cleanup_loop_frees [OF ok, of ?s1 0] addrs dom by auto
  have region: "chrdev_region s2 = Some (MKDEV (aesd_major s) aesd_minor)"
    "aesd_major s2 = aesd_major s" "cdev (aesd_device s2) = None"
    using s2(4) live by (auto simp: same_dev_def module_live_def)
  have dom2: "dom (kheap s2) = set_option (g_buff s)"
    using dom s2(2) by auto
  show ?thesis
  proof (cases "g_buff s")
    case None
    then have "kheap s2 = Map.empty"
      using dom2 by auto
    then show ?thesis
      using None s2 region by (simp add: aesd_cleanup_module_def)
  next
    case (Some a)
    then obtain blk where "kheap s2 a = Some blk"
      using dom2 by auto
    moreover have "(kheap s2)(a := None) = Map.empty"
      using dom2 Some by (auto simp: fun_eq_iff domIff set_eq_iff)
    ultimately show ?thesis
      using Some s2 region by (simp add: aesd_cleanup_module_def kfree_allocated [OF ok])
  qed
qed


section \<open>Writes succeed while memory lasts\<close>

text \<open>
  A kernel with room for 16 blocks: an allocation that is not above the size limit fails only when
  the module already has 16 blocks or more.
\<close>

definition roomy :: "kernel \<Rightarrow> bool" where
  "roomy k \<longleftrightarrow>
     (\<forall>n h. finite (dom h) \<longrightarrow> card (dom h) < 16 \<longrightarrow> unat n \<le> k_kmalloc_max k \<longrightarrow>
        fst (k_kmalloc k n h) \<noteq> NULL \<and> (\<forall>p. fst (k_krealloc k p n h) \<noteq> NULL))"

lemma drv_mem_card:
  assumes mem: "drv_mem X s" and X: "finite X"
  shows "finite (dom (kheap s))" "card (dom (kheap s)) \<le> 11 + card X"
proof -
  have dom: "dom (kheap s) = set (owned s) \<union> X"
    by (rule drv_memD(4) [OF mem])
  then show "finite (dom (kheap s))"
    using X by simp
  have "length (owned s) \<le> 11"
    using ring_count_le [of "circular_buf s"]
    by (simp add: owned_def entry_addrs_def split: option.splits)
  then have "card (set (owned s)) \<le> 11"
    using card_length [of "owned s"] by linarith
  then show "card (dom (kheap s)) \<le> 11 + card X"
    unfolding dom using card_Un_le [of "set (owned s)" X] by linarith
qed

lemma pending_bound: "length (snd (spec_write d bs)) \<le> length (snd d) + length bs"
proof (induction bs rule: rev_induct)
  case (snoc c bs)
  then show ?case
    by (cases "spec_write d bs") (auto simp: spec_write_snoc)
qed simp

lemma starved_impossible:
  assumes room: "roomy k" and inv: "drv_inv s"
    and len: "length (dev_pending s) + length bs \<le> k_kmalloc_max k" and max: "k_kmalloc_max k \<le> 2 ^ 28"
  shows "\<not> write_starved k bs s"
proof -
  have mem: "drv_mem {} s"
    using inv by (simp add: drv_inv_def)
  have small: "unat (word_of_nat (length bs) :: u64) \<le> k_kmalloc_max k"
    using len max by (subst unat_of_nat_small) auto
  have "fst (k_kmalloc k (word_of_nat (length bs)) (kheap s)) \<noteq> NULL"
    using room drv_mem_card [OF mem] small unfolding roomy_def by fastforce
  moreover have False if n: "n < length bs" and failed: "realloc_failed k {w} t"
    and abs: "dev_abs t = spec_write (dev_abs s) (take n bs)" for n w t
  proof -
    have t: "drv_mem {w} t" "krealloc k (g_buff t) (g_len t + 1) (kheap t) = Some (NULL, kheap t)"
      using failed by (auto simp: realloc_failed_def)
    have "unat (g_len t) = length (snd (dev_abs t))"
      using pending_length [OF drv_memD(5) [OF t(1)]] by (simp add: dev_abs_def)
    also have "\<dots> < length (dev_pending s) + length bs"
      using pending_bound [of "dev_abs s" "take n bs"] n unfolding abs by (simp add: dev_abs_def)
    finally have g: "unat (g_len t) < k_kmalloc_max k"
      using len by simp
    then have "unat (g_len t + 1) \<le> k_kmalloc_max k"
      using max by (subst unat_plus_no_wrap) auto
    then have "fst (k_krealloc k (g_buff t) (g_len t + 1) (kheap t)) \<noteq> NULL"
      using room drv_mem_card [OF t(1)] unfolding roomy_def by fastforce
    then show False
      using t(2) by (auto simp: krealloc_def split: option.splits if_splits)
  qed
  ultimately show ?thesis
    unfolding write_starved_def by fastforce
qed

lemma write_succeeds:
  assumes ok: "kernel_ok k" and room: "roomy k" and inv: "drv_inv s"
    and len: "length (dev_pending s) + unat count \<le> k_kmalloc_max k"
    and calls: "k_mutex_lock_interruptible k = 0" "fst (k_copy_from_user k buf count m) = 0"
  shows "\<exists>s'. aesd_write k buf count m s = Some (count, s') \<and> drv_inv s' \<and> same_dev s s' \<and>
    dev_abs s' = spec_write (dev_abs s) (load_user buf (unat count) m)"
proof -
  let ?bs = "load_user buf (unat count) m"
  obtain r s' where w: "aesd_write k buf count m s = Some (r, s')" "drv_inv s'" "same_dev s s'"
    "write_post k ?bs s r s'" "r = - ENOMEM \<longrightarrow> write_starved k ?bs s"
    "r \<noteq> - EFAULT" "r \<noteq> - ERESTARTSYS"
    using write_total [OF ok inv, of buf count m] calls by metis
  have "r \<noteq> - ENOMEM"
    using w(5) starved_impossible [OF room inv _ kernel_okD(5) [OF ok], of ?bs] len by auto
  then show ?thesis
    using w by (auto simp: write_post_def)
qed

lemma demo_pick_free: "finite (dom h) \<Longrightarrow> card (dom h) < 16 \<Longrightarrow> demo_pick h \<noteq> None"
proof
  assume h: "finite (dom h)" "card (dom h) < 16" and none: "demo_pick h = None"
  have "{1..<64} \<subseteq> dom h"
    using none by (auto simp: demo_pick_def find_None_iff)
  then have "card {1..<64::nat} \<le> card (dom h)"
    using h(1) by (intro card_mono)
  then show False
    using h(2) by simp
qed

lemma demo_roomy: "roomy demo_kernel"
proof -
  have "fst (demo_kmalloc n h) \<noteq> NULL" if "finite (dom h)" "card (dom h) < 16" "unat n \<le> 4194304" for n h
    using demo_pick_free [OF that(1,2)] that(3) by (auto simp: demo_kmalloc_def split: option.splits)
  then show ?thesis
    by (auto simp: roomy_def demo_kernel_def demo_krealloc_def split: option.splits)
qed

section \<open>A sequence of writes\<close>

text \<open>
  User programs write one buffer after the other; the results are collected. What is left is the
  stream cut at its newlines, however the writes were cut.
\<close>

fun write_all :: "kernel \<Rightarrow> (u64 \<times> u64 \<times> umem) list \<Rightarrow> aesd_state \<Rightarrow> (s64 list \<times> aesd_state) option" where
  "write_all k [] s = Some ([], s)"
| "write_all k ((buf, count, m) # ws) s = do {
     (r, s) \<leftarrow> aesd_write k buf count m s;
     (rs, s) \<leftarrow> write_all k ws s;
     Some (r # rs, s)
   }"

definition user_bytes :: "u64 \<times> u64 \<times> umem \<Rightarrow> byte list" where
  "user_bytes w = (case w of (buf, count, m) \<Rightarrow> load_user buf (unat count) m)"

definition write_calls_ok :: "kernel \<Rightarrow> (u64 \<times> u64 \<times> umem) list \<Rightarrow> bool" where
  "write_calls_ok k ws \<longleftrightarrow> k_mutex_lock_interruptible k = 0 \<and>
     (\<forall>(buf, count, m) \<in> set ws. fst (k_copy_from_user k buf count m) = 0)"

text \<open>Every buffer fits the allocator's limit together with the command it continues.\<close>

fun writes_fit :: "nat \<Rightarrow> device \<Rightarrow> byte list list \<Rightarrow> bool" where
  "writes_fit limit d [] \<longleftrightarrow> True"
| "writes_fit limit d (bs # bss) \<longleftrightarrow>
     length (snd d) + length bs \<le> limit \<and> writes_fit limit (spec_write d bs) bss"

lemma write_all_spec:
  assumes ok: "kernel_ok k" and room: "roomy k"
  shows "drv_inv s \<Longrightarrow> write_calls_ok k ws \<Longrightarrow>
    writes_fit (k_kmalloc_max k) (dev_abs s) (map user_bytes ws) \<Longrightarrow>
    \<exists>s'. write_all k ws s = Some (map (\<lambda>(buf, count, m). count) ws, s') \<and> drv_inv s' \<and>
      same_dev s s' \<and> dev_abs s' = spec_write (dev_abs s) (concat (map user_bytes ws))"
proof (induction ws arbitrary: s)
  case Nil
  then show ?case by simp
next
  case (Cons w ws)
  obtain buf count m where w: "w = (buf, count, m)"
    by (cases w)
  have "length (dev_pending s) + unat count \<le> k_kmalloc_max k"
    using Cons.prems(3) w by (simp add: user_bytes_def dev_abs_def)
  then obtain s1 where s1: "aesd_write k buf count m s = Some (count, s1)" "drv_inv s1" "same_dev s s1"
    "dev_abs s1 = spec_write (dev_abs s) (user_bytes w)"
    using write_succeeds [OF ok room Cons.prems(1)] Cons.prems(2) w
    by (fastforce simp: write_calls_ok_def user_bytes_def)
  then obtain s2 where s2: "write_all k ws s1 = Some (map (\<lambda>(buf, count, m). count) ws, s2)" "drv_inv s2"
    "same_dev s1 s2" "dev_abs s2 = spec_write (dev_abs s1) (concat (map user_bytes ws))"
    using Cons.IH [OF s1(2)] Cons.prems(2,3) by (auto simp: write_calls_ok_def)
  show ?case
    using w s1 s2 same_dev_trans by (auto simp: spec_write_append)
qed

section \<open>System calls in any order\<close>

text \<open>
  Any number of open files, system calls of different programs in any order (each call is one
  step: reads and writes run under the lock), every call under a kernel that may behave
  differently within its contract.
\<close>

record system =
  module :: aesd_state
  files :: "nat \<rightharpoonup> kfile"

inductive syscall :: "system \<Rightarrow> system \<Rightarrow> bool" where
  sys_open: "files S fd = None \<Longrightarrow> aesd_open \<lparr>f_pos = 0\<rparr> = (0, f) \<Longrightarrow>
    syscall S (S\<lparr>files := (files S)(fd \<mapsto> f)\<rparr>)"
| sys_release: "files S fd = Some f \<Longrightarrow> aesd_release f = (0, f') \<Longrightarrow>
    syscall S (S\<lparr>files := (files S)(fd := None)\<rparr>)"
| sys_read: "files S fd = Some f \<Longrightarrow> kernel_ok k \<Longrightarrow>
    aesd_read k buf count (f_pos f) m (module S) = Some (r, p, m', s') \<Longrightarrow>
    syscall S (S\<lparr>module := s', files := (files S)(fd \<mapsto> f\<lparr>f_pos := p\<rparr>)\<rparr>)"
| sys_write: "files S fd = Some f \<Longrightarrow> kernel_ok k \<Longrightarrow>
    aesd_write k buf count m (module S) = Some (r, s') \<Longrightarrow>
    syscall S (S\<lparr>module := s'\<rparr>)"
| sys_llseek: "files S fd = Some f \<Longrightarrow> aesd_seek f off whence (module S) = Some (r, f') \<Longrightarrow>
    syscall S (S\<lparr>files := (files S)(fd \<mapsto> f')\<rparr>)"
| sys_ioctl: "files S fd = Some f \<Longrightarrow> kernel_ok k \<Longrightarrow>
    aesd_unlocked_ioctl k f cmd arg m (module S) = Some (r, f') \<Longrightarrow>
    syscall S (S\<lparr>files := (files S)(fd \<mapsto> f')\<rparr>)"

inductive_cases syscallE: "syscall S S'"

text \<open>The states of a loaded module and its files.\<close>

inductive reachable :: "system \<Rightarrow> bool" where
  loaded: "region_ok k \<Longrightarrow> aesd_init_module k aesd_static = (0, s) \<Longrightarrow> k_cdev_add k \<le> 0 \<Longrightarrow>
    reachable \<lparr>module = s, files = Map.empty\<rparr>"
| step: "reachable S \<Longrightarrow> syscall S S' \<Longrightarrow> reachable S'"

definition file_ok :: "kfile \<Rightarrow> bool" where
  "file_ok f \<longleftrightarrow> unat (f_pos f) \<le> 2 ^ 62"

definition sys_inv :: "system \<Rightarrow> bool" where
  "sys_inv S \<longleftrightarrow> drv_inv (module S) \<and> module_live (module S) \<and> (\<forall>f \<in> ran (files S). file_ok f)"


lemma file_ok_signed: "file_ok f \<Longrightarrow> 0 \<le> sint (f_pos f)"
  by (simp add: file_ok_def sint_u64)

lemma advance_ok:
  assumes "drv_mem X s" "j \<le> readable s p n" "unat p \<le> 2 ^ 62"
  shows "unat (p + word_of_nat j) \<le> 2 ^ 62"
proof -
  have b: "length (dev_content s) \<le> 10 * 2 ^ 28"
    by (rule content_bound [OF assms(1)])
  then have "unat (word_of_nat j :: u64) = j" "j = 0 \<or> unat p + j \<le> length (dev_content s)"
    using assms(2) by (auto simp: readable_def unat_of_nat_small)
  then show ?thesis
    using b assms(3) by (cases "j = 0") (simp_all add: unat_add_u64)
qed

lemma read_pos_ok:
  assumes "kernel_ok k" "drv_inv s" "aesd_read k buf count p m s = Some (r, p', m', s')" "unat p \<le> 2 ^ 62"
  shows "s' = s" "unat p' \<le> 2 ^ 62"
proof -
  have post: "s' = s" "read_post k buf count p m s r p' m'"
    using read_total [OF assms(1,2), of buf count p m] assms(3) by auto
  then show "s' = s" by simp
  have "p' = p \<or> (\<exists>j \<le> readable s p (unat count). p' = p + word_of_nat j)"
    using post(2) by (auto simp: read_post_def Let_def split: if_splits)
  then show "unat p' \<le> 2 ^ 62"
    using advance_ok [of "{}" s _ p "unat count"] assms(2,4) by (auto simp: drv_inv_def)
qed

lemma write_keeps:
  assumes "kernel_ok k" "drv_inv s" "aesd_write k buf count m s = Some (r, s')"
  shows "drv_inv s'" "same_dev s s'"
  using write_total [OF assms(1,2), of buf count m] assms(3) by auto

lemma seek_pos_ok:
  assumes "drv_inv s" "file_ok f" "aesd_seek f off whence s = Some (r, f')"
  shows "file_ok f'"
proof -
  have b: "int (length (dev_content s)) \<le> 10 * 2 ^ 28"
    using content_bound [of "{}" s] assms(1) by (simp add: drv_inv_def)
  have "unat (word_of_int p :: u64) \<le> 2 ^ 62" if pos: "0 \<le> p" "p \<le> 10 * 2 ^ 28" for p :: int
  proof -
    obtain n where "p = int n"
      using zero_le_imp_eq_int [OF pos(1)] by blast
    then show ?thesis
      using pos(2) by (simp add: unat_of_nat_small)
  qed
  moreover have "0 \<le> p \<and> p \<le> 10 * 2 ^ 28"
    if "seek_target (length (dev_content s)) cur o1 whence = Some p" for cur o1 p
    using that b by (auto simp: seek_target_def split: if_splits)
  ultimately show ?thesis
    using assms seek_total [OF assms(1) file_ok_signed [OF assms(2)], of off whence]
    by (auto simp: file_ok_def split: option.splits)
qed


lemma ioctl_pos_ok:
  assumes "kernel_ok k" "drv_inv s" "file_ok f" "aesd_unlocked_ioctl k f cmd arg m s = Some (r, f')"
  shows "file_ok f'"
proof -
  have mem: "drv_mem {} s"
    using assms(2) by (simp add: drv_inv_def)
  have "unat (word_of_nat p :: u64) \<le> 2 ^ 62" if t: "ioctl_target (dev_raw s) c off = Some p" for c off p
  proof -
    have "c < length (dev_raw s)" and p: "p = sum_list (map length (take c (dev_raw s))) + off"
      and off: "off \<le> length (dev_raw s ! c)"
      using t by (auto simp: ioctl_target_def split: if_splits)
    moreover have "sum_list (map length (take (Suc c) (dev_raw s))) =
        sum_list (map length (take c (dev_raw s))) + length (dev_raw s ! c)"
      using \<open>c < length (dev_raw s)\<close> by (simp add: take_Suc_conv_app_nth)
    ultimately have "p \<le> 10 * 2 ^ 28"
      using raw_sum_bound [OF mem, of "Suc c"] by simp
    then show ?thesis
      by (simp add: unat_of_nat_small)
  qed
  then show ?thesis
    using assms ioctl_total [OF assms(1,2), of f cmd arg m]
    by (auto simp: file_ok_def split: option.splits if_splits)
qed

lemma ran_upd_all: "\<forall>x \<in> ran m. P x \<Longrightarrow> P v \<Longrightarrow> \<forall>x \<in> ran (m(a \<mapsto> v)). P x"
  by (auto simp: ran_def)

lemma ran_del_all: "\<forall>x \<in> ran m. P x \<Longrightarrow> \<forall>x \<in> ran (m(a := None)). P x"
  by (auto simp: ran_def)

lemma syscall_keeps:
  assumes "syscall S S'" "sys_inv S"
  shows "sys_inv S'"
  using assms
proof (cases rule: syscall.cases)
  case (sys_open fd f)
  then show ?thesis
    using assms(2) by (auto simp: sys_inv_def aesd_open_def file_ok_def intro: ran_upd_all [THEN bspec])
next
  case (sys_release fd f f')
  then show ?thesis
    using assms(2) ran_del_all by (fastforce simp: sys_inv_def)
next
  case (sys_read fd f k buf count m r p m' s')
  then have "file_ok f"
    using assms(2) by (auto simp: sys_inv_def ran_def)
  then have "s' = module S" "file_ok (f\<lparr>f_pos := p\<rparr>)"
    using read_pos_ok [OF sys_read(3) _ sys_read(4)] assms(2) by (auto simp: sys_inv_def file_ok_def)
  then show ?thesis
    using assms(2) sys_read ran_upd_all [of "files S" file_ok] by (simp add: sys_inv_def)
next
  case (sys_write fd f k buf count m r s')
  then show ?thesis
    using assms(2) write_keeps [OF sys_write(3) _ sys_write(4)]
    by (auto simp: sys_inv_def module_live_def same_dev_def)
next
  case (sys_llseek fd f off whence r f')
  then have "file_ok f'"
    using seek_pos_ok [OF _ _ sys_llseek(3)] assms(2) by (auto simp: sys_inv_def ran_def)
  then show ?thesis
    using assms(2) sys_llseek ran_upd_all [of "files S" file_ok] by (simp add: sys_inv_def)
next
  case (sys_ioctl fd f k cmd arg m r f')
  then have "file_ok f'"
    using ioctl_pos_ok [OF sys_ioctl(3) _ _ sys_ioctl(4)] assms(2) by (auto simp: sys_inv_def ran_def)
  then show ?thesis
    using assms(2) sys_ioctl ran_upd_all [of "files S" file_ok] by (simp add: sys_inv_def)
qed

lemma reachable_inv: "reachable S \<Longrightarrow> sys_inv S"
proof (induction rule: reachable.induct)
  case (loaded k s)
  then show ?case
    using init_module_spec [OF loaded(1,2,3)] by (simp add: sys_inv_def)
next
  case (step S S')
  then show ?case
    by (blast intro: syscall_keeps)
qed

end
