(* ===== verification/DriverProperties.thy ===== *)
theory DriverProperties
  imports DriverLifecycle
begin

text \<open>
  What the character driver guarantees, each statement with a concrete run on the first-fit kernel
  of \<open>KernelApi\<close>: the module loaded by \<open>demo_loaded\<close>, user memory that holds one short text.
\<close>

section \<open>Concrete runs\<close>

definition demo_loaded :: aesd_state where
  "demo_loaded = snd (aesd_init_module demo_kernel aesd_static)"

definition demo_mem :: "byte list \<Rightarrow> umem" where
  "demo_mem bs = (\<lambda>a. if unat a < length bs then bs ! unat a else 0)"

lemma demo_init: "aesd_init_module demo_kernel aesd_static = (0, demo_loaded)"
  by (simp add: demo_loaded_def aesd_init_module_def aesd_setup_cdev_def demo_kernel_def Let_def)

lemma demo_inv: "drv_inv demo_loaded" "dev_abs demo_loaded = ([], [])" "module_live demo_loaded"
  using init_module_spec [OF demo_region_ok demo_init] by (simp_all add: demo_kernel_def)

lemma demo_pending: "dev_pending demo_loaded = []" "dev_cmds demo_loaded = []"
  using demo_inv(2) by (simp_all add: dev_abs_def)

lemma demo_content: "dev_content demo_loaded = []"
  by (simp add: dev_content_def demo_pending)

lemma demo_calls: "k_mutex_lock_interruptible demo_kernel = 0"
  "fst (k_copy_from_user demo_kernel a n m) = 0" "\<not> copy_faults demo_kernel"
  "k_kmalloc_max demo_kernel = 4194304"
  by (simp_all add: demo_kernel_def copy_faults_def)

lemma load_demo_mem: "length bs < 2 ^ 64 \<Longrightarrow> load_user 0 (length bs) (demo_mem bs) = bs"
  by (rule nth_equalityI) (simp_all add: load_user_def demo_mem_def unat_of_nat_small)

section \<open>write\<close>

text \<open>
  C1 (write): in every state that satisfies the driver's invariant, under every kernel that keeps
  its contract, \<open>aesd_write\<close> returns (no undefined access, no double free, no lock left behind)
  and keeps the invariant. Its result is the whole count, with every byte fed to the device; or
  \<open>-EFAULT\<close> or \<open>-ERESTARTSYS\<close>, with the device unchanged; or \<open>-ENOMEM\<close>, with a prefix of the bytes
  fed. Each error has its cause in a kernel call that failed.
\<close>

theorem aesd_write_feeds:
  assumes "kernel_ok k" "drv_inv s"
  shows "\<exists>r s'. aesd_write k buf count m s = Some (r, s') \<and> drv_inv s' \<and>
    (let bs = load_user buf (unat count) m in
     (r = count \<and> dev_abs s' = spec_write (dev_abs s) bs \<or>
      r \<in> {- EFAULT, - ERESTARTSYS} \<and> dev_abs s' = dev_abs s \<or>
      r = - ENOMEM \<and> (\<exists>n \<le> length bs. dev_abs s' = spec_write (dev_abs s) (take n bs)))) \<and>
    (r = - EFAULT \<longrightarrow> fst (k_copy_from_user k buf count m) \<noteq> 0) \<and>
    (r = - ERESTARTSYS \<longrightarrow> k_mutex_lock_interruptible k \<noteq> 0)"
  using write_total [OF assms, of buf count m]
  unfolding write_post_def Let_def length_load_user word_of_nat_unat_u64 by blast

theorem aesd_write_feeds_witness:
  "\<exists>r s'. aesd_write demo_kernel 0 3 (demo_mem [104, 105, 10]) demo_loaded = Some (r, s') \<and> drv_inv s'"
  using aesd_write_feeds [OF demo_kernel_ok demo_inv(1)] by blast

text \<open>
  Write succeeds: while the module holds fewer blocks than the allocator has room for and
  the command being collected stays within the allocator's size limit, a write whose lock and
  copy succeed consumes its whole buffer.
\<close>

theorem aesd_write_succeeds:
  assumes "kernel_ok k" "roomy k" "drv_inv s"
    "length (dev_pending s) + unat count \<le> k_kmalloc_max k"
    "k_mutex_lock_interruptible k = 0" "fst (k_copy_from_user k buf count m) = 0"
  shows "\<exists>s'. aesd_write k buf count m s = Some (count, s') \<and> drv_inv s' \<and>
    dev_abs s' = spec_write (dev_abs s) (load_user buf (unat count) m)"
  using write_succeeds [OF assms] by blast

theorem aesd_write_succeeds_witness:
  "\<exists>s'. aesd_write demo_kernel 0 3 (demo_mem [104, 105, 10]) demo_loaded = Some (3, s') \<and>
    dev_abs s' = ([[104, 105, 10]], [])"
proof -
  have "load_user 0 3 (demo_mem [104, 105, 10]) = [104, 105, 10]"
    by (simp add: demo_mem_def)
  then have "spec_write (dev_abs demo_loaded) (load_user 0 (unat (3 :: u64)) (demo_mem [104, 105, 10])) =
      ([[104, 105, 10]], [])"
    by (simp add: demo_inv spec_write_def newline_def)
  then show ?thesis
    using aesd_write_succeeds [OF demo_kernel_ok demo_roomy demo_inv(1), where count = 3 and buf = 0
        and m = "demo_mem [104, 105, 10]"]
    by (auto simp: demo_pending demo_calls)
qed

text \<open>
  C2 (the stream): after loading, any sequence of writes whose buffers fit the allocator leaves
  the last ten complete commands of the written stream and its incomplete rest, however the
  stream was cut into writes; reading from offset 0 then delivers those commands.
\<close>

theorem device_remembers_stream:
  assumes "kernel_ok k" "roomy k" "\<not> copy_faults k" "region_ok k" "k_cdev_add k \<le> 0"
    "aesd_init_module k aesd_static = (0, s)"
    "write_calls_ok k ws" "writes_fit (k_kmalloc_max k) ([], []) (map user_bytes ws)"
    "concat (map user_bytes ws) = concat ls @ rest" "\<forall>l \<in> set ls. is_command l" "newline \<notin> set rest"
  shows "\<exists>s'. write_all k ws s = Some (map (\<lambda>(buf, count, m). count) ws, s') \<and>
    dev_abs s' = (last_n 10 ls, rest) \<and>
    (\<forall>buf count m. \<exists>r p m'. aesd_read k buf count 0 m s' = Some (r, p, m', s') \<and>
       m' = store_user buf (take (unat count) (concat (last_n 10 ls))) m)"
proof -
  have s: "drv_inv s" "dev_abs s = ([], [])"
    using init_module_spec [OF assms(4,6,5)] by auto
  then obtain s' where w: "write_all k ws s = Some (map (\<lambda>(buf, count, m). count) ws, s')" "drv_inv s'"
    "dev_abs s' = spec_write ([], []) (concat (map user_bytes ws))"
    using write_all_spec [OF assms(1,2), of s ws] assms(7,8) by auto
  have abs: "dev_abs s' = (last_n 10 ls, rest)"
    using w(3) spec_write_commands [of ls "[]" rest] assms(9-11) by simp
  then have content: "dev_content s' = concat (last_n 10 ls)"
    by (simp add: dev_content_def dev_abs_def)
  have lock: "k_mutex_lock_interruptible k = 0"
    using assms(7) by (simp add: write_calls_ok_def)
  have "\<exists>r p m'. aesd_read k buf count 0 m s' = Some (r, p, m', s') \<and>
      m' = store_user buf (take (unat count) (concat (last_n 10 ls))) m" for buf count m
    using read_total [OF assms(1) w(2), of buf count 0 m] assms(3) lock
    by (auto simp: read_post_def readable_def content Let_def min_def)
  then show ?thesis
    using w(1) abs by blast
qed

theorem device_remembers_stream_witness:
  "\<exists>s'. write_all demo_kernel [(0, 2, demo_mem [104, 10, 105]), (2, 1, demo_mem [104, 10, 105])] demo_loaded
     = Some ([2, 1], s') \<and> dev_abs s' = ([[104, 10]], [105])"
proof -
  let ?m = "demo_mem [104, 10, 105]"
  have bytes: "map user_bytes [(0, 2, ?m), (2, 1, ?m)] = [[104, 10], [105]]"
    by (simp add: user_bytes_def demo_mem_def)
  have "write_calls_ok demo_kernel [(0, 2, ?m), (2, 1, ?m)]"
    by (simp add: write_calls_ok_def demo_calls)
  moreover have "writes_fit (k_kmalloc_max demo_kernel) ([], []) (map user_bytes [(0, 2, ?m), (2, 1, ?m)])"
    unfolding bytes by (simp add: demo_calls spec_write_def newline_def)
  moreover have "concat (map user_bytes [(0, 2, ?m), (2, 1, ?m)]) = concat [[104, 10]] @ [105]"
    unfolding bytes by simp
  moreover have "\<forall>l \<in> set [[104, 10]]. is_command l" "newline \<notin> set [105]"
    by (auto simp: is_command_def newline_def intro: exI [of _ "[104]"])
  moreover have "k_cdev_add demo_kernel \<le> 0"
    by (simp add: demo_kernel_def)
  ultimately show ?thesis
    using device_remembers_stream [OF demo_kernel_ok demo_roomy demo_calls(3) demo_region_ok _ demo_init,
        of "[(0, 2, ?m), (2, 1, ?m)]" "[[104, 10]]" "[105]"] by fastforce
qed


section \<open>read\<close>

text \<open>
  C5 (read): a read leaves the device as it is and gives the lock back. When the lock is taken and
  no copy faults it returns the smaller of the count and of what is left after the offset, stores
  exactly those bytes of the content, and advances the offset by the same number.
\<close>

theorem aesd_read_delivers:
  assumes "kernel_ok k" "drv_inv s" "k_mutex_lock_interruptible k = 0" "\<not> copy_faults k"
  shows "let content = concat (dev_cmds s); n = min (unat count) (length content - unat fpos) in
    aesd_read k buf count fpos m s =
      Some (word_of_nat n, fpos + word_of_nat n,
            store_user buf (take n (drop (unat fpos) content)) m, s)"
  using read_total [OF assms(1,2), of buf count fpos m] assms(3,4)
  by (auto simp: read_post_def readable_def dev_content_def Let_def)

theorem aesd_read_delivers_witness:
  "aesd_read demo_kernel 100 8 0 (demo_mem []) demo_loaded = Some (0, 0, demo_mem [], demo_loaded)"
  using aesd_read_delivers [OF demo_kernel_ok demo_inv(1) demo_calls(1,3), of 8 0 100 "demo_mem []"]
  by (simp add: demo_pending)



section \<open>llseek and ioctl\<close>

text \<open>
  C13 (llseek): with a file offset that is not negative, the 64-bit arithmetic of \<open>aesd_seek\<close>
  decides exactly the integer condition: \<open>SEEK_SET\<close> and \<open>SEEK_CUR\<close> accept a target in
  \<open>[0, size)\<close>, \<open>SEEK_END\<close> one in \<open>[0, size]\<close>; everything else is \<open>-EINVAL\<close> and moves nothing.
\<close>

theorem aesd_seek_exact:
  assumes "drv_inv s" "0 \<le> sint (f_pos filp)"
  shows "aesd_seek filp off whence s = Some
    (let size = int (length (concat (dev_cmds s)));
         target = (if whence = SEEK_SET then sint off
                   else if whence = SEEK_CUR then sint (f_pos filp) + sint off
                   else size + sint off)
     in if whence \<in> {SEEK_SET, SEEK_CUR, SEEK_END} \<and> 0 \<le> target \<and>
           (if whence = SEEK_END then target \<le> size else target < size)
        then (word_of_int target, filp\<lparr>f_pos := word_of_int target\<rparr>)
        else (- EINVAL, filp))"
  using seek_total [OF assms, of off whence]
  by (auto simp: seek_target_def whence_defs dev_content_def Let_def)

theorem aesd_seek_exact_witness:
  "aesd_seek \<lparr>f_pos = 0\<rparr> 0 SEEK_END demo_loaded = Some (0, \<lparr>f_pos = 0\<rparr>)"
  using aesd_seek_exact [OF demo_inv(1), of "\<lparr>f_pos = 0\<rparr>" 0 SEEK_END]
  by (simp add: demo_pending whence_defs)

text \<open>
  C12 (ioctl): the ioctl works on the commands in the order of the array's slots, which is the
  content's order rotated by \<open>out_offs\<close>: it accepts a command number below their count with an
  offset up to the length of that slot's command, and sets the offset to the bytes of the slots
  before it plus the offset. Other requests, faults and bad arguments move nothing.
\<close>

theorem aesd_ioctl_slots:
  assumes "kernel_ok k" "drv_inv s"
  shows "\<exists>slots. dev_cmds s = rotate (unat (out_offs (circular_buf s))) slots \<and>
    aesd_unlocked_ioctl k filep cmd arg m s = Some
      (let sk = seekto_of_bytes (load_user arg 8 m); c = unat (write_cmd sk); off = unat (write_cmd_offset sk) in
       if cmd \<noteq> AESDCHAR_IOCSEEKTO then (- EINVAL, filep)
       else if fst (k_copy_from_user k arg 8 m) \<noteq> 0 then (- EFAULT, filep)
       else if c < length slots \<and> off \<le> length (slots ! c)
       then (word_of_nat (length (concat (take c slots)) + off),
             filep\<lparr>f_pos := word_of_nat (length (concat (take c slots)) + off)\<rparr>)
       else (- EINVAL, filep))"
proof (intro exI conjI)
  show "dev_cmds s = rotate (unat (out_offs (circular_buf s))) (dev_raw s)"
    using assms(2) dev_cmds_rotate [of "{}" s] by (simp add: drv_inv_def)
qed (simp add: ioctl_total [OF assms] ioctl_target_def length_concat Let_def)

theorem aesd_ioctl_slots_witness:
  "aesd_unlocked_ioctl demo_kernel \<lparr>f_pos = 5\<rparr> 0 0 (demo_mem []) demo_loaded = Some (- EINVAL, \<lparr>f_pos = 5\<rparr>)"
  using aesd_ioctl_slots [OF demo_kernel_ok demo_inv(1), of "\<lparr>f_pos = 5\<rparr>" 0 0 "demo_mem []"]
  by (simp add: AESDCHAR_IOCSEEKTO_def IOWR_def AESD_IOC_MAGIC_def)


text \<open>
  Seek and read: while the ring has not wrapped around (\<open>out_offs\<close> is 0), an ioctl with the
  struct a user program lays out at \<open>arg\<close> succeeds for every existing command and offset inside
  it, and a read from the new offset delivers the device from that byte of that command on.
\<close>

theorem ioctl_then_read:
  assumes "kernel_ok k" "drv_inv s" "out_offs (circular_buf s) = 0"
    "fst (k_copy_from_user k arg 8 m) = 0" "k_mutex_lock_interruptible k = 0" "\<not> copy_faults k"
    "load_user arg 8 m = seekto_bytes \<lparr>write_cmd = c, write_cmd_offset = off\<rparr>"
    "unat c < length (dev_cmds s)" "unat off \<le> length (dev_cmds s ! unat c)"
  shows "\<exists>p r p' . aesd_unlocked_ioctl k filep AESDCHAR_IOCSEEKTO arg m s = Some (p, filep\<lparr>f_pos := p\<rparr>) \<and>
    aesd_read k buf count p m s = Some (r, p',
      store_user buf (take (unat count) (drop (unat off) (concat (drop (unat c) (dev_cmds s))))) m, s)"
proof -
  have mem: "drv_mem {} s"
    using assms(2) by (simp add: drv_inv_def)
  let ?cmds = "dev_cmds s" and ?c = "unat c"
  define n where "n = length (concat (take ?c ?cmds)) + unat off"
  have cut: "concat ?cmds = concat (take ?c ?cmds) @ concat (drop ?c ?cmds)"
    by (metis append_take_drop_id concat_append)
  have "length (?cmds ! ?c) \<le> length (concat (drop ?c ?cmds))"
    using assms(8) by (simp flip: Cons_nth_drop_Suc)
  then have n: "n \<le> length (dev_content s)" "drop n (concat ?cmds) = drop (unat off) (concat (drop ?c ?cmds))"
    using assms(9) unfolding n_def dev_content_def cut by auto
  have un: "unat (word_of_nat n :: u64) = n"
    using n(1) content_bound [OF mem] by (intro unat_of_nat_small) simp
  have "aesd_unlocked_ioctl k filep AESDCHAR_IOCSEEKTO arg m s =
      Some (word_of_nat n, filep\<lparr>f_pos := word_of_nat n\<rparr>)"
    using assms(4,7,8,9) by (simp add: ioctl_total [OF assms(1,2)] dev_raw_unwrapped [OF mem assms(3)]
        seekto_of_bytes_bytes ioctl_target_def n_def length_concat)
  moreover have "\<exists>r p'. aesd_read k buf count (word_of_nat n) m s = Some (r, p',
      store_user buf (take (unat count) (drop n (concat ?cmds))) m, s)"
    using read_total [OF assms(1,2), of buf count "word_of_nat n" m] assms(5,6)
    by (auto simp: read_post_def readable_def Let_def un dev_content_def min_def)
  ultimately show ?thesis
    using n(2) by metis
qed

text \<open>A device that has just collected the commands \<open>A\<close> newline and \<open>BC\<close> newline.\<close>

definition two_commands :: aesd_state where
  "two_commands = aesd_static
     \<lparr>circular_buf := \<lparr>entry = [\<lparr>buffptr = Some 1, esize = 2\<rparr>, \<lparr>buffptr = Some 2, esize = 3\<rparr>] @
                              replicate 8 \<lparr>buffptr = NULL, esize = 0\<rparr>,
                      in_offs = 2, out_offs = 0, full = False\<rparr>,
      kheap := [1 \<mapsto> [65, 10], 2 \<mapsto> [66, 67, 10]]\<rparr>"

lemma all_slots:
  "(\<forall>j < 10. P j) \<longleftrightarrow> P 0 \<and> P 1 \<and> P 2 \<and> P 3 \<and> P 4 \<and> P 5 \<and> P 6 \<and> P 7 \<and> P 8 \<and> P (9 :: nat)"
  by (simp add: numeral_eq_Suc All_less_Suc) blast

lemma two_commands_inv: "drv_inv two_commands" "dev_cmds two_commands = [[65, 10], [66, 67, 10]]"
proof -
  let ?b = "circular_buf two_commands"
  have ring: "ring_list ?b = [\<lparr>buffptr = Some 1, esize = 2\<rparr>, \<lparr>buffptr = Some 2, esize = 3\<rparr>]"
    by (simp add: ring_list_def ring_count_def ring_slot_def two_commands_def upt_rec)
  have "ring_inv ?b"
    by (simp add: ring_inv_def two_commands_def live_def all_slots)
  then show "drv_inv two_commands" "dev_cmds two_commands = [[65, 10], [66, 67, 10]]"
    using ring
    by (auto simp: drv_inv_def drv_mem_def owned_def entry_addrs_def dev_cmds_def entry_backed_def
        pending_backed_def max_entry_def block_of_def two_commands_def aesd_static_def)
qed

theorem ioctl_then_read_witness:
  "\<exists>p. aesd_unlocked_ioctl demo_kernel \<lparr>f_pos = 0\<rparr> AESDCHAR_IOCSEEKTO 0
         (demo_mem [1, 0, 0, 0, 1, 0, 0, 0]) two_commands = Some (p, \<lparr>f_pos = p\<rparr>) \<and>
     (\<exists>r p'. aesd_read demo_kernel 100 8 p (demo_mem [1, 0, 0, 0, 1, 0, 0, 0]) two_commands =
       Some (r, p', store_user 100 [67, 10] (demo_mem [1, 0, 0, 0, 1, 0, 0, 0]), two_commands))"
proof -
  have bytes: "load_user 0 8 (demo_mem [1, 0, 0, 0, 1, 0, 0, 0]) =
      seekto_bytes \<lparr>write_cmd = 1, write_cmd_offset = 1\<rparr>"
    by (simp add: demo_mem_def seekto_bytes_def le_bytes_def)
  show ?thesis
    using ioctl_then_read [OF demo_kernel_ok two_commands_inv(1) _ _ demo_calls(1,3) bytes,
        of "\<lparr>f_pos = 0\<rparr>" 100 8]
    by (auto simp: two_commands_inv(2) demo_calls) (simp_all add: two_commands_def)
qed


text \<open>
  A device whose ring has wrapped around: eleven commands were added, the newest of four bytes in
  slot 0, the ten before it of two bytes each, the first of them displaced.
\<close>

definition wrapped_entries :: "aesd_buffer_entry list" where
  "wrapped_entries = map (\<lambda>i. \<lparr>buffptr = Some i, esize = 2\<rparr>) [1..<11] @ [\<lparr>buffptr = Some 11, esize = 4\<rparr>]"

definition wrapped :: aesd_state where
  "wrapped = aesd_static
     \<lparr>circular_buf := the (push_all aesd_circular_buffer_add_entry aesd_circular_buffer_init wrapped_entries),
      kheap := (\<lambda>a. if a = 11 then Some [66, 66, 66, 10]
                    else if 1 < a \<and> a < 11 then Some [65, 10] else None)\<rparr>"

lemma wrapped_ring:
  "circular_buf wrapped =
     \<lparr>entry = \<lparr>buffptr = Some 11, esize = 4\<rparr> # map (\<lambda>i. \<lparr>buffptr = Some i, esize = 2\<rparr>) [2..<11],
      in_offs = 1, out_offs = 1, full = True\<rparr>"
  by code_simp

lemma wrapped_list:
  "ring_list (circular_buf wrapped) =
     map (\<lambda>i. \<lparr>buffptr = Some i, esize = 2\<rparr>) [2..<11] @ [\<lparr>buffptr = Some 11, esize = 4\<rparr>]"
  by code_simp

lemma wrapped_inv: "drv_inv wrapped"
proof -
  have "ring_inv (circular_buf wrapped)"
    by (auto simp: wrapped_ring ring_inv_def live_def)
  moreover have "distinct (owned wrapped)" "set (owned wrapped) = {2..<12}"
    unfolding owned_def entry_addrs_def wrapped_list by (auto simp: wrapped_def aesd_static_def) presburger
  moreover have "dom (kheap wrapped) = {2..<12}"
    by (auto simp: wrapped_def split: if_splits)
  moreover have "\<forall>e \<in> set (ring_list (circular_buf wrapped)). entry_backed (kheap wrapped) e"
    unfolding wrapped_list by (auto simp: entry_backed_def wrapped_def max_entry_def)
  ultimately show ?thesis
    by (simp add: drv_inv_def drv_mem_def pending_backed_def) (simp add: wrapped_def aesd_static_def)
qed

lemma wrapped_cmds: "dev_cmds wrapped = replicate 9 [65, 10] @ [[66, 66, 66, 10]]"
  unfolding dev_cmds_def wrapped_list by code_simp

text \<open>
  C11 (seek in a wrapped ring): after eleven commands the ring holds nine commands of two bytes and
  then one of four; the second command starts at byte 2 of the device. The ioctl sends the file
  to byte 4: it adds up the slots of the array, where the newest command stands first.
\<close>

theorem ioctl_wrapped_ring_misses:
  "push_all aesd_circular_buffer_add_entry aesd_circular_buffer_init wrapped_entries = Some (circular_buf wrapped) \<and>
   drv_inv wrapped \<and> dev_cmds wrapped = replicate 9 [65, 10] @ [[66, 66, 66, 10]] \<and>
   length (concat (take 1 (dev_cmds wrapped))) = 2 \<and>
   aesd_unlocked_ioctl demo_kernel \<lparr>f_pos = 0\<rparr> AESDCHAR_IOCSEEKTO 0 (demo_mem [1, 0, 0, 0, 0, 0, 0, 0]) wrapped =
     Some (4, \<lparr>f_pos = 4\<rparr>)"
proof (intro conjI)
  show "push_all aesd_circular_buffer_add_entry aesd_circular_buffer_init wrapped_entries = Some (circular_buf wrapped)"
    by code_simp
  show "length (concat (take 1 (dev_cmds wrapped))) = 2"
    by (simp add: wrapped_cmds)
  have "load_user 0 8 (demo_mem [1, 0, 0, 0, 0, 0, 0, 0]) = seekto_bytes \<lparr>write_cmd = 1, write_cmd_offset = 0\<rparr>"
    by (simp add: demo_mem_def seekto_bytes_def le_bytes_def)
  moreover have "dev_raw wrapped = [66, 66, 66, 10] # replicate 9 [65, 10]"
    unfolding dev_raw_def by code_simp
  ultimately show "aesd_unlocked_ioctl demo_kernel \<lparr>f_pos = 0\<rparr> AESDCHAR_IOCSEEKTO 0
      (demo_mem [1, 0, 0, 0, 0, 0, 0, 0]) wrapped = Some (4, \<lparr>f_pos = 4\<rparr>)"
    by (simp add: ioctl_total [OF demo_kernel_ok wrapped_inv] demo_calls seekto_of_bytes_bytes ioctl_target_def)
qed (rule wrapped_inv wrapped_cmds)+


section \<open>The system\<close>

text \<open>
  C3 (safety of every reachable state): in whatever order open, release, read, write, llseek and
  ioctl are called on any files after loading, the lock is free between calls, the allocated
  blocks are exactly those the ring and the pending command point to, each once, and every
  further call on an open file returns: no undefined access, no double free, no deadlock.
\<close>

theorem reachable_safe:
  assumes "reachable S" "files S fd = Some f" "kernel_ok k"
  shows "\<not> mtx (aesd_device (module S)) \<and> dom (kheap (module S)) = set (owned (module S)) \<and>
    distinct (owned (module S)) \<and>
    aesd_read k buf count (f_pos f) m (module S) \<noteq> None \<and>
    aesd_write k buf count m (module S) \<noteq> None \<and>
    aesd_seek f off whence (module S) \<noteq> None \<and>
    aesd_unlocked_ioctl k f cmd arg m (module S) \<noteq> None"
proof -
  have S: "sys_inv S"
    using assms(1) by (rule reachable_inv)
  then have inv: "drv_inv (module S)" and f: "0 \<le> sint (f_pos f)"
    using assms(2) file_ok_signed by (auto simp: sys_inv_def ran_def)
  then show ?thesis
    using read_total [OF assms(3) inv, of buf count "f_pos f" m] write_total [OF assms(3) inv, of buf count m]
      seek_total [OF inv f, of off whence] ioctl_total [OF assms(3) inv, of f cmd arg m]
    by (auto simp: drv_inv_def drv_mem_def)
qed

lemma demo_reachable: "reachable \<lparr>module = demo_loaded, files = [3 \<mapsto> \<lparr>f_pos = 0\<rparr>]\<rparr>"
proof -
  have "reachable \<lparr>module = demo_loaded, files = Map.empty\<rparr>"
    by (rule reachable.loaded [OF demo_region_ok demo_init]) (simp add: demo_kernel_def)
  moreover have "syscall \<lparr>module = demo_loaded, files = Map.empty\<rparr>
      (\<lparr>module = demo_loaded, files = Map.empty\<rparr>\<lparr>files := Map.empty(3 \<mapsto> \<lparr>f_pos = 0\<rparr>)\<rparr>)"
    using syscall.sys_open [of "\<lparr>module = demo_loaded, files = Map.empty\<rparr>" 3 "\<lparr>f_pos = 0\<rparr>"]
    by (simp add: aesd_open_def)
  ultimately show ?thesis
    using reachable.step by fastforce
qed

theorem reachable_safe_witness:
  "aesd_write demo_kernel 0 4 (demo_mem [1, 2, 10, 3]) demo_loaded \<noteq> None"
  using reachable_safe [OF demo_reachable, of 3 "\<lparr>f_pos = 0\<rparr>" demo_kernel 0 4 "demo_mem [1, 2, 10, 3]" 0 0 0 0]
    demo_kernel_ok by simp

text \<open>
  C17 (loading): \<open>aesd_init_module\<close> either returns 0 with the region registered, the device live
  under the same number, no memory used and an empty device; or it returns an error and leaves
  neither a region nor a device behind.
\<close>

theorem aesd_init_module_spec:
  assumes "region_ok k" "k_cdev_add k \<le> 0" "aesd_init_module k aesd_static = (rc, s)"
  shows "if rc = 0 then drv_inv s \<and> dev_abs s = ([], []) \<and> kheap s = Map.empty \<and>
           chrdev_region s = Some (snd (k_alloc_chrdev_region k)) \<and>
           cdev (aesd_device s) = Some (snd (k_alloc_chrdev_region k))
         else rc < 0 \<and> chrdev_region s = None \<and> cdev (aesd_device s) = None"
proof -
  have "rc = 0 \<Longrightarrow> chrdev_region s = Some (snd (k_alloc_chrdev_region k)) \<and> kheap s = Map.empty"
    using assms(3) by (auto simp: aesd_init_module_def aesd_setup_cdev_def aesd_static_def Let_def
        split: prod.splits if_splits)
  then show ?thesis
    using init_module_spec [OF assms(1,3,2)] by (auto simp: module_live_def split: if_splits)
qed

theorem aesd_init_module_spec_witness:
  "chrdev_region demo_loaded = Some 0x0F000000"
  using aesd_init_module_spec [OF demo_region_ok _ demo_init] by (simp add: demo_kernel_def)

text \<open>
  C6 (unloading): from every reachable state \<open>aesd_cleanup_module\<close> returns with every block of
  the module freed exactly once, the device removed, and the region given back that loading had
  registered.
\<close>

theorem aesd_cleanup_module_frees:
  assumes "reachable S" "kernel_ok k"
  shows "\<exists>s'. aesd_cleanup_module k (module S) = Some s' \<and> kheap s' = Map.empty \<and>
    chrdev_region s' = None \<and> cdev (aesd_device s') = None"
  using cleanup_module_spec [OF assms(2)] reachable_inv [OF assms(1)] by (auto simp: sys_inv_def)

theorem aesd_cleanup_module_frees_witness:
  "\<exists>s'. aesd_cleanup_module demo_kernel demo_loaded = Some s' \<and> kheap s' = Map.empty"
  using aesd_cleanup_module_frees [OF demo_reachable demo_kernel_ok] by auto

section \<open>The ring\<close>

text \<open>
  C8 (the ring is a bounded log): from \<open>aesd_circular_buffer_init\<close> on, adding any sequence of
  entries with a block succeeds and leaves the last ten of them, oldest first.
\<close>

theorem ring_remembers_last_ten:
  assumes "\<forall>e \<in> set es. live e"
  shows "\<exists>b. push_all aesd_circular_buffer_add_entry aesd_circular_buffer_init es = Some b \<and>
    ring_inv b \<and> ring_list b = last_n 10 es"
  using ring.push_all_init [OF assms] .

theorem ring_remembers_last_ten_witness:
  "ring_list (circular_buf wrapped) = last_n 10 wrapped_entries"
proof -
  have "push_all aesd_circular_buffer_add_entry aesd_circular_buffer_init wrapped_entries = Some (circular_buf wrapped)"
    by code_simp
  moreover have "\<forall>e \<in> set wrapped_entries. live e"
    by (auto simp: wrapped_entries_def live_def)
  ultimately show ?thesis
    using ring_remembers_last_ten [of wrapped_entries] by auto
qed

text \<open>
  Adding: one call of \<open>aesd_circular_buffer_add_entry\<close> on a ring that satisfies the
  invariant returns \<open>NULL\<close> and appends while fewer than ten entries are stored; otherwise it
  returns the pointer of the oldest entry and drops that entry.
\<close>

theorem add_entry_displaces:
  assumes "ring_inv b" "live e"
  shows "\<exists>b'. ring_inv b' \<and>
    (if length (ring_list b) < 10
     then aesd_circular_buffer_add_entry b e = Some (NULL, b') \<and> ring_list b' = ring_list b @ [e]
     else aesd_circular_buffer_add_entry b e = Some (buffptr (hd (ring_list b)), b') \<and>
          ring_list b' = tl (ring_list b) @ [e])"
  using ring.add_step [OF assms] by (auto split: if_splits)

theorem add_entry_displaces_witness:
  "\<exists>b'. aesd_circular_buffer_add_entry (circular_buf wrapped) \<lparr>buffptr = Some 12, esize = 1\<rparr> = Some (Some 2, b')"
proof -
  have "ring_inv (circular_buf wrapped)"
    using wrapped_inv by (simp add: drv_inv_def drv_mem_def)
  moreover have "hd (ring_list (circular_buf wrapped)) = \<lparr>buffptr = Some 2, esize = 2\<rparr>"
    "\<not> length (ring_list (circular_buf wrapped)) < 10"
    unfolding wrapped_list by (simp_all add: hd_append)
  ultimately show ?thesis
    using add_entry_displaces [of "circular_buf wrapped" "\<lparr>buffptr = Some 12, esize = 1\<rparr>"]
    by (auto simp: live_def)
qed


text \<open>
  C7 (searching): on a ring that satisfies the invariant and whose sizes sum below \<open>2^64\<close>, the
  search finds, for an offset inside the stored bytes, the one entry and the offset in it that
  make it up, counted from the oldest entry; beyond the stored bytes it returns \<open>NULL\<close>.
\<close>

theorem find_entry_finds:
  assumes "ring_inv b" "sum_list (ring_sizes b) < 2 ^ 64"
  shows "\<exists>res. aesd_circular_buffer_find_entry_offset_for_fpos b off = Some res \<and>
    (case res of
       None \<Rightarrow> sum_list (ring_sizes b) \<le> unat off
     | Some (idx, j) \<Rightarrow> \<exists>i < ring_count b. unat idx = ring_slot b i \<and> unat j < ring_sizes b ! i \<and>
         sum_list (take i (ring_sizes b)) + unat j = unat off)"
proof -
  have nz: "\<forall>n \<in> set (ring_sizes b). n \<noteq> 0"
    using ring_list_live [OF assms(1)] unfolding ring_sizes_def live_def by (auto simp: unat_gt_0)
  note find = find_entry_locate [OF ring_inv_wf [OF assms(1)] nz assms(2), of off]
  show ?thesis
  proof (cases "locate (ring_sizes b) (unat off)")
    case None
    then have "sum_list (ring_sizes b) \<le> unat off"
      by (simp add: locate_None_iff)
    then show ?thesis
      using find None by simp
  next
    case (Some ij)
    obtain i j where ij: "ij = (i, j)"
      by (cases ij)
    have loc: "i < ring_count b" "j < ring_sizes b ! i" "unat off = sum_list (take i (ring_sizes b)) + j"
      using locate_Some [of "ring_sizes b" "unat off" i j] Some ij by auto
    have "ring_slot b i < 256"
      by (rule less_trans [OF ring_slot_lt]) simp
    then have "unat (word_of_nat (ring_slot b i) :: u8) = ring_slot b i"
      "unat (word_of_nat j :: u64) = j"
      using loc(3) unat_lt_u64 [of off] by (auto intro!: unat_of_nat_small)
    then show ?thesis
      using find Some ij loc by auto
  qed
qed

theorem find_entry_finds_witness:
  "\<exists>idx j. aesd_circular_buffer_find_entry_offset_for_fpos (circular_buf wrapped) 3 = Some (Some (idx, j)) \<and>
     unat j < 2 ^ 64"
proof -
  have inv: "ring_inv (circular_buf wrapped)"
    using wrapped_inv by (simp add: drv_inv_def drv_mem_def)
  have "ring_sizes (circular_buf wrapped) = [2, 2, 2, 2, 2, 2, 2, 2, 2, 4]"
    by code_simp
  then show ?thesis
    using find_entry_finds [OF inv, of 3] unat_lt_u64
    by (auto split: option.splits prod.splits)
qed

text \<open>
  The other walks: \<open>aesd_circular_buffer_size\<close> and \<open>aesd_circullar_buffer_size\<close> return the
  number of bytes and of entries of the ring although they walk the array from slot 0 and stop at
  the first \<open>NULL\<close>, and \<open>AESD_CIRCULAR_BUFFER_FOREACH\<close> visits the ten slots in array order.
\<close>

theorem ring_walks:
  assumes "ring_inv b" "sum_list (ring_sizes b) < 2 ^ 64"
  shows "map_option unat (aesd_circular_buffer_size b) = Some (sum_list (ring_sizes b)) \<and>
    map_option unat (aesd_circullar_buffer_size b) = Some (ring_count b) \<and>
    AESD_CIRCULAR_BUFFER_FOREACH (\<lambda>e es. Some (es @ [e])) b [] = Some (entry b)"
proof -
  have "fold (\<lambda>e es. es @ [e]) xs ys = ys @ xs" for xs ys :: "aesd_buffer_entry list"
    by (induction xs arbitrary: ys) simp_all
  moreover have "length (entry b) = 10"
    using assms(1) by (simp add: ring_inv_def)
  moreover have "unat (word_of_nat (ring_count b) :: u64) = ring_count b"
    using ring_count_le [of b] by (intro unat_of_nat_small) simp
  ultimately show ?thesis
    using size_total [OF assms] count_total [OF assms(1)]
    by (auto simp: AESD_CIRCULAR_BUFFER_FOREACH_def foreach_loop_fold)
qed

theorem ring_walks_witness:
  "map_option unat (aesd_circular_buffer_size (circular_buf wrapped)) = Some 22"
proof -
  have inv: "ring_inv (circular_buf wrapped)"
    using wrapped_inv by (simp add: drv_inv_def drv_mem_def)
  have "ring_sizes (circular_buf wrapped) = [2, 2, 2, 2, 2, 2, 2, 2, 2, 4]"
    by code_simp
  then show ?thesis
    using ring_walks [OF inv] by simp
qed

end
