(* ===== verification/DriverRace.thy ===== *)
theory DriverRace
  imports DriverProperties
begin

text \<open>
  \<open>aesd_seek\<close> walks over the ring without the lock that writers hold. Here its walk is taken turn by
  turn, with whole writes of other programs between the turns: nothing undefined happens and the
  file stays inside the bounds, but the size that comes out may be one that the device never had.
\<close>

section \<open>A walk among writes\<close>

text \<open>Where \<open>aesd_circular_buffer_size\<close> is: before the turn for a slot, or returned.\<close>

datatype walk = At nat u64 | Done u64

definition size_turn :: "aesd_circular_buffer \<Rightarrow> nat \<Rightarrow> u64 \<Rightarrow> walk option" where
  "size_turn buffer i sz =
     (if i < AESDCHAR_MAX_WRITE_OPERATIONS_SUPPORTED then do {
        e \<leftarrow> array_get (entry buffer) i;
        if buffptr e \<noteq> NULL then Some (At (i + 1) (sz + esize e)) else Some (Done sz)
      }
      else Some (Done sz))"

text \<open>The rest of \<open>aesd_seek\<close>, once it has the size.\<close>

definition seek_with :: "kfile \<Rightarrow> s64 \<Rightarrow> u32 \<Rightarrow> u64 \<Rightarrow> s64 \<times> kfile" where
  "seek_with filp offset whence buff_size =
     (if whence = SEEK_SET then
        (if sint offset < 0 \<or> offset \<ge> buff_size then (- EINVAL, filp) else (offset, filp\<lparr>f_pos := offset\<rparr>))
      else if whence = SEEK_CUR then
        (if sint (f_pos filp + offset) < 0 \<or> f_pos filp + offset \<ge> buff_size then (- EINVAL, filp)
         else (f_pos filp + offset, filp\<lparr>f_pos := f_pos filp + offset\<rparr>))
      else if whence = SEEK_END then
        (if buff_size + offset < 0 \<or> buff_size + offset > buff_size then (- EINVAL, filp)
         else (buff_size + offset, filp\<lparr>f_pos := buff_size + offset\<rparr>))
      else (- EINVAL, filp))"

text \<open>A turn of the walk, or a write of another program under the lock.\<close>

inductive racing :: "aesd_state \<times> walk \<Rightarrow> aesd_state \<times> walk \<Rightarrow> bool" where
  turn: "size_turn (circular_buf s) i sz = Some w \<Longrightarrow> racing (s, At i sz) (s, w)"
| other: "kernel_ok k \<Longrightarrow> aesd_write k buf count m s = Some (r, s') \<Longrightarrow> racing (s, w) (s', w)"

inductive_cases racingE: "racing (s, w) (s', w')"

section \<open>The turns make up the call\<close>

lemma size_loop_turn:
  "size_loop b i sz = do { w \<leftarrow> size_turn b i sz; case w of At i sz \<Rightarrow> size_loop b i sz | Done n \<Rightarrow> Some n }"
  by (subst size_loop.simps) (simp add: size_turn_def bind_eq_Some_conv split: Option.bind_split)

lemma aesd_seek_walk:
  "aesd_seek f off whence s = map_option (seek_with f off whence) (size_loop (circular_buf s) 0 0)"
  by (simp add: aesd_seek_def seek_with_def aesd_circular_buffer_size_def split: Option.bind_split)

text \<open>Left alone, the turns give what the call gives.\<close>

lemma undisturbed_run:
  assumes "size_loop (circular_buf s) i sz = Some n"
  shows "\<exists>run. successively racing ((s, At i sz) # run @ [(s, Done n)]) \<and> (\<forall>q \<in> set run. fst q = s)"
  using assms
proof (induction "circular_buf s" i sz rule: size_loop.induct)
  case (1 i sz)
  obtain w where w: "size_turn (circular_buf s) i sz = Some w"
    using "1.prems" by (subst (asm) size_loop_turn) (auto simp: bind_eq_Some_conv)
  note step = racing.turn [OF w]
  show ?case
  proof (cases w)
    case (At j sz')
    then obtain e where e: "i < AESDCHAR_MAX_WRITE_OPERATIONS_SUPPORTED" "array_get (entry (circular_buf s)) i = Some e"
      "buffptr e \<noteq> NULL" "j = i + 1" "sz' = sz + esize e"
      using w by (auto simp: size_turn_def bind_eq_Some_conv split: if_splits)
    have "size_loop (circular_buf s) j sz' = Some n"
      using "1.prems" w At by (subst (asm) size_loop_turn) simp
    then obtain run where "successively racing ((s, At j sz') # run @ [(s, Done n)])" "\<forall>q \<in> set run. fst q = s"
      using "1.hyps" [OF e(1-3)] e(4,5) by blast
    then show ?thesis
      using step At by (intro exI [of _ "(s, At j sz') # run"]) simp
  next
    case (Done n')
    then have "n' = n"
      using "1.prems" w by (subst (asm) size_loop_turn) simp
    then show ?thesis
      using step Done by (intro exI [of _ "[]"]) simp
  qed
qed

section \<open>What holds all the same\<close>

fun walk_ok :: "walk \<Rightarrow> bool" where
  "walk_ok (At i sz) \<longleftrightarrow> i \<le> 10 \<and> unat sz \<le> i * max_entry"
| "walk_ok (Done n) \<longleftrightarrow> unat n \<le> 10 * max_entry"

lemma entry_in_raw:
  assumes inv: "ring_inv b" and e: "i < 10" "buffptr (entry b ! i) \<noteq> NULL"
  shows "entry b ! i \<in> set (raw_list b)"
proof (cases "full b")
  case True
  then show ?thesis
    using inv e by (simp add: raw_list_eq ring_inv_def)
next
  case False
  have len: "length (entry b) = 10"
    "\<And>j. j < 10 \<Longrightarrow> if j < unat (in_offs b) then live (entry b ! j) else entry b ! j = \<lparr>buffptr = NULL, esize = 0\<rparr>"
    using inv False by (auto simp: ring_inv_def)
  have f: "i < unat (in_offs b)"
    using len(2) [OF e(1)] e(2) by (cases "i < unat (in_offs b)") simp_all
  have "entry b ! i = take (unat (in_offs b)) (entry b) ! i"
    using f by simp
  also have "\<dots> \<in> set (take (unat (in_offs b)) (entry b))"
    using f len(1) e(1) by (intro nth_mem) simp
  finally show ?thesis
    using False by (simp add: raw_list_eq [OF inv])
qed

lemma size_turn_ok:
  assumes inv: "drv_inv s" and w: "walk_ok (At i sz)"
  shows "\<exists>w. size_turn (circular_buf s) i sz = Some w \<and> walk_ok w"
proof (cases "i < 10 \<and> buffptr (entry (circular_buf s) ! i) \<noteq> NULL")
  case True
  let ?e = "entry (circular_buf s) ! i"
  have mem: "drv_mem {} s"
    using inv by (simp add: drv_inv_def)
  have ring: "ring_inv (circular_buf s)"
    by (rule drv_memD(1) [OF mem])
  then have len: "length (entry (circular_buf s)) = 10"
    by (simp add: ring_inv_def)
  have "unat (esize ?e) \<le> max_entry"
    using raw_backed(2) [OF mem] entry_in_raw [OF ring] True by blast
  moreover have "unat sz \<le> i * max_entry" "i * max_entry + max_entry \<le> 10 * max_entry"
    using w True by (auto simp: max_entry_def)
  ultimately have "unat (sz + esize ?e) \<le> (i + 1) * max_entry"
    by (subst unat_plus_no_wrap) (simp_all add: max_entry_def)
  then show ?thesis
    using True len by (simp add: size_turn_def AESDCHAR_MAX_WRITE_OPERATIONS_SUPPORTED_def array_get_in)
next
  case False
  have "drv_mem {} s"
    using inv by (simp add: drv_inv_def)
  then have "length (entry (circular_buf s)) = 10"
    using drv_memD(1) by (auto simp: ring_inv_def)
  then have "size_turn (circular_buf s) i sz = Some (Done sz)"
    using False by (auto simp: size_turn_def AESDCHAR_MAX_WRITE_OPERATIONS_SUPPORTED_def array_get_in)
  moreover have "unat sz \<le> i * max_entry" "i * max_entry \<le> 10 * max_entry"
    using w by simp_all
  then have "walk_ok (Done sz)"
    unfolding walk_ok.simps by (rule order_trans)
  ultimately show ?thesis
    by blast
qed

lemma racing_keeps:
  assumes "racing\<^sup>*\<^sup>* q q'" "drv_inv (fst q)" "walk_ok (snd q)"
  shows "drv_inv (fst q') \<and> walk_ok (snd q')"
  using assms
proof (induction rule: rtranclp_induct)
  case (step q1 q2)
  then have inv: "drv_inv (fst q1)" "walk_ok (snd q1)"
    by simp_all
  show ?case
    using step.hyps(2)
  proof (cases rule: racing.cases)
    case (turn s i sz w)
    then show ?thesis
      using size_turn_ok [of s i sz] inv by auto
  next
    case (other k buf count m s r s' w)
    then show ?thesis
      using write_total [of k s buf count m] inv by auto
  qed
qed simp

lemma seek_with_ok:
  assumes "unat n \<le> 10 * max_entry" "file_ok f"
  shows "file_ok (snd (seek_with f off whence n))"
proof -
  have "file_ok (f\<lparr>f_pos := p\<rparr>)" if "p \<le> n" for p
    using that assms(1) by (simp add: file_ok_def word_le_nat_alt max_entry_def)
  then show ?thesis
    using assms(2) by (auto simp: seek_with_def)
qed

section \<open>A write that completes a command\<close>

lemma newline_commits:
  assumes ok: "kernel_ok k" and inv: "drv_inv s" and wr: "aesd_write k buf 1 m s = Some (1, s')"
    and nl: "load_user buf 1 m = [newline]"
  obtains b old where "g_len s' = 0"
    "aesd_circular_buffer_add_entry (circular_buf s) \<lparr>buffptr = b, esize = g_len s + 1\<rparr> = Some (old, circular_buf s')"
proof -
  have post: "drv_inv s'" "write_post k [newline] s 1 s'"
    using write_total [OF ok inv, of buf 1 m] wr nl by auto
  have errs: "(1 :: s64) \<noteq> - ENOMEM" "(1 :: s64) \<noteq> - EFAULT" "(1 :: s64) \<noteq> - ERESTARTSYS"
    by (simp_all add: errno_defs)
  then have "dev_abs s' = spec_write (dev_abs s) [newline]"
    using post(2) by (simp add: write_post_def)
  then have pend: "dev_pending s' = []"
    by (cases "dev_abs s") (simp add: spec_write_def dev_abs_def)
  have mem: "drv_mem {} s'"
    using post(1) by (simp add: drv_inv_def)
  then have len: "g_len s' = 0" "g_buff s' = NULL"
    using drv_memD(5) [OF mem] pend by (auto simp: pending_backed_def dev_pending_def block_of_def unat_eq_0 split: option.splits)
  show thesis
    using wr errs len that
    by (auto simp: aesd_write_def write_loop.simps [of _ _ _ 0] write_loop.simps [of _ _ _ 1] commit_entry_def
        bind_eq_Some_conv Let_def split: if_splits prod.splits sum.splits option.splits)
qed

section \<open>What goes wrong\<close>

text \<open>Ten commands of two bytes each in slots 0 to 9, three bytes of the next one collected.\<close>

definition torn_entries :: "aesd_buffer_entry list" where
  "torn_entries = map (\<lambda>i. \<lparr>buffptr = Some i, esize = 2\<rparr>) [1..<11]"

definition torn :: aesd_state where
  "torn = aesd_static
     \<lparr>circular_buf := the (push_all aesd_circular_buffer_add_entry aesd_circular_buffer_init torn_entries),
      g_buff := Some 11, g_len := 3,
      kheap := (\<lambda>a. if a = 11 then Some [66, 66, 66] else if 0 < a \<and> a < 11 then Some [65, 10] else None)\<rparr>"

lemma torn_ring: "circular_buf torn = \<lparr>entry = torn_entries, in_offs = 0, out_offs = 0, full = True\<rparr>"
  by code_simp

lemma torn_list: "ring_list (circular_buf torn) = torn_entries"
  by code_simp

lemma torn_inv: "drv_inv torn"
proof -
  have "ring_inv (circular_buf torn)"
    by (auto simp: torn_ring torn_entries_def ring_inv_def live_def)
  moreover have "owned torn = [1, 2, 3, 4, 5, 6, 7, 8, 9, 10, 11]"
    by code_simp
  then have "distinct (owned torn)" "set (owned torn) = {1..<12}"
    by (auto; presburger)+
  moreover have "dom (kheap torn) = {1..<12}"
    by (auto simp: torn_def split: if_splits)
  moreover have "\<forall>e \<in> set (ring_list (circular_buf torn)). entry_backed (kheap torn) e"
    unfolding torn_list by (auto simp: entry_backed_def torn_def torn_entries_def max_entry_def)
  moreover have "pending_backed torn"
    by (simp add: pending_backed_def torn_def max_entry_def newline_def)
  ultimately show ?thesis
    by (simp add: drv_inv_def drv_mem_def) (simp add: torn_def aesd_static_def)
qed

lemma full_size:
  assumes inv: "drv_inv s" and fl: "full (circular_buf s)"
  shows "length (dev_content s) = unat (sum_list (map esize (entry (circular_buf s))))"
    "size_loop (circular_buf s) 1 sz = Some (sz + sum_list (map esize (drop 1 (entry (circular_buf s)))))"
proof -
  have mem: "drv_mem {} s"
    using inv by (simp add: drv_inv_def)
  note ring = drv_memD(1) [OF mem]
  have len: "length (entry (circular_buf s)) = 10"
    using ring by (simp add: ring_inv_def)
  have "Some (sum_list (map esize (entry (circular_buf s)))) = Some (word_of_nat (length (dev_content s)))"
    using size_raw [OF len] size_of_content(1) [OF mem] raw_list_eq [OF ring] fl by simp
  then show "length (dev_content s) = unat (sum_list (map esize (entry (circular_buf s))))"
    using size_of_content(2) [OF mem] by simp
  have "\<forall>e \<in> set (entry (circular_buf s)). buffptr e \<noteq> NULL"
    using ring fl by (simp add: ring_inv_def live_def)
  then have "takeWhile (\<lambda>e. buffptr e \<noteq> NULL) (drop 1 (entry (circular_buf s))) = drop 1 (entry (circular_buf s))"
    using in_set_dropD by (metis (mono_tags, lifting) takeWhile_eq_all_conv)
  then show "size_loop (circular_buf s) 1 sz = Some (sz + sum_list (map esize (drop 1 (entry (circular_buf s)))))"
    using size_loop_sum [OF len, of 1 sz] by (simp only: one_le_numeral simp_thms)
qed

lemma torn_write:
  assumes inv: "drv_inv s" and g: "length (dev_pending s) < 10"
  obtains s' b old where "aesd_write demo_kernel 0 1 (\<lambda>_. 10) s = Some (1, s')" "drv_inv s'" "g_len s' = 0"
    "aesd_circular_buffer_add_entry (circular_buf s) \<lparr>buffptr = b, esize = g_len s + 1\<rparr> = Some (old, circular_buf s')"
    "dev_pending s' = []"
proof -
  have nl: "load_user 0 1 (\<lambda>_. 10) = [newline]"
    by (simp add: load_user_def newline_def)
  obtain s' where s': "aesd_write demo_kernel 0 1 (\<lambda>_. 10) s = Some (1, s')" "drv_inv s'"
    "dev_abs s' = spec_write (dev_abs s) [newline]"
    using write_succeeds [OF demo_kernel_ok demo_roomy inv, of 1 0 "\<lambda>_. 10"] g nl by (auto simp: demo_calls)
  moreover have "dev_pending s' = []"
    using s'(3) by (cases "dev_abs s") (simp add: spec_write_def dev_abs_def)
  ultimately show thesis
    using newline_commits [OF demo_kernel_ok inv s'(1) nl] that by metis
qed

text \<open>Two writes that complete a command each, the first the pending one.\<close>

lemma torn_two_writes:
  obtains s1 s2 b1 b2 where "aesd_write demo_kernel 0 1 (\<lambda>_. 10) torn = Some (1, s1)"
      "aesd_write demo_kernel 0 1 (\<lambda>_. 10) s1 = Some (1, s2)" "drv_inv s1" "drv_inv s2"
      "circular_buf s1 = \<lparr>entry = torn_entries[0 := \<lparr>buffptr = b1, esize = 4\<rparr>], in_offs = 1, out_offs = 1, full = True\<rparr>"
      "circular_buf s2 = \<lparr>entry = torn_entries[0 := \<lparr>buffptr = b1, esize = 4\<rparr>, 1 := \<lparr>buffptr = b2, esize = 1\<rparr>],
        in_offs = 2, out_offs = 2, full = True\<rparr>"
proof -
  have "length (dev_pending torn) = 3" and g_len: "g_len torn = 3"
    by (simp_all add: dev_pending_def block_of_def torn_def)
  then obtain s1 b1 o1 where s1: "aesd_write demo_kernel 0 1 (\<lambda>_. 10) torn = Some (1, s1)" "drv_inv s1" "g_len s1 = 0"
    "aesd_circular_buffer_add_entry (circular_buf torn) \<lparr>buffptr = b1, esize = g_len torn + 1\<rparr> = Some (o1, circular_buf s1)"
    "dev_pending s1 = []"
    using torn_write [OF torn_inv] by auto
  have "length (dev_pending s1) < 10"
    using s1(5) by simp
  then obtain s2 b2 o2 where s2: "aesd_write demo_kernel 0 1 (\<lambda>_. 10) s1 = Some (1, s2)" "drv_inv s2"
    "aesd_circular_buffer_add_entry (circular_buf s1) \<lparr>buffptr = b2, esize = g_len s1 + 1\<rparr> = Some (o2, circular_buf s2)"
    using torn_write [OF s1(2)] by metis
  have ring1: "circular_buf s1 = \<lparr>entry = torn_entries[0 := \<lparr>buffptr = b1, esize = 4\<rparr>], in_offs = 1, out_offs = 1, full = True\<rparr>"
    using s1(4) by (auto simp: aesd_circular_buffer_add_entry_def torn_ring array_get_def array_set_def Let_def
        next_offs_def g_len torn_entries_def split: if_splits)
  have ring2: "circular_buf s2 = \<lparr>entry = torn_entries[0 := \<lparr>buffptr = b1, esize = 4\<rparr>, 1 := \<lparr>buffptr = b2, esize = 1\<rparr>],
      in_offs = 2, out_offs = 2, full = True\<rparr>"
    using s2(3) s1(3) by (auto simp: aesd_circular_buffer_add_entry_def ring1 array_get_def array_set_def Let_def
        next_offs_def torn_entries_def split: if_splits)
  show thesis
    by (rule that [OF s1(1) s2(1) s1(2) s2(2) ring1 ring2])
qed

text \<open>
  C14 (a size that never was): a program seeks to byte 19 while another completes two commands. The walk
  has counted slot 0 with its old two bytes and counts slot 1 with its new single byte, so it comes
  out at 19 and the seek is refused; yet at every moment the device had more than 19 bytes, and the
  call without writes in between moves the file there.
\<close>

theorem seek_refuses_valid_position:
  "\<exists>run. run \<noteq> [] \<and> successively racing run \<and> hd run = (torn, At 0 0) \<and> snd (last run) = Done 19 \<and>
     seek_with \<lparr>f_pos = 0\<rparr> 19 SEEK_SET 19 = (- EINVAL, \<lparr>f_pos = 0\<rparr>) \<and>
     list_all (\<lambda>(s, w). drv_inv s \<and> aesd_seek \<lparr>f_pos = 0\<rparr> 19 SEEK_SET s = Some (19, \<lparr>f_pos = 19\<rparr>)) run"
proof -
  obtain s1 s2 b1 b2 where w: "aesd_write demo_kernel 0 1 (\<lambda>_. 10) torn = Some (1, s1)"
      "aesd_write demo_kernel 0 1 (\<lambda>_. 10) s1 = Some (1, s2)"
    and inv: "drv_inv s1" "drv_inv s2"
    and ring: "circular_buf s1 = \<lparr>entry = torn_entries[0 := \<lparr>buffptr = b1, esize = 4\<rparr>], in_offs = 1, out_offs = 1, full = True\<rparr>"
      "circular_buf s2 = \<lparr>entry = torn_entries[0 := \<lparr>buffptr = b1, esize = 4\<rparr>, 1 := \<lparr>buffptr = b2, esize = 1\<rparr>],
        in_offs = 2, out_offs = 2, full = True\<rparr>"
    by (rule torn_two_writes)
  have sizes: "map esize (entry (circular_buf torn)) = [2, 2, 2, 2, 2, 2, 2, 2, 2, 2]"
    "map esize (entry (circular_buf s1)) = [4, 2, 2, 2, 2, 2, 2, 2, 2, 2]"
    "map esize (entry (circular_buf s2)) = [4, 1, 2, 2, 2, 2, 2, 2, 2, 2]"
    "map esize (drop 1 (entry (circular_buf s2))) = [1, 2, 2, 2, 2, 2, 2, 2, 2]"
    by (simp_all add: torn_ring ring torn_entries_def upt_rec)
  have len: "length (dev_content torn) = 20" "length (dev_content s1) = 22" "length (dev_content s2) = 21"
    using full_size(1) [OF torn_inv] full_size(1) [OF inv(1)] full_size(1) [OF inv(2)] sizes
    by (simp_all add: torn_ring ring)
  have seek: "aesd_seek \<lparr>f_pos = 0\<rparr> 19 SEEK_SET s = Some (19, \<lparr>f_pos = 19\<rparr>)" if "drv_inv s" "19 < length (dev_content s)" for s
    using seek_total [OF that(1), of "\<lparr>f_pos = 0\<rparr>" 19 SEEK_SET] that(2) by (simp add: seek_target_def)
  have "size_loop (circular_buf s2) 1 2 = Some 19"
    using full_size(2) [OF inv(2), of 2] sizes(4) by (simp add: ring)
  then obtain run where run: "successively racing ((s2, At 1 2) # run @ [(s2, Done 19)])" "\<forall>q \<in> set run. fst q = s2"
    using undisturbed_run by blast
  have steps: "racing (torn, At 0 0) (torn, At 1 2)" "racing (torn, At 1 2) (s1, At 1 2)" "racing (s1, At 1 2) (s2, At 1 2)"
    using racing.turn [of torn 0 0 "At 1 2"] racing.other [OF demo_kernel_ok w(1)] racing.other [OF demo_kernel_ok w(2)]
    by (simp_all add: size_turn_def torn_ring torn_entries_def array_get_def AESDCHAR_MAX_WRITE_OPERATIONS_SUPPORTED_def)
  let ?run = "(torn, At 0 0) # (torn, At 1 2) # (s1, At 1 2) # (s2, At 1 2) # run @ [(s2, Done 19)]"
  have "list_all (\<lambda>(s, w). drv_inv s \<and> aesd_seek \<lparr>f_pos = 0\<rparr> 19 SEEK_SET s = Some (19, \<lparr>f_pos = 19\<rparr>)) ?run"
    using run(2) seek torn_inv inv len by (auto simp: list_all_iff)
  moreover have "seek_with \<lparr>f_pos = 0\<rparr> 19 SEEK_SET 19 = (- EINVAL, \<lparr>f_pos = 0\<rparr>)"
    by (simp add: seek_with_def)
  ultimately show ?thesis
    using run(1) steps by (intro exI [of _ ?run]) simp
qed

text \<open>
  Seeking without the lock: however writes fall between the turns of the walk, every turn is
  defined, the size that comes out is at most that of ten entries, and the file stays where every
  later call is defined.
\<close>

theorem unlocked_seek_safe:
  assumes "drv_inv s" "racing\<^sup>*\<^sup>* (s, At 0 0) (s', w)" "file_ok f"
  shows "drv_inv s' \<and>
    (case w of
       At i sz \<Rightarrow> size_turn (circular_buf s') i sz \<noteq> None
     | Done n \<Rightarrow> unat n \<le> 10 * 2 ^ 28 \<and> file_ok (snd (seek_with f off whence n)))"
proof -
  have "drv_inv s'" "walk_ok w"
    using racing_keeps [OF assms(2)] assms(1) by simp_all
  then show ?thesis
    using size_turn_ok [of s'] seek_with_ok [OF _ assms(3)]
    by (cases w) (fastforce simp: max_entry_def)+
qed

theorem unlocked_seek_safe_witness:
  "\<exists>s'. racing\<^sup>*\<^sup>* (torn, At 0 0) (s', At 0 0) \<and> size_turn (circular_buf s') 0 0 \<noteq> None \<and> dev_pending s' = []"
proof -
  have "length (dev_pending torn) < 10"
    by (simp add: dev_pending_def block_of_def torn_def)
  then obtain s' where s': "aesd_write demo_kernel 0 1 (\<lambda>_. 10) torn = Some (1, s')" "dev_pending s' = []"
    using torn_write [OF torn_inv] by metis
  then have "racing\<^sup>*\<^sup>* (torn, At 0 0) (s', At 0 0)"
    using racing.other [OF demo_kernel_ok s'(1)] by blast
  then show ?thesis
    using unlocked_seek_safe [OF torn_inv, of s' "At 0 0" "\<lparr>f_pos = 0\<rparr>"] s'(2) by (auto simp: file_ok_def)
qed

end
