(* ===== verification/IoctlRace.thy ===== *)
theory IoctlRace
  imports DriverRace
begin

text \<open>
  \<open>aesd_unlocked_ioctl\<close> counts the commands, looks at one slot and walks over the ring, all without the
  lock. Here it is taken apart at its reads of the ring, with whole writes of other programs between
  them: nothing undefined happens, but the file may come to a byte where no single moment puts it.
\<close>

section \<open>The call, read by read\<close>

text \<open>
  Where the call is: in the loop of \<open>aesd_circullar_buffer_size\<close>, at the \<open>switch\<close> with the count, in the loop of
  \<open>aesd_circular_buffer_seek\<close> for a command that was accepted, or returned.
\<close>

datatype ioctl_walk = Counting nat u64 | Checking u64 | Walking aesd_seekto nat u64 | Returned s64 kfile

definition count_turn :: "aesd_circular_buffer \<Rightarrow> nat \<Rightarrow> u64 \<Rightarrow> ioctl_walk option" where
  "count_turn buffer i sz =
     (if i < AESDCHAR_MAX_WRITE_OPERATIONS_SUPPORTED then do {
        e \<leftarrow> array_get (entry buffer) i;
        if buffptr e \<noteq> NULL then Some (Counting (i + 1) (sz + 1)) else Some (Checking sz)
      }
      else Some (Checking sz))"

definition check_turn :: "kernel \<Rightarrow> kfile \<Rightarrow> u32 \<Rightarrow> u64 \<Rightarrow> umem \<Rightarrow> aesd_circular_buffer \<Rightarrow> u64 \<Rightarrow> ioctl_walk option" where
  "check_turn k filep cmd arg m buffer buf_cmd_size =
     (if cmd = AESDCHAR_IOCSEEKTO then do {
        let (rc, bs) = k_copy_from_user k arg 8 m;
        if rc \<noteq> 0 then Some (Returned (- EFAULT) filep)
        else do {
          let seekCmd = seekto_of_bytes bs;
          if unat (write_cmd seekCmd) \<ge> AESDCHAR_MAX_WRITE_OPERATIONS_SUPPORTED
             \<or> ucast (write_cmd seekCmd) \<ge> buf_cmd_size
          then Some (Returned (- EINVAL) filep)
          else do {
            e \<leftarrow> array_get (entry buffer) (unat (write_cmd seekCmd));
            if esize e < ucast (write_cmd_offset seekCmd) then Some (Returned (- EINVAL) filep)
            else Some (Walking seekCmd 0 0)
          }
        }
      }
      else Some (Returned (- EINVAL) filep))"

text \<open>The end of the walk: the offset inside the command is added, the file moves.\<close>

definition arrive :: "kfile \<Rightarrow> aesd_seekto \<Rightarrow> u64 \<Rightarrow> ioctl_walk" where
  "arrive filep seekCmd np =
     (let np = np + ucast (write_cmd_offset seekCmd) in Returned np (filep\<lparr>f_pos := np\<rparr>))"

definition walk_turn :: "kfile \<Rightarrow> aesd_circular_buffer \<Rightarrow> aesd_seekto \<Rightarrow> nat \<Rightarrow> u64 \<Rightarrow> ioctl_walk option" where
  "walk_turn filep buffer seekCmd i off =
     (if unat (write_cmd seekCmd) < AESDCHAR_MAX_WRITE_OPERATIONS_SUPPORTED
         \<and> i < AESDCHAR_MAX_WRITE_OPERATIONS_SUPPORTED then do {
        e \<leftarrow> array_get (entry buffer) i;
        if buffptr e = NULL \<or> i = unat (write_cmd seekCmd) then Some (arrive filep seekCmd off)
        else Some (Walking seekCmd (i + 1) (off + esize e))
      }
      else Some (arrive filep seekCmd off))"

fun ioctl_turn :: "kernel \<Rightarrow> kfile \<Rightarrow> u32 \<Rightarrow> u64 \<Rightarrow> umem \<Rightarrow> aesd_circular_buffer \<Rightarrow> ioctl_walk \<Rightarrow> ioctl_walk option" where
  "ioctl_turn k filep cmd arg m buffer (Counting i sz) = count_turn buffer i sz"
| "ioctl_turn k filep cmd arg m buffer (Checking n) = check_turn k filep cmd arg m buffer n"
| "ioctl_turn k filep cmd arg m buffer (Walking seekCmd i off) = walk_turn filep buffer seekCmd i off"
| "ioctl_turn k filep cmd arg m buffer (Returned r f) = Some (Returned r f)"

text \<open>A turn of the call, or a write of another program under the lock.\<close>

inductive ioctl_racing ::
  "kernel \<Rightarrow> kfile \<Rightarrow> u32 \<Rightarrow> u64 \<Rightarrow> umem \<Rightarrow> aesd_state \<times> ioctl_walk \<Rightarrow> aesd_state \<times> ioctl_walk \<Rightarrow> bool"
  for k filep cmd arg m where
  turn: "ioctl_turn k filep cmd arg m (circular_buf s) w = Some w' \<Longrightarrow> ioctl_racing k filep cmd arg m (s, w) (s, w')"
| other: "kernel_ok k' \<Longrightarrow> aesd_write k' buf count m' s = Some (r, s') \<Longrightarrow> ioctl_racing k filep cmd arg m (s, w) (s', w)"

section \<open>The turns make up the call\<close>

text \<open>Turns on a ring that nobody changes.\<close>

definition undisturbed :: "kernel \<Rightarrow> kfile \<Rightarrow> u32 \<Rightarrow> u64 \<Rightarrow> umem \<Rightarrow> aesd_circular_buffer \<Rightarrow> ioctl_walk \<Rightarrow> ioctl_walk \<Rightarrow> bool" where
  "undisturbed k filep cmd arg m b = (\<lambda>w w'. ioctl_turn k filep cmd arg m b w = Some w')\<^sup>*\<^sup>*"

lemma undisturbed_turn:
  "ioctl_turn k f cmd arg m b w = Some w1 \<Longrightarrow> undisturbed k f cmd arg m b w1 w2 \<Longrightarrow> undisturbed k f cmd arg m b w w2"
  unfolding undisturbed_def by (rule converse_rtranclp_into_rtranclp)

lemma undisturbed_here [simp]: "undisturbed k f cmd arg m b w w"
  by (simp add: undisturbed_def)

lemma undisturbed_trans:
  "undisturbed k f cmd arg m b w w1 \<Longrightarrow> undisturbed k f cmd arg m b w1 w2 \<Longrightarrow> undisturbed k f cmd arg m b w w2"
  unfolding undisturbed_def by (rule rtranclp_trans)

lemma count_alone:
  "count_loop b i sz = Some n \<Longrightarrow> undisturbed k f cmd arg m b (Counting i sz) (Checking n)"
proof (induction b i sz rule: count_loop.induct)
  case (1 b i sz)
  show ?case
  proof (cases "ioctl_turn k f cmd arg m b (Counting i sz) = Some (Checking n)")
    case True
    then show ?thesis
      by (rule undisturbed_turn) simp
  next
    case False
    then obtain e where e: "i < AESDCHAR_MAX_WRITE_OPERATIONS_SUPPORTED" "array_get (entry b) i = Some e" "buffptr e \<noteq> NULL"
      and rest: "count_loop b (i + 1) (sz + 1) = Some n"
      using "1.prems" by (subst (asm) count_loop.simps) (auto simp: count_turn_def bind_eq_Some_conv split: if_splits)
    show ?thesis
      by (rule undisturbed_turn [OF _ "1.IH" [OF e rest]]) (use e in \<open>simp add: count_turn_def\<close>)
  qed
qed

lemma walk_alone:
  assumes "unat (write_cmd sk) < AESDCHAR_MAX_WRITE_OPERATIONS_SUPPORTED"
  shows "seek_loop b (write_cmd sk) i off = Some n \<Longrightarrow> undisturbed k f cmd arg m b (Walking sk i off) (arrive f sk n)"
proof (induction b "write_cmd sk" i off rule: seek_loop.induct)
  case (1 b i off)
  show ?case
  proof (cases "ioctl_turn k f cmd arg m b (Walking sk i off) = Some (arrive f sk n)")
    case True
    then show ?thesis
      by (rule undisturbed_turn) simp
  next
    case False
    then obtain e where e: "i < AESDCHAR_MAX_WRITE_OPERATIONS_SUPPORTED" "array_get (entry b) i = Some e"
        "\<not> (buffptr e = NULL \<or> i = unat (write_cmd sk))"
      and rest: "seek_loop b (write_cmd sk) (i + 1) (off + esize e) = Some n"
      using "1.prems" assms
      by (subst (asm) seek_loop.simps) (auto simp: walk_turn_def bind_eq_Some_conv split: if_splits)
    show ?thesis
      by (rule undisturbed_turn [OF _ "1.hyps" [OF e rest]]) (use e assms in \<open>auto simp: walk_turn_def\<close>)
  qed
qed




lemma racing_alone:
  assumes "undisturbed k f cmd arg m (circular_buf s) w w'"
  shows "(ioctl_racing k f cmd arg m)\<^sup>*\<^sup>* (s, w) (s, w')"
  using assms unfolding undisturbed_def
  by (induction rule: rtranclp_induct) (auto intro: ioctl_racing.turn rtranclp.rtrancl_into_rtrancl)

section \<open>What holds all the same\<close>











section \<open>What goes wrong\<close>

text \<open>
  A program asks for the start of the third command while another completes two commands. The walk adds the
  old two bytes of slot 0 and the new single byte of slot 1 and moves the file to byte 3, inside a command; the
  call itself, at each of the three states of the device, moves it to byte 4, 6 or 5.
\<close>

definition third_command :: umem where
  "third_command = demo_mem [2, 0, 0, 0, 0, 0, 0, 0]"

theorem ioctl_lands_between:
  "\<exists>s1 s2. list_all2 (\<lambda>s p. aesd_unlocked_ioctl demo_kernel \<lparr>f_pos = 0\<rparr> AESDCHAR_IOCSEEKTO 0 third_command s = Some (p, \<lparr>f_pos = p\<rparr>))
       [torn, s1, s2] [4, 6, 5] \<and>
     aesd_write demo_kernel 0 1 (\<lambda>_. 10) torn = Some (1, s1) \<and> aesd_write demo_kernel 0 1 (\<lambda>_. 10) s1 = Some (1, s2) \<and>
     (ioctl_racing demo_kernel \<lparr>f_pos = 0\<rparr> AESDCHAR_IOCSEEKTO 0 third_command)\<^sup>*\<^sup>*
       (torn, Counting 0 0) (s2, Returned 3 \<lparr>f_pos = 3\<rparr>)"
proof -
  obtain s1 s2 b1 b2 where w: "aesd_write demo_kernel 0 1 (\<lambda>_. 10) torn = Some (1, s1)"
      "aesd_write demo_kernel 0 1 (\<lambda>_. 10) s1 = Some (1, s2)"
    and inv: "drv_inv s1" "drv_inv s2"
    and ring: "circular_buf s1 = \<lparr>entry = torn_entries[0 := \<lparr>buffptr = b1, esize = 4\<rparr>], in_offs = 1, out_offs = 1, full = True\<rparr>"
      "circular_buf s2 = \<lparr>entry = torn_entries[0 := \<lparr>buffptr = b1, esize = 4\<rparr>, 1 := \<lparr>buffptr = b2, esize = 1\<rparr>],
        in_offs = 2, out_offs = 2, full = True\<rparr>"
    by (rule torn_two_writes)
  let ?sk = "\<lparr>write_cmd = 2, write_cmd_offset = 0\<rparr>"
  have "load_user 0 8 third_command = seekto_bytes ?sk"
    by (simp add: third_command_def demo_mem_def seekto_bytes_def le_bytes_def)
  then have sk: "seekto_of_bytes (load_user 0 8 third_command) = ?sk"
    by (simp only: seekto_of_bytes_bytes)
  have call: "aesd_unlocked_ioctl demo_kernel \<lparr>f_pos = 0\<rparr> AESDCHAR_IOCSEEKTO 0 third_command s = Some (p, \<lparr>f_pos = p\<rparr>)"
    if "drv_inv s" "full (circular_buf s)" "map (\<lambda>e. unat (esize e)) (entry (circular_buf s)) = a # b # c # ls"
      "p = word_of_nat (a + b)" for s p a b c ls
  proof -
    have mem: "drv_mem {} s"
      using that(1) by (simp add: drv_inv_def)
    have "map length (dev_raw s) = a # b # c # ls"
      using raw_sizes [OF mem] raw_list_eq [OF drv_memD(1) [OF mem]] that(2,3) by simp
    then have "ioctl_target (dev_raw s) 2 0 = Some (a + b)"
      by (auto simp: ioctl_target_def Cons_eq_map_conv map_eq_Cons_conv)
    then show ?thesis
      unfolding ioctl_total [OF demo_kernel_ok that(1)] sk using that(4) by (simp add: demo_calls)
  qed
  have sizes: "map (\<lambda>e. unat (esize e)) (entry (circular_buf torn)) = [2, 2, 2, 2, 2, 2, 2, 2, 2, 2]"
    "map (\<lambda>e. unat (esize e)) (entry (circular_buf s1)) = [4, 2, 2, 2, 2, 2, 2, 2, 2, 2]"
    "map (\<lambda>e. unat (esize e)) (entry (circular_buf s2)) = [4, 1, 2, 2, 2, 2, 2, 2, 2, 2]"
    by (simp_all add: torn_ring ring torn_entries_def upt_rec)
  have calls: "list_all2 (\<lambda>s p. aesd_unlocked_ioctl demo_kernel \<lparr>f_pos = 0\<rparr> AESDCHAR_IOCSEEKTO 0 third_command s = Some (p, \<lparr>f_pos = p\<rparr>))
       [torn, s1, s2] [4, 6, 5]"
    using call [OF torn_inv _ sizes(1), of 4] call [OF inv(1) _ sizes(2), of 6] call [OF inv(2) _ sizes(3), of 5]
    by (simp add: torn_ring ring)
  let ?R = "ioctl_racing demo_kernel \<lparr>f_pos = 0\<rparr> AESDCHAR_IOCSEEKTO 0 third_command"
  let ?U = "undisturbed demo_kernel \<lparr>f_pos = 0\<rparr> AESDCHAR_IOCSEEKTO 0 third_command"
  have before: "?U (circular_buf torn) (Counting 0 0) (Walking ?sk 1 2)"
  proof -
    have count: "count_loop (circular_buf torn) 0 0 = Some 10"
      by code_simp
    obtain bs where bs: "k_copy_from_user demo_kernel 0 8 third_command = (0, bs)"
      by (simp add: demo_kernel_def)
    then have "bs = load_user 0 8 third_command"
      by (simp add: demo_kernel_def)
    then have "seekto_of_bytes bs = ?sk"
      using sk by (simp only:)
    then have check: "check_turn demo_kernel \<lparr>f_pos = 0\<rparr> AESDCHAR_IOCSEEKTO 0 third_command (circular_buf torn) 10 = Some (Walking ?sk 0 0)"
      using bs by (simp add: check_turn_def torn_ring torn_entries_def array_get_def upt_rec
          AESDCHAR_MAX_WRITE_OPERATIONS_SUPPORTED_def)
    have walk: "walk_turn \<lparr>f_pos = 0\<rparr> (circular_buf torn) ?sk 0 0 = Some (Walking ?sk 1 2)"
      by (simp add: walk_turn_def torn_ring torn_entries_def array_get_def AESDCHAR_MAX_WRITE_OPERATIONS_SUPPORTED_def)
    have "?U (circular_buf torn) (Walking ?sk 0 0) (Walking ?sk 1 2)"
      by (rule undisturbed_turn [OF _ undisturbed_here]) (simp only: ioctl_turn.simps walk)
    then have "?U (circular_buf torn) (Checking 10) (Walking ?sk 1 2)"
      by (rule undisturbed_turn [rotated]) (simp only: ioctl_turn.simps check)
    then show ?thesis
      by (rule undisturbed_trans [OF count_alone [OF count]])
  qed
  have after: "?U (circular_buf s2) (Walking ?sk 1 2) (Returned 3 \<lparr>f_pos = 3\<rparr>)"
  proof -
    have "ring_inv (circular_buf s2)"
      using inv(2) drv_memD(1) by (auto simp: drv_inv_def)
    then have "b2 \<noteq> NULL"
      by (simp add: ring ring_inv_def live_def torn_entries_def upt_rec)
    then have "seek_loop (circular_buf s2) 2 1 2 = Some 3"
      by (simp add: seek_loop.simps ring torn_entries_def array_get_def AESDCHAR_MAX_WRITE_OPERATIONS_SUPPORTED_def upt_rec)
    then show ?thesis
      using walk_alone [of ?sk "circular_buf s2" 1 2 3 demo_kernel "\<lparr>f_pos = 0\<rparr>"] by (simp add: arrive_def)
  qed
  have "?R\<^sup>*\<^sup>* (torn, Counting 0 0) (torn, Walking ?sk 1 2)"
    by (rule racing_alone [OF before])
  also have "?R (torn, Walking ?sk 1 2) (s1, Walking ?sk 1 2)"
    by (rule ioctl_racing.other [OF demo_kernel_ok w(1)])
  also have "?R (s1, Walking ?sk 1 2) (s2, Walking ?sk 1 2)"
    by (rule ioctl_racing.other [OF demo_kernel_ok w(2)])
  also have "?R\<^sup>*\<^sup>* (s2, Walking ?sk 1 2) (s2, Returned 3 \<lparr>f_pos = 3\<rparr>)"
    by (rule racing_alone [OF after])
  finally show ?thesis
    using calls w by blast
qed

end
