(* ===== verification/LogDevice.thy ===== *)
theory LogDevice
  imports DriverLifecycle
begin

text \<open>
  The interface between the socket server and the file it logs to. The server sees the operating
  system through a record of calls; the laws of the log device are a locale in which the server's
  lemmas are proved; the character driver of this project, reached through the system call layer
  (\<open>-errno\<close> becomes \<open>-1\<close>, \<open>ssize_t\<close> and \<open>long\<close> results become \<open>int\<close>), is its interpretation.
\<close>

section \<open>The calls\<close>

text \<open>
  \<open>'d\<close> is the state of the device behind the log path. \<open>p_open\<close> gives the new descriptor, negative
  on failure, for the table of open log descriptors; \<open>p_log_read n off\<close> the result, the bytes
  stored and the new offset; \<open>p_log_ioctl\<close> the result and the new offset; \<open>p_net_write fd bs\<close> how
  many bytes the client's socket took; \<open>p_mutex_lock\<close> the return code of \<open>pthread_mutex_lock\<close>.
  \<^term>\<open>None\<close> is a call that is undefined or never returns.
\<close>

record 'd posix =
  p_open :: "(int \<rightharpoonup> s64) \<Rightarrow> 'd \<Rightarrow> int"
  p_log_write :: "byte list \<Rightarrow> 'd \<Rightarrow> (int \<times> 'd) option"
  p_log_read :: "nat \<Rightarrow> s64 \<Rightarrow> 'd \<Rightarrow> (int \<times> byte list \<times> s64 \<times> 'd) option"
  p_log_ioctl :: "aesd_seekto \<Rightarrow> s64 \<Rightarrow> 'd \<Rightarrow> (int \<times> s64 \<times> 'd) option"
  p_net_write :: "int \<Rightarrow> byte list \<Rightarrow> int"
  p_mutex_lock :: int

section \<open>The contract\<close>

text \<open>
  What reading the log relies on: the log opens, and a read gives the bytes of the content at the
  offset, as many as asked and there, and changes nothing.
\<close>

locale readable_log =
  fixes P :: "'d posix"
    and content :: "'d \<Rightarrow> byte list"
    and dinv :: "'d \<Rightarrow> bool"
  assumes open_law: "finite (dom fds) \<Longrightarrow> 0 \<le> p_open P fds d \<and> fds (p_open P fds d) = None"
    and read_law: "dinv d \<Longrightarrow> n < 2 ^ 31 \<Longrightarrow>
      p_log_read P n off d =
        (let j = min n (length (content d) - unat off)
         in Some (int j, take j (drop (unat off) (content d)), off + word_of_nat j, d))"
    and content_law: "dinv d \<Longrightarrow> length (content d) < 2 ^ 62"

text \<open>The log device: what is written is remembered as commands, \<open>ioctl\<close> finds a byte of a slot.\<close>

locale log_device = readable_log P "\<lambda>d. concat (fst (dabs d))" dinv
  for P :: "'d posix"
    and dabs :: "'d \<Rightarrow> device"
    and dslots :: "'d \<Rightarrow> byte list list"
    and dinv :: "'d \<Rightarrow> bool"
    and dlimit :: nat +
  assumes write_law: "dinv d \<Longrightarrow> length (snd (dabs d)) + length bs \<le> dlimit \<Longrightarrow> length bs < 2 ^ 31 \<Longrightarrow>
      \<exists>d'. p_log_write P bs d = Some (int (length bs), d') \<and> dinv d' \<and> dabs d' = spec_write (dabs d) bs"
    and ioctl_law: "dinv d \<Longrightarrow> \<exists>r. r \<noteq> - 1 \<and>
      p_log_ioctl P sk off d = Some
        (case ioctl_target (dslots d) (unat (write_cmd sk)) (unat (write_cmd_offset sk)) of
           None \<Rightarrow> (- 1, off, d)
         | Some p \<Rightarrow> (r, word_of_nat p, d))"
    and slots_law: "dinv d \<Longrightarrow> \<exists>n. fst (dabs d) = rotate n (dslots d)"
begin

text \<open>The target of an accepted ioctl is inside the content, its end included.\<close>

lemma ioctl_in_content:
  assumes d: "dinv d" and t: "ioctl_target (dslots d) c off = Some p"
  shows "p \<le> length (concat (fst (dabs d)))"
proof -
  have c: "c < length (dslots d)" "off \<le> length (dslots d ! c)"
    and p: "p = sum_list (map length (take c (dslots d))) + off"
    using t by (auto simp: ioctl_target_def split: if_splits)
  have "sum_list (map length (take (Suc c) (dslots d))) \<le> sum_list (map length (dslots d))"
    by (metis sum_take_le take_map)
  moreover have "sum_list (map length (take (Suc c) (dslots d))) =
      sum_list (map length (take c (dslots d))) + length (dslots d ! c)"
    using c(1) by (simp add: take_Suc_conv_app_nth)
  moreover obtain n where "fst (dabs d) = rotate n (dslots d)"
    using slots_law [OF d] by blast
  then have "length (concat (fst (dabs d))) = sum_list (map length (dslots d))"
    by (simp add: length_concat sum_list_rotate flip: rotate_map)
  ultimately show ?thesis
    using p c(2) by linarith
qed

end

section \<open>The driver behind the system call layer\<close>

text \<open>User memory with the buffer of the call at address 0.\<close>

definition user_buffer :: "byte list \<Rightarrow> umem" where
  "user_buffer bs = (\<lambda>a. if unat a < length bs then bs ! unat a else 0)"

definition ret_of :: "s64 \<Rightarrow> int" where
  "ret_of r = (if sint r < 0 then - 1 else sint r)"

text \<open>\<open>ioctl\<close> returns \<open>int\<close>: the error numbers become \<open>-1\<close>, other results keep their low 32 bits.\<close>

definition ioctl_ret :: "s64 \<Rightarrow> int" where
  "ioctl_ret r = (if - 4095 \<le> sint r \<and> sint r \<le> - 1 then - 1 else sint (ucast r :: u32))"

definition driver_write :: "kernel \<Rightarrow> byte list \<Rightarrow> aesd_state \<Rightarrow> (int \<times> aesd_state) option" where
  "driver_write k bs s = do {
     (r, s) \<leftarrow> aesd_write k 0 (word_of_nat (length bs)) (user_buffer bs) s;
     Some (ret_of r, s)
   }"

definition driver_read ::
  "kernel \<Rightarrow> nat \<Rightarrow> s64 \<Rightarrow> aesd_state \<Rightarrow> (int \<times> byte list \<times> s64 \<times> aesd_state) option" where
  "driver_read k n off s = do {
     (r, off, m, s) \<leftarrow> aesd_read k 0 (word_of_nat n) off (user_buffer []) s;
     Some (ret_of r, load_user 0 (nat (ret_of r)) m, off, s)
   }"

definition driver_ioctl ::
  "kernel \<Rightarrow> aesd_seekto \<Rightarrow> s64 \<Rightarrow> aesd_state \<Rightarrow> (int \<times> s64 \<times> aesd_state) option" where
  "driver_ioctl k sk off s = do {
     (r, f) \<leftarrow> aesd_unlocked_ioctl k \<lparr>f_pos = off\<rparr> AESDCHAR_IOCSEEKTO 0 (user_buffer (seekto_bytes sk)) s;
     Some (ioctl_ret r, f_pos f, s)
   }"

definition driver_posix ::
  "kernel \<Rightarrow> ((int \<rightharpoonup> s64) \<Rightarrow> int) \<Rightarrow> (int \<Rightarrow> byte list \<Rightarrow> int) \<Rightarrow> aesd_state posix" where
  "driver_posix k pick net =
     \<lparr>p_open = (\<lambda>fds d. pick fds), p_log_write = driver_write k, p_log_read = driver_read k,
      p_log_ioctl = driver_ioctl k, p_net_write = net, p_mutex_lock = 0\<rparr>"

lemma load_user_buffer: "length bs < 2 ^ 64 \<Longrightarrow> load_user 0 (length bs) (user_buffer bs) = bs"
  by (rule nth_equalityI) (simp_all add: load_user_def user_buffer_def unat_of_nat_small)

lemma load_store_user: "length bs < 2 ^ 64 \<Longrightarrow> load_user a (length bs) (store_user a bs m) = bs"
proof (induction bs rule: rev_induct)
  case (snoc b bs)
  let ?M = "store_user a bs m"
  have other: "(?M(a + word_of_nat (length bs) := b)) (a + word_of_nat i) = ?M (a + word_of_nat i)"
    if i: "i < length bs" for i
  proof -
    have "unat (word_of_nat i :: u64) = i" "unat (word_of_nat (length bs) :: u64) = length bs"
      using i snoc.prems by (auto intro!: unat_of_nat_small)
    then have "(word_of_nat i :: u64) \<noteq> word_of_nat (length bs)"
      using i by (metis nat_neq_iff)
    then show ?thesis
      by simp
  qed
  have "load_user a (length bs) (?M(a + word_of_nat (length bs) := b)) = load_user a (length bs) ?M"
    unfolding load_user_def by (rule map_cong) (simp_all only: other set_upt atLeastLessThan_iff)
  also have "\<dots> = bs"
    using snoc by simp
  finally show ?case
    by (simp add: load_user_def store_user_append)
qed (simp add: load_user_def)

lemma ioctl_target_bound:
  assumes mem: "drv_mem X s" and t: "ioctl_target (dev_raw s) c off = Some p"
  shows "p \<le> 10 * 2 ^ 28"
proof -
  have c: "c < length (dev_raw s)" and p: "p = sum_list (map length (take c (dev_raw s))) + off"
    and off: "off \<le> length (dev_raw s ! c)"
    using t by (auto simp: ioctl_target_def split: if_splits)
  have "sum_list (map length (take (Suc c) (dev_raw s))) =
      sum_list (map length (take c (dev_raw s))) + length (dev_raw s ! c)"
    using c by (simp add: take_Suc_conv_app_nth)
  then show ?thesis
    using raw_sum_bound [OF mem, of "Suc c"] p off by simp
qed

lemma minus_one_u32: "unat (- 1 :: u32) = 4294967295"
  by (simp add: unsigned_minus_1_eq_mask mask_eq_exp_minus_1)

lemma ioctl_ret_pos:
  assumes "p \<le> 10 * 2 ^ 28"
  shows "ioctl_ret (word_of_nat p) \<noteq> - 1"
proof -
  have p: "unat (word_of_nat p :: u64) = p" "unat (word_of_nat p :: u32) = p"
    using assms by (auto intro!: unat_of_nat_small)
  then have "sint (word_of_nat p :: u64) = int p"
    using assms by (simp add: sint_u64)
  moreover have "sint (word_of_nat p :: u32) \<noteq> - 1"
  proof
    assume "sint (word_of_nat p :: u32) = - 1"
    then have minus: "word_of_nat p = (- 1 :: u32)"
      by (metis sint_n1 signed_word_eqI)
    have "unat (word_of_nat p :: u32) = 4294967295"
      unfolding minus by (rule minus_one_u32)
    then show False
      using p(2) assms by simp
  qed
  moreover have "ucast (word_of_nat p :: u64) = (word_of_nat p :: u32)"
    using p assms by (simp add: word_unat_eq_iff unsigned_ucast_eq take_bit_nat_eq_self)
  ultimately show ?thesis
    by (simp add: ioctl_ret_def)
qed

text \<open>A kernel with room whose copies and locks succeed, and an \<open>open\<close> that finds a descriptor.\<close>

locale good_kernel =
  fixes k :: kernel
    and pick :: "(int \<rightharpoonup> s64) \<Rightarrow> int"
    and net :: "int \<Rightarrow> byte list \<Rightarrow> int"
  assumes laws: "kernel_ok k" "roomy k" "\<not> copy_faults k"
    and lock_ok: "k_mutex_lock_interruptible k = 0"
    and copy_in_ok: "fst (k_copy_from_user k a n m) = 0"
    and pick_fresh: "finite (dom fds) \<Longrightarrow> 0 \<le> pick fds \<and> fds (pick fds) = None"
begin

lemma write_ok:
  assumes "drv_inv s" "length (dev_pending s) + length bs \<le> k_kmalloc_max k" "length bs < 2 ^ 31"
  shows "\<exists>s'. driver_write k bs s = Some (int (length bs), s') \<and> drv_inv s' \<and>
    dev_abs s' = spec_write (dev_abs s) bs"
proof -
  have len: "unat (word_of_nat (length bs) :: u64) = length bs"
    using assms(3) by (intro unat_of_nat_small) simp
  have "load_user 0 (length bs) (user_buffer bs) = bs"
    using assms(3) by (intro load_user_buffer) simp
  then obtain s' where s': "aesd_write k 0 (word_of_nat (length bs)) (user_buffer bs) s = Some (word_of_nat (length bs), s')"
    "drv_inv s'" "dev_abs s' = spec_write (dev_abs s) bs"
    using write_succeeds [OF laws(1,2) assms(1), of "word_of_nat (length bs)" 0 "user_buffer bs"]
      assms(2) lock_ok copy_in_ok len by auto
  moreover have "ret_of (word_of_nat (length bs)) = int (length bs)"
    using assms(3) len by (simp add: ret_of_def sint_u64)
  ultimately show ?thesis
    by (simp add: driver_write_def)
qed

lemma read_ok:
  assumes inv: "drv_inv s" and n: "n < 2 ^ 31"
  shows "driver_read k n off s =
    (let content = concat (fst (dev_abs s)); j = min n (length content - unat off)
     in Some (int j, take j (drop (unat off) content), off + word_of_nat j, s))"
proof -
  define bs where "bs = take (min n (length (dev_content s) - unat off)) (drop (unat off) (dev_content s))"
  let ?j = "min n (length (dev_content s) - unat off)"
  have len: "length bs = ?j"
    by (simp add: bs_def)
  have un: "unat (word_of_nat n :: u64) = n" "unat (word_of_nat ?j :: u64) = ?j"
    using n by (auto intro!: unat_of_nat_small)
  have "aesd_read k 0 (word_of_nat n) off (user_buffer []) s =
      Some (word_of_nat ?j, off + word_of_nat ?j, store_user 0 bs (user_buffer []), s)"
    using read_total [OF laws(1) inv, of 0 "word_of_nat n" off "user_buffer []"] lock_ok laws(3)
    by (auto simp: read_post_def readable_def Let_def un bs_def)
  moreover have "ret_of (word_of_nat ?j) = int ?j"
    using n un(2) by (simp add: ret_of_def sint_u64)
  moreover have "load_user 0 ?j (store_user 0 bs (user_buffer [])) = bs"
    using load_store_user [of bs 0] n len by simp
  ultimately show ?thesis
    by (simp add: driver_read_def Let_def dev_abs_def dev_content_def bs_def)
qed

lemma ioctl_ok:
  assumes inv: "drv_inv s"
  shows "\<exists>r. r \<noteq> - 1 \<and> driver_ioctl k sk off s = Some
    (case ioctl_target (dev_raw s) (unat (write_cmd sk)) (unat (write_cmd_offset sk)) of
       None \<Rightarrow> (- 1, off, s)
     | Some p \<Rightarrow> (r, word_of_nat p, s))"
proof -
  let ?t = "ioctl_target (dev_raw s) (unat (write_cmd sk)) (unat (write_cmd_offset sk))"
  have "load_user 0 (length (seekto_bytes sk)) (user_buffer (seekto_bytes sk)) = seekto_bytes sk"
    by (rule load_user_buffer) simp
  then have "load_user 0 8 (user_buffer (seekto_bytes sk)) = seekto_bytes sk"
    by (simp only: length_seekto_bytes)
  then have call: "driver_ioctl k sk off s = Some
      (case ?t of None \<Rightarrow> (ioctl_ret (- EINVAL), off, s)
       | Some p \<Rightarrow> (ioctl_ret (word_of_nat p), word_of_nat p, s))"
    using copy_in_ok
    by (simp add: driver_ioctl_def ioctl_total [OF laws(1) inv] seekto_of_bytes_bytes split: option.split)
  have err: "ioctl_ret (- EINVAL) = - 1"
    by (simp add: ioctl_ret_def errno_defs)
  show ?thesis
  proof (cases ?t)
    case None
    then show ?thesis
      using call err by (auto intro: exI [of _ 0])
  next
    case (Some p)
    have "p \<le> 10 * 2 ^ 28"
      using ioctl_target_bound [OF _ Some] inv by (auto simp: drv_inv_def)
    then have "ioctl_ret (word_of_nat p) \<noteq> - 1"
      by (rule ioctl_ret_pos)
    then show ?thesis
      using call Some by auto
  qed
qed

end

text \<open>The driver keeps the contract under every such kernel.\<close>

sublocale good_kernel \<subseteq> log_device "driver_posix k pick net" dev_abs dev_raw drv_inv "k_kmalloc_max k"
proof (unfold_locales, goal_cases)
  case (1 fds d)
  then show ?case
    using pick_fresh by (simp add: driver_posix_def)
next
  case (2 d n off)
  then show ?case
    using read_ok [of d n off] by (simp add: driver_posix_def Let_def)
next
  case (3 d)
  then show ?case
    using content_bound [of "{}" d] by (simp add: drv_inv_def dev_content_def dev_abs_def)
next
  case (4 d bs)
  then show ?case
    using write_ok [of d bs] by (simp add: driver_posix_def dev_abs_def)
next
  case (5 d sk off)
  then show ?case
    using ioctl_ok [of d sk off] by (simp add: driver_posix_def)
next
  case (6 d)
  then show ?case
    using dev_cmds_rotate [of "{}" d] by (auto simp: drv_inv_def dev_abs_def)
qed

section \<open>A concrete system\<close>

text \<open>The lowest free descriptor from 3 on; a socket that takes everything.\<close>

definition demo_pick_fd :: "(int \<rightharpoonup> s64) \<Rightarrow> int" where
  "demo_pick_fd fds = (if fds 3 = None then 3 else if fds 4 = None then 4 else
     int (LEAST n. 3 \<le> n \<and> fds (int n) = None))"

definition demo_net :: "int \<Rightarrow> byte list \<Rightarrow> int" where
  "demo_net fd bs = int (length bs)"

lemma demo_pick_fresh_fd:
  assumes "finite (dom fds)"
  shows "0 \<le> demo_pick_fd fds \<and> fds (demo_pick_fd fds) = None"
proof -
  have "\<exists>n. 3 \<le> n \<and> fds (int n) = None"
  proof (rule ccontr)
    assume "\<not> ?thesis"
    then have "int ` {3..} \<subseteq> dom fds"
      by auto
    then have "finite (int ` {3..})"
      using assms by (rule finite_subset)
    then show False
      by (simp add: finite_image_iff infinite_Ici)
  qed
  then have "fds (int (LEAST n. 3 \<le> n \<and> fds (int n) = None)) = None"
    by (metis (mono_tags, lifting) LeastI)
  then show ?thesis
    by (simp add: demo_pick_fd_def)
qed

interpretation demo: good_kernel demo_kernel demo_pick_fd demo_net
proof
  show "kernel_ok demo_kernel" "roomy demo_kernel"
    by (rule demo_kernel_ok demo_roomy)+
qed (simp_all add: demo_pick_fresh_fd, simp_all add: demo_kernel_def copy_faults_def)

end
