(* ===== verification/ScanSeek.thy ===== *)
theory ScanSeek
  imports CharDriver
begin

text \<open>
  \<open>parse_aesdchar_ioseek\<close> of \<open>server/aesd_server_thrd.c\<close>: the text command that asks the server to
  seek, as \<open>sscanf\<close> with the format \<open>AESDCHAR_IOCSEEKTO:%u,%u\<close> reads it, and the proof that it
  reads back what a client prints with the same format.
\<close>

section \<open>C strings\<close>

text \<open>What the string functions see of a buffer that is followed by a zero byte.\<close>

definition c_string :: "byte list \<Rightarrow> byte list" where
  "c_string bs = takeWhile (\<lambda>b. b \<noteq> 0) bs"

text \<open>\<open>strchr(buf, '\n')\<close> finds something.\<close>

definition strchr_newline :: "byte list \<Rightarrow> bool" where
  "strchr_newline bs \<longleftrightarrow> newline \<in> set (c_string bs)"

section \<open>sscanf\<close>

definition isspace :: "byte \<Rightarrow> bool" where
  "isspace b \<longleftrightarrow> b = 32 \<or> 9 \<le> b \<and> b \<le> 13"

definition isdigit :: "byte \<Rightarrow> bool" where
  "isdigit b \<longleftrightarrow> 48 \<le> b \<and> b \<le> 57"

definition digit_val :: "byte \<Rightarrow> nat" where
  "digit_val b = unat b - 48"

definition dec_val :: "byte list \<Rightarrow> nat" where
  "dec_val ds = foldl (\<lambda>n d. 10 * n + digit_val d) 0 ds"

text \<open>
  \<open>%u\<close>: white space, an optional sign, digits. The C standard leaves a number that does not fit
  undefined; glibc converts with \<open>strtoul\<close>, which stops at \<open>ULONG_MAX\<close>, and keeps the low 32 bits.
\<close>

definition strtoul_u32 :: "bool \<Rightarrow> nat \<Rightarrow> u32" where
  "strtoul_u32 neg n =
     (if n \<ge> 2 ^ 64 then 0xFFFFFFFF else if neg then - word_of_nat n else word_of_nat n)"

definition scan_sign :: "byte list \<Rightarrow> bool \<times> byte list" where
  "scan_sign s = (case s of
       [] \<Rightarrow> (False, s)
     | c # cs \<Rightarrow> if c = 45 then (True, cs) else if c = 43 then (False, cs) else (False, s))"

definition scan_u :: "byte list \<Rightarrow> (u32 \<times> byte list) option" where
  "scan_u s =
     (let (neg, s) = scan_sign (dropWhile isspace s);
          ds = takeWhile isdigit s
      in if ds = [] then None else Some (strtoul_u32 neg (dec_val ds), dropWhile isdigit s))"

text \<open>A literal part of the format has to match byte for byte.\<close>

fun scan_lit :: "byte list \<Rightarrow> byte list \<Rightarrow> byte list option" where
  "scan_lit [] s = Some s"
| "scan_lit (c # cs) [] = None"
| "scan_lit (c # cs) (x # xs) = (if c = x then scan_lit cs xs else None)"

definition ioseek_prefix :: "byte list" where
  "ioseek_prefix = map of_char ''AESDCHAR_IOCSEEKTO:''"

text \<open>The function: \<^term>\<open>None\<close> is false, \<^term>\<open>Some (c, off)\<close> true with both outputs stored.\<close>

definition parse_aesdchar_ioseek :: "byte list \<Rightarrow> (u32 \<times> u32) option" where
  "parse_aesdchar_ioseek buffer = do {
     s \<leftarrow> scan_lit ioseek_prefix (c_string buffer);
     (write_cmd, s) \<leftarrow> scan_u s;
     s \<leftarrow> scan_lit [44] s;
     (write_cmd_offset, s) \<leftarrow> scan_u s;
     Some (write_cmd, write_cmd_offset)
   }"

section \<open>What a client sends\<close>

text \<open>\<open>printf("%u")\<close>.\<close>

fun print_u :: "nat \<Rightarrow> byte list" where
  "print_u n = (if n < 10 then [word_of_nat (48 + n)] else print_u (n div 10) @ [word_of_nat (48 + n mod 10)])"

declare print_u.simps [simp del]

definition print_ioseek :: "u32 \<Rightarrow> u32 \<Rightarrow> byte list" where
  "print_ioseek c off = ioseek_prefix @ print_u (unat c) @ [44] @ print_u (unat off)"

lemma digit_unat: "n < 10 \<Longrightarrow> unat (word_of_nat (48 + n) :: byte) = 48 + n"
  by (rule unat_of_nat_small) simp

lemma digit_facts:
  assumes "n < 10"
  shows "isdigit (word_of_nat (48 + n))" "digit_val (word_of_nat (48 + n)) = n"
    "\<not> isspace (word_of_nat (48 + n))" "word_of_nat (48 + n) \<noteq> (0 :: byte)"
    "word_of_nat (48 + n) \<notin> {45, 43 :: byte}"
  using digit_unat [OF assms] assms
  by (auto simp: isdigit_def isspace_def digit_val_def word_le_nat_alt word_unat_eq_iff)

lemma dec_val_snoc: "dec_val (ds @ [d]) = 10 * dec_val ds + digit_val d"
  by (simp add: dec_val_def)

lemma print_u_digits: "d \<in> set (print_u n) \<Longrightarrow> \<exists>i < 10. d = word_of_nat (48 + i)"
proof (induction n rule: print_u.induct)
  case (1 n)
  show ?case
  proof (cases "n < 10")
    case True
    then have "d = word_of_nat (48 + n)"
      using "1.prems" by (simp only: print_u.simps [of n] if_True) simp
    then show ?thesis
      using True by blast
  next
    case False
    then have "d \<in> set (print_u (n div 10)) \<or> d = word_of_nat (48 + n mod 10)"
      using "1.prems" by (simp only: print_u.simps [of n] if_False) auto
    then show ?thesis
      using "1.IH" [OF False] by (metis mod_less_divisor zero_less_numeral)
  qed
qed

lemma print_u_val: "dec_val (print_u n) = n"
proof (induction n rule: print_u.induct)
  case (1 n)
  have "dec_val (ds @ [word_of_nat (48 + i)]) = 10 * dec_val ds + i" if "i < 10" for ds i
    using digit_facts(2) [OF that] by (simp add: dec_val_snoc)
  from this [of n "[]"] this [of "n mod 10" "print_u (n div 10)"] show ?case
    using 1 by (subst print_u.simps) (auto simp: dec_val_def)
qed

lemma print_u_not_Nil [simp]: "print_u n \<noteq> []"
  by (subst print_u.simps) simp

lemma print_u_digit: "d \<in> set (print_u n) \<Longrightarrow> isdigit d \<and> \<not> isspace d \<and> d \<noteq> 0 \<and> d \<noteq> 45 \<and> d \<noteq> 43"
  using print_u_digits [of d n] digit_facts by fastforce

lemma scan_u_print:
  assumes stop: "\<forall>c cs. rest = c # cs \<longrightarrow> \<not> isdigit c"
  shows "scan_u (print_u (unat (w :: u32)) @ rest) = Some (w, rest)"
proof -
  let ?p = "print_u (unat w)"
  have dig: "\<forall>d \<in> set ?p. isdigit d"
    using print_u_digit by blast
  obtain d ds where p: "?p = d # ds"
    using print_u_not_Nil [of "unat w"] by (cases ?p) auto
  then have d: "\<not> isspace d" "d \<noteq> 45" "d \<noteq> 43"
    using print_u_digit [of d "unat w"] by auto
  have sign: "scan_sign (dropWhile isspace (?p @ rest)) = (False, ?p @ rest)"
    using d by (simp add: p scan_sign_def)
  have tk: "takeWhile isdigit (?p @ rest) = ?p" "dropWhile isdigit (?p @ rest) = rest"
    using dig stop by (cases rest; simp)+
  have "unat w < 2 ^ LENGTH(32)"
    by (rule unsigned_less)
  then have "strtoul_u32 False (dec_val ?p) = w"
    by (simp add: strtoul_u32_def print_u_val)
  then show ?thesis
    by (simp add: scan_u_def sign tk)
qed

lemma scan_lit_append: "scan_lit xs (xs @ ys) = Some ys"
  by (induction xs) auto

lemma ioseek_prefix_bytes:
  "ioseek_prefix = [65, 69, 83, 68, 67, 72, 65, 82, 95, 73, 79, 67, 83, 69, 69, 75, 84, 79, 58]"
  by (simp add: ioseek_prefix_def of_char_def)

lemma print_ioseek_parses:
  assumes tail: "\<forall>c cs. tail = c # cs \<longrightarrow> \<not> isdigit c"
  shows "parse_aesdchar_ioseek (print_ioseek c off @ tail) = Some (c, off)"
proof -
  have nz: "\<forall>b \<in> set (print_ioseek c off). b \<noteq> 0"
    using print_u_digit by (auto simp: print_ioseek_def ioseek_prefix_bytes)
  have str: "c_string (print_ioseek c off @ tail) = print_ioseek c off @ c_string tail"
    unfolding c_string_def using nz by (intro takeWhile_append2) blast
  have comma: "\<not> isdigit 44"
    by (simp add: isdigit_def)
  have tail': "\<forall>x xs. c_string tail = x # xs \<longrightarrow> \<not> isdigit x"
    using tail by (cases tail) (auto simp: c_string_def)
  show ?thesis
    unfolding parse_aesdchar_ioseek_def str unfolding print_ioseek_def
    using comma tail' by (simp add: scan_lit_append scan_u_print)
qed

text \<open>A text that does not start with the prefix is not a command.\<close>

lemma scan_lit_prefix: "scan_lit xs s = Some r \<Longrightarrow> s = xs @ r"
  by (induction xs s rule: scan_lit.induct) (auto split: if_splits)

lemma parse_needs_prefix:
  "parse_aesdchar_ioseek bs = Some r \<Longrightarrow> take 19 bs = ioseek_prefix"
proof -
  assume "parse_aesdchar_ioseek bs = Some r"
  then obtain s where "c_string bs = ioseek_prefix @ s"
    by (auto simp: parse_aesdchar_ioseek_def bind_eq_Some_conv dest: scan_lit_prefix)
  moreover have "bs = c_string bs @ dropWhile (\<lambda>b. b \<noteq> 0) bs"
    by (simp add: c_string_def)
  ultimately have "bs = ioseek_prefix @ s @ dropWhile (\<lambda>b. b \<noteq> 0) bs"
    by simp
  moreover have "length ioseek_prefix = 19"
    by (simp add: ioseek_prefix_bytes)
  ultimately show ?thesis
    by (metis append_eq_conv_conj)
qed

end
