(* ===== verification/Slist.thy ===== *)
theory Slist
  imports Prelude
begin

text \<open>
  The singly-linked list macros of \<open>server/slist/queue.h\<close>, over an explicit store of nodes: a
  node is the address of a struct with an \<open>sle_next\<close> field and the rest of the struct. Reading
  or writing through \<open>NULL\<close> or through an address that is not allocated is undefined, \<^term>\<open>None\<close>.
  The predicate \<open>slist\<close> relates a head pointer and a store to the list of the nodes; every
  operation is shown to be the list operation of its name.
\<close>

section \<open>Nodes\<close>

record 'a slist_node =
  sle_next :: ptr
  selm :: 'a

type_synonym 'a store = "addr \<rightharpoonup> 'a slist_node"

text \<open>\<open>p->field.sle_next\<close> read and written.\<close>

definition SLIST_NEXT :: "ptr \<Rightarrow> 'a store \<Rightarrow> ptr option" where
  "SLIST_NEXT p s = do { a \<leftarrow> p; n \<leftarrow> s a; Some (sle_next n) }"

definition set_next :: "ptr \<Rightarrow> ptr \<Rightarrow> 'a store \<Rightarrow> 'a store option" where
  "set_next p q s = do { a \<leftarrow> p; n \<leftarrow> s a; Some (s(a \<mapsto> n\<lparr>sle_next := q\<rparr>)) }"

section \<open>The macros\<close>

definition SLIST_INIT :: ptr where
  "SLIST_INIT = NULL"

definition SLIST_FIRST :: "ptr \<Rightarrow> ptr" where
  "SLIST_FIRST head = head"

definition SLIST_EMPTY :: "ptr \<Rightarrow> bool" where
  "SLIST_EMPTY head \<longleftrightarrow> head = NULL"

definition SLIST_INSERT_HEAD :: "ptr \<Rightarrow> ptr \<Rightarrow> 'a store \<Rightarrow> (ptr \<times> 'a store) option" where
  "SLIST_INSERT_HEAD head elm s = do {
     s \<leftarrow> set_next elm head s;
     Some (elm, s)
   }"

definition SLIST_INSERT_AFTER :: "ptr \<Rightarrow> ptr \<Rightarrow> 'a store \<Rightarrow> 'a store option" where
  "SLIST_INSERT_AFTER slistelm elm s = do {
     n \<leftarrow> SLIST_NEXT slistelm s;
     s \<leftarrow> set_next elm n s;
     set_next slistelm elm s
   }"

definition SLIST_REMOVE_HEAD :: "ptr \<Rightarrow> 'a store \<Rightarrow> ptr option" where
  "SLIST_REMOVE_HEAD head s = SLIST_NEXT head s"

definition SLIST_REMOVE_AFTER :: "ptr \<Rightarrow> 'a store \<Rightarrow> 'a store option" where
  "SLIST_REMOVE_AFTER slistelm s = do {
     n \<leftarrow> SLIST_NEXT slistelm s;
     nn \<leftarrow> SLIST_NEXT n s;
     set_next slistelm nn s
   }"

text \<open>The search of \<open>SLIST_REMOVE\<close> for the predecessor; it may run over the end, or for ever.\<close>

partial_function (option) find_prev :: "ptr \<Rightarrow> ptr \<Rightarrow> 'a store \<Rightarrow> ptr option" where
  "find_prev curelm elm s = do {
     n \<leftarrow> SLIST_NEXT curelm s;
     if n \<noteq> elm then find_prev n elm s else Some curelm
   }"

definition SLIST_REMOVE :: "ptr \<Rightarrow> ptr \<Rightarrow> 'a store \<Rightarrow> (ptr \<times> 'a store) option" where
  "SLIST_REMOVE head elm s =
     (if head = elm then do {
        head \<leftarrow> SLIST_REMOVE_HEAD head s;
        Some (head, s)
      }
      else do {
        curelm \<leftarrow> find_prev head elm s;
        n \<leftarrow> SLIST_NEXT curelm s;
        nn \<leftarrow> SLIST_NEXT n s;
        s \<leftarrow> set_next curelm nn s;
        Some (head, s)
      })"

definition SLIST_SWAP :: "ptr \<Rightarrow> ptr \<Rightarrow> ptr \<times> ptr" where
  "SLIST_SWAP head1 head2 = (SLIST_FIRST head2, SLIST_FIRST head1)"

text \<open>
  The loops. The body gets the node's address and the whole state; \<open>st\<close> is where the state keeps
  the nodes. \<open>SLIST_FOREACH\<close> reads the next pointer after the body, \<open>SLIST_FOREACH_SAFE\<close> before it.
\<close>

partial_function (option) SLIST_FOREACH ::
  "('s \<Rightarrow> 'a store) \<Rightarrow> (addr \<Rightarrow> 's \<Rightarrow> 's option) \<Rightarrow> ptr \<Rightarrow> 's \<Rightarrow> 's option" where
  "SLIST_FOREACH st body var s =
     (case var of
        None \<Rightarrow> Some s
      | Some a \<Rightarrow> do {
          s \<leftarrow> body a s;
          n \<leftarrow> SLIST_NEXT (Some a) (st s);
          SLIST_FOREACH st body n s
        })"

partial_function (option) SLIST_FOREACH_SAFE ::
  "('s \<Rightarrow> 'a store) \<Rightarrow> (addr \<Rightarrow> 's \<Rightarrow> 's option) \<Rightarrow> ptr \<Rightarrow> 's \<Rightarrow> 's option" where
  "SLIST_FOREACH_SAFE st body var s =
     (case var of
        None \<Rightarrow> Some s
      | Some a \<Rightarrow> do {
          tvar \<leftarrow> SLIST_NEXT (Some a) (st s);
          s \<leftarrow> body a s;
          SLIST_FOREACH_SAFE st body tvar s
        })"

section \<open>The list that a head points to\<close>

fun slist :: "'a store \<Rightarrow> ptr \<Rightarrow> addr list \<Rightarrow> bool" where
  "slist s p [] \<longleftrightarrow> p = NULL"
| "slist s p (x # xs) \<longleftrightarrow> p = Some x \<and> (\<exists>n. s x = Some n \<and> slist s (sle_next n) xs)"

lemma slist_unique: "slist s p xs \<Longrightarrow> slist s p ys \<Longrightarrow> xs = ys"
  by (induction xs arbitrary: p ys) (case_tac ys; auto)+

lemma slist_frame: "slist s p xs \<Longrightarrow> (\<And>x. x \<in> set xs \<Longrightarrow> s' x = s x) \<Longrightarrow> slist s' p xs"
  by (induction xs arbitrary: p) auto

lemma slist_upd [simp]: "a \<notin> set xs \<Longrightarrow> slist (s(a := v)) p xs = slist s p xs"
  by (auto intro: slist_frame)

lemma slist_suffix: "slist s p (xs @ ys) \<Longrightarrow> \<exists>q. slist s q ys"
  by (induction xs arbitrary: p) auto

text \<open>A node is on the list once: from it on, the list is determined.\<close>

lemma slist_distinct: "slist s p xs \<Longrightarrow> distinct xs"
proof (induction xs arbitrary: p)
  case (Cons x xs)
  then obtain n where n: "s x = Some n" "slist s (sle_next n) xs"
    by auto
  have "x \<notin> set xs"
  proof
    assume "x \<in> set xs"
    then obtain ys zs where split: "xs = ys @ x # zs"
      by (auto simp: in_set_conv_decomp)
    then obtain q where "slist s q (x # zs)"
      using n(2) slist_suffix by blast
    then have "slist s (sle_next n) zs"
      using n(1) by auto
    then have "zs = xs"
      using n(2) by (rule slist_unique)
    then show False
      using split by simp
  qed
  then show ?case
    using Cons.IH n(2) by auto
qed simp

lemma slist_alloc: "slist s p xs \<Longrightarrow> x \<in> set xs \<Longrightarrow> \<exists>n. s x = Some n"
  by (induction xs arbitrary: p) auto

lemma slist_empty: "slist s p xs \<Longrightarrow> SLIST_EMPTY p \<longleftrightarrow> xs = []"
  by (cases xs) (auto simp: SLIST_EMPTY_def)

lemma SLIST_NEXT_alloc [simp]: "s a = Some n \<Longrightarrow> SLIST_NEXT (Some a) s = Some (sle_next n)"
  by (simp add: SLIST_NEXT_def)

lemma set_next_alloc [simp]: "s a = Some n \<Longrightarrow> set_next (Some a) q s = Some (s(a \<mapsto> n\<lparr>sle_next := q\<rparr>))"
  by (simp add: set_next_def)

lemma SLIST_NEXT_NULL [simp]: "SLIST_NEXT NULL s = None"
  by (simp add: SLIST_NEXT_def)

section \<open>Inserting\<close>

lemma insert_head_slist:
  assumes "slist s head xs" "s a = Some n" "a \<notin> set xs"
  shows "\<exists>s'. SLIST_INSERT_HEAD head (Some a) s = Some (Some a, s') \<and> slist s' (Some a) (a # xs) \<and>
    s' = s(a \<mapsto> n\<lparr>sle_next := head\<rparr>)"
  using assms by (simp add: SLIST_INSERT_HEAD_def)

lemma slist_append_split:
  "slist s p (xs @ a # ys) \<Longrightarrow> \<exists>n. s a = Some n \<and> slist s (sle_next n) ys"
  by (induction xs arbitrary: p) auto

text \<open>Redirecting the next pointer of one node splices the list there.\<close>

lemma slist_splice:
  assumes "slist s p (xs @ a # ys)" "s a = Some n" "slist (s(a \<mapsto> n\<lparr>sle_next := q\<rparr>)) q zs"
  shows "slist (s(a \<mapsto> n\<lparr>sle_next := q\<rparr>)) p (xs @ a # zs)"
proof -
  have "a \<notin> set xs"
    using slist_distinct [OF assms(1)] by simp
  then show ?thesis
    using assms by (induction xs arbitrary: p) auto
qed

lemma insert_after_slist:
  assumes l: "slist s head (xs @ a # ys)" and e: "s e = Some m" "e \<notin> set (xs @ a # ys)"
  shows "\<exists>s'. SLIST_INSERT_AFTER (Some a) (Some e) s = Some s' \<and> slist s' head (xs @ a # e # ys)"
proof -
  obtain n where n: "s a = Some n" "slist s (sle_next n) ys"
    using slist_append_split [OF l] by blast
  let ?s1 = "s(e \<mapsto> m\<lparr>sle_next := sle_next n\<rparr>)"
  have l1: "slist ?s1 head (xs @ a # ys)"
    using l e(2) by simp
  have ya: "a \<notin> set ys"
    using slist_distinct [OF l] by simp
  have "slist ?s1 (Some e) (e # ys)"
    using n(2) e(2) by simp
  then have "slist (?s1(a \<mapsto> n\<lparr>sle_next := Some e\<rparr>)) (Some e) (e # ys)"
    using ya e(2) by (subst slist_upd) auto
  then have "slist (?s1(a \<mapsto> n\<lparr>sle_next := Some e\<rparr>)) head (xs @ a # e # ys)"
    using n(1) e(2) by (intro slist_splice [OF l1]) auto
  moreover have "?s1 a = Some n"
    using n(1) e(2) by auto
  ultimately show ?thesis
    using n(1) e(1) by (simp add: SLIST_INSERT_AFTER_def)
qed

section \<open>Removing\<close>

lemma remove_head_slist:
  "slist s head (x # xs) \<Longrightarrow> \<exists>h. SLIST_REMOVE_HEAD head s = Some h \<and> slist s h xs"
  by (auto simp: SLIST_REMOVE_HEAD_def)

lemma remove_after_slist:
  assumes l: "slist s head (xs @ a # b # ys)"
  shows "\<exists>s'. SLIST_REMOVE_AFTER (Some a) s = Some s' \<and> slist s' head (xs @ a # ys)"
proof -
  obtain n nb where n: "s a = Some n" "sle_next n = Some b" "s b = Some nb" "slist s (sle_next nb) ys"
    using slist_append_split [OF l] by auto
  have "a \<notin> set ys"
    using slist_distinct [OF l] by simp
  then show ?thesis
    using slist_splice [OF l n(1), of "sle_next nb" ys] n by (simp add: SLIST_REMOVE_AFTER_def)
qed

lemma find_prev_slist:
  "slist s p (xs @ a # e # ys) \<Longrightarrow> e \<notin> set (xs @ [a]) \<Longrightarrow> find_prev p (Some e) s = Some (Some a)"
proof (induction xs arbitrary: p)
  case Nil
  then show ?case
    by (subst find_prev.simps) auto
next
  case (Cons x xs)
  obtain n where n: "p = Some x" "s x = Some n" "slist s (sle_next n) (xs @ a # e # ys)"
    using Cons.prems(1) by auto
  have "sle_next n \<noteq> Some e"
    using n(3) Cons.prems(2) by (cases xs) auto
  then show ?case
    using n Cons.IH [OF n(3)] Cons.prems(2) by (subst find_prev.simps) simp
qed

text \<open>The macro removes the element and changes at most the next pointer of its predecessor.\<close>

definition same_elms :: "'a store \<Rightarrow> 'a store \<Rightarrow> bool" where
  "same_elms s s' \<longleftrightarrow> (\<forall>a. map_option selm (s' a) = map_option selm (s a))"

lemma same_elms_refl [simp]: "same_elms s s"
  by (simp add: same_elms_def)

lemma remove_slist:
  assumes l: "slist s head (us @ e # ys)"
  shows "\<exists>h s'. SLIST_REMOVE head (Some e) s = Some (h, s') \<and> slist s' h (us @ ys) \<and>
    same_elms s s' \<and> (\<forall>a. a \<notin> set us \<longrightarrow> s' a = s a)"
proof (cases us rule: rev_cases)
  case Nil
  then show ?thesis
    using l by (auto simp: SLIST_REMOVE_def SLIST_REMOVE_HEAD_def)
next
  case (snoc ws a)
  have l': "slist s head (ws @ a # e # ys)"
    using l snoc by simp
  then obtain n ne where n: "s a = Some n" "sle_next n = Some e" "s e = Some ne" "slist s (sle_next ne) ys"
    using slist_append_split [OF l'] by auto
  have dist: "a \<notin> set ys" "e \<notin> set (ws @ [a])"
    using slist_distinct [OF l'] by auto
  have "head \<noteq> Some e"
    using l' dist(2) by (cases ws) auto
  let ?s' = "s(a \<mapsto> n\<lparr>sle_next := sle_next ne\<rparr>)"
  have "slist ?s' head (us @ ys)"
    using slist_splice [OF l' n(1), of "sle_next ne" ys] n(4) dist(1) snoc by simp
  moreover have "SLIST_REMOVE head (Some e) s = Some (head, ?s')"
    using \<open>head \<noteq> Some e\<close> find_prev_slist [OF l' dist(2)] n by (simp add: SLIST_REMOVE_def)
  moreover have "same_elms s ?s'"
    using n(1) by (auto simp: same_elms_def)
  ultimately show ?thesis
    using snoc by auto
qed

text \<open>An element that is not on the list sends the search over the end: undefined.\<close>

lemma find_prev_absent: "slist s p xs \<Longrightarrow> e \<notin> set xs \<Longrightarrow> find_prev p (Some e) s = None"
proof (induction xs arbitrary: p)
  case Nil
  then show ?case
    by (subst find_prev.simps) simp
next
  case (Cons x xs)
  obtain n where n: "p = Some x" "s x = Some n" "slist s (sle_next n) xs"
    using Cons.prems(1) by auto
  have "sle_next n \<noteq> Some e"
    using n(3) Cons.prems(2) by (cases xs) auto
  then show ?case
    using n Cons.IH [OF n(3)] Cons.prems(2) by (subst find_prev.simps) simp
qed

lemma remove_absent: "slist s head xs \<Longrightarrow> e \<notin> set xs \<Longrightarrow> SLIST_REMOVE head (Some e) s = None"
  using find_prev_absent [of s head xs e] by (cases xs) (auto simp: SLIST_REMOVE_def)

section \<open>The loops\<close>

text \<open>What every body keeps, the loop keeps.\<close>

lemma foreach_safe_keeps:
  fixes st :: "'s \<Rightarrow> 'a store" and s :: 's
  assumes body: "\<And>a s s'. body a s = Some s' \<Longrightarrow> Q s \<Longrightarrow> Q s'"
  shows "SLIST_FOREACH_SAFE st body p s = Some s' \<Longrightarrow> Q s \<Longrightarrow> Q s'"
proof -
  assume run: "SLIST_FOREACH_SAFE st body p s = Some s'" and q: "Q s"
  define R where "R = (\<lambda>(((st' :: 's \<Rightarrow> 'a store, bd), p :: ptr), s) s'. bd = body \<longrightarrow> Q s \<longrightarrow> Q s')"
  have "R (((st, body), p), s) s'"
  proof (rule SLIST_FOREACH_SAFE.raw_induct [OF _ run])
    fix f and st :: "'s \<Rightarrow> 'a store" and bd var s s'
    assume ih: "\<And>st bd var s y. f st bd var s = Some y \<Longrightarrow> R (((st, bd), var), s) y"
    assume step: "(case var of None \<Rightarrow> Some s
           | Some a \<Rightarrow> SLIST_NEXT (Some a) (st s) \<bind> (\<lambda>tvar. bd a s \<bind> f st bd tvar)) = Some s'"
    show "R (((st, bd), var), s) s'"
    proof (cases var)
      case None
      then show ?thesis
        using step by (simp add: R_def)
    next
      case (Some a)
      then obtain tvar s1 where "bd a s = Some s1" "f st bd tvar s1 = Some s'"
        using step by (auto simp: bind_eq_Some_conv)
      then show ?thesis
        using ih [of st bd tvar s1 s'] body [of a s s1] by (auto simp: R_def)
    qed
  qed
  then show "Q s'"
    using q by (simp add: R_def)
qed

text \<open>
  The safe loop with a body that keeps an invariant on the rest of the list: the body may unlink
  and free its node, it must leave the nodes ahead alone.
\<close>

lemma foreach_safe_rule:
  assumes body: "\<And>x xs s. I (x # xs) s \<Longrightarrow> slist (st s) (Some x) (x # xs) \<Longrightarrow>
    \<exists>s'. body x s = Some s' \<and> I xs s' \<and> (\<forall>y \<in> set xs. map_option sle_next (st s' y) = map_option sle_next (st s y))"
  shows "slist (st s) p xs \<Longrightarrow> I xs s \<Longrightarrow> \<exists>s'. SLIST_FOREACH_SAFE st body p s = Some s' \<and> I [] s'"
proof (induction xs arbitrary: p s)
  case Nil
  then show ?case
    by (subst SLIST_FOREACH_SAFE.simps) simp
next
  case (Cons x xs)
  obtain n where n: "p = Some x" "st s x = Some n" "slist (st s) (sle_next n) xs"
    using Cons.prems(1) by auto
  obtain s' where s': "body x s = Some s'" "I xs s'"
    "\<forall>y \<in> set xs. map_option sle_next (st s' y) = map_option sle_next (st s y)"
    using body [OF Cons.prems(2)] Cons.prems(1) n(1) by auto
  have "slist (st s') (sle_next n) xs"
    using n(3) s'(3)
  proof (induction xs arbitrary: n)
    case (Cons y ys)
    then obtain m where m: "sle_next n = Some y" "st s y = Some m" "slist (st s) (sle_next m) ys"
      by auto
    have "map_option sle_next (st s' y) = Some (sle_next m)"
      using Cons.prems(2) m(2) by simp
    then obtain m' where m': "st s' y = Some m'" "sle_next m' = sle_next m"
      by auto
    have "slist (st s') (sle_next m) ys"
      using Cons.IH [OF m(3)] Cons.prems(2) by simp
    then show ?case
      using m m' by simp
  qed simp
  then show ?case
    using Cons.IH [of s' "sle_next n"] s' n by (subst SLIST_FOREACH_SAFE.simps) simp
qed

lemma foreach_rule:
  assumes body: "\<And>x xs s. I (x # xs) s \<Longrightarrow> \<exists>s'. body x s = Some s' \<and> I xs s' \<and> st s' = st s"
  shows "slist (st s) p xs \<Longrightarrow> I xs s \<Longrightarrow> \<exists>s'. SLIST_FOREACH st body p s = Some s' \<and> I [] s'"
proof (induction xs arbitrary: p s)
  case Nil
  then show ?case
    by (subst SLIST_FOREACH.simps) simp
next
  case (Cons x xs)
  obtain n where n: "p = Some x" "st s x = Some n" "slist (st s) (sle_next n) xs"
    using Cons.prems(1) by auto
  obtain s' where s': "body x s = Some s'" "I xs s'" "st s' = st s"
    using body [OF Cons.prems(2)] by auto
  then show ?case
    using Cons.IH [of s' "sle_next n"] n by (subst SLIST_FOREACH.simps) simp
qed

end
