(* ===== verification/Daemon.thy ===== *)
theory Daemon
  imports Prelude
begin

text \<open>
  \<open>make_daemon\<close>, which both servers contain, and the way \<open>main\<close> starts them: the command line and
  the two signal handlers. A process that goes on is \<^term>\<open>Inr\<close>, one that has exited is
  \<^term>\<open>Inl\<close> with its exit status.
\<close>

definition EXIT_SUCCESS :: int where "EXIT_SUCCESS = 0"
definition EXIT_FAILURE :: int where "EXIT_FAILURE = 1"

text \<open>What the process has become: session leader or not, its mask, directory and descriptors.\<close>

record process =
  session_leader :: bool
  file_mask :: nat
  at_root :: bool
  std_open :: bool

text \<open>
  The results of the calls, in the order the process that goes on meets them: \<open>fork\<close>, \<open>setsid\<close>,
  \<open>fork\<close>, \<open>chdir\<close>. The child of the second fork is not a session leader.
\<close>

record daemon_calls =
  c_fork1 :: int
  c_setsid :: int
  c_fork2 :: int
  c_chdir :: int

definition make_daemon :: "daemon_calls \<Rightarrow> process \<Rightarrow> int + process" where
  "make_daemon c p =
     (if c_fork1 c < 0 then Inl EXIT_FAILURE
      else if c_fork1 c > 0 then Inl EXIT_SUCCESS
      else if c_setsid c < 0 then Inl EXIT_FAILURE
      else let p = p\<lparr>session_leader := True\<rparr>
      in if c_fork2 c < 0 then Inl EXIT_FAILURE
      else if c_fork2 c > 0 then Inl EXIT_SUCCESS
      else let p = p\<lparr>session_leader := False, file_mask := 0\<rparr>
      in if c_chdir c < 0 then Inl EXIT_FAILURE
      else Inr (p\<lparr>at_root := True, std_open := False\<rparr>))"

text \<open>The older server has the same function, but it does not look at the result of \<open>chdir\<close>.\<close>

definition make_daemon_poll :: "daemon_calls \<Rightarrow> process \<Rightarrow> int + process" where
  "make_daemon_poll c p =
     (if c_fork1 c < 0 then Inl EXIT_FAILURE
      else if c_fork1 c > 0 then Inl EXIT_SUCCESS
      else if c_setsid c < 0 then Inl EXIT_FAILURE
      else let p = p\<lparr>session_leader := True\<rparr>
      in if c_fork2 c < 0 then Inl EXIT_FAILURE
      else if c_fork2 c > 0 then Inl EXIT_SUCCESS
      else let p = p\<lparr>session_leader := False, file_mask := 0\<rparr>;
               p = (if c_chdir c < 0 then p else p\<lparr>at_root := True\<rparr>)
      in Inr (p\<lparr>std_open := False\<rparr>))"

section \<open>The command line\<close>

text \<open>The signals that are handled; then \<open>argc > 1 && 0 == strcmp("-d", argv[1])\<close>.\<close>

definition SIGINT :: int where "SIGINT = 2"
definition SIGTERM :: int where "SIGTERM = 15"

definition wants_daemon :: "string list \<Rightarrow> bool" where
  "wants_daemon argv \<longleftrightarrow> length argv > 1 \<and> argv ! 1 = ''-d''"

text \<open>
  How a start-up function ends: the process exits with a status, or the function returns false or
  true with its state.
\<close>

datatype 'a init_result = InitExit int | InitFalse 'a | InitTrue 'a

text \<open>The process before the server has changed anything.\<close>

definition fresh_process :: process where
  "fresh_process = \<lparr>session_leader = False, file_mask = 18, at_root = False, std_open = True\<rparr>"

text \<open>Calls that all succeed, in the process that goes on.\<close>

definition no_fork :: daemon_calls where
  "no_fork = \<lparr>c_fork1 = 0, c_setsid = 0, c_fork2 = 0, c_chdir = 0\<rparr>"

lemma make_daemon_runs_iff:
  "(\<exists>p'. make_daemon c p = Inr p') \<longleftrightarrow> c_fork1 c = 0 \<and> 0 \<le> c_setsid c \<and> c_fork2 c = 0 \<and> 0 \<le> c_chdir c"
  by (auto simp: make_daemon_def Let_def)

lemma make_daemon_detached:
  "make_daemon c p = Inr p' \<Longrightarrow>
   \<not> session_leader p' \<and> at_root p' \<and> \<not> std_open p' \<and> file_mask p' = 0"
  by (auto simp: make_daemon_def Let_def split: if_splits)

end
