(* ===== verification/ServerThrd.thy ===== *)
theory ServerThrd
  imports LogDevice ScanSeek Slist Daemon
begin

text \<open>
  The threaded socket server \<open>server/aesd_server_thrd.c\<close> (with \<open>USE_AESD_CHAR_DEVICE\<close>, as
  \<open>aesdsocket_cfg.h\<close> sets it): its file-scope state, the message path that runs in the connection
  threads, the accept loop with its list of threads, and shutdown. Calls to the operating system
  go through the record of \<open>LogDevice\<close>; logging is left out. \<^term>\<open>None\<close> is undefined behaviour
  or a call that never returns.
\<close>

section \<open>State\<close>

definition MAXLINE :: nat where
  "MAXLINE = 4096"

definition BUFFSIZE :: nat where
  "BUFFSIZE = 8192"

text \<open>\<open>struct ThreadData\<close>; its \<open>write_lock\<close> always points to the one lock.\<close>

record thread_data =
  td_fd :: int
  is_completed :: bool
  p_tid :: nat

text \<open>
  The globals of the file, with the memory of \<open>struct slist_data_s\<close> (\<open>items\<close>, the payload is the
  \<open>td\<close> pointer) and of \<open>struct ThreadData\<close> (\<open>tds\<close>), then what the process owns: the open
  descriptors of the log path with their offsets, the open client sockets and what has been sent
  on each, the device behind the log path, whether the path and the listening socket exist, and what
  the process has become. \<open>write_lock\<close> says whether the lock is held, \<open>lock_alive\<close> whether it is
  initialised and not destroyed.
\<close>

record 'd server =
  log_fd :: int
  connfd :: int
  listenfd :: int
  sigint_triggered :: bool
  sigterm_triggered :: bool
  write_lock :: bool
  lock_alive :: bool
  file_size :: u32
  thread_clients :: u32
  thrd_head :: ptr
  items :: "addr store"
  tds :: "addr \<rightharpoonup> thread_data"
  open_fds :: "int \<rightharpoonup> s64"
  conns :: "int set"
  sent :: "int \<Rightarrow> byte list"
  dev :: 'd
  log_path :: bool
  listening :: bool
  proc :: process

section \<open>System calls\<close>

definition sys_open :: "'d posix \<Rightarrow> 'd server \<Rightarrow> int \<times> 'd server" where
  "sys_open P st =
     (if \<not> log_path st then (- 1, st)
      else let fd = p_open P (open_fds st) (dev st)
           in (fd, if fd < 0 then st else st\<lparr>open_fds := (open_fds st)(fd \<mapsto> 0)\<rparr>))"

definition sys_close :: "int \<Rightarrow> 'd server \<Rightarrow> 'd server" where
  "sys_close fd st = st\<lparr>open_fds := (open_fds st)(fd := None)\<rparr>"

text \<open>A descriptor that is not open gives \<open>EBADF\<close>.\<close>

definition sys_write :: "'d posix \<Rightarrow> int \<Rightarrow> byte list \<Rightarrow> 'd server \<Rightarrow> (int \<times> 'd server) option" where
  "sys_write P fd bs st =
     (if open_fds st fd = None then Some (- 1, st)
      else do { (r, d) \<leftarrow> p_log_write P bs (dev st); Some (r, st\<lparr>dev := d\<rparr>) })"

definition sys_read :: "'d posix \<Rightarrow> int \<Rightarrow> nat \<Rightarrow> 'd server \<Rightarrow> (int \<times> byte list \<times> 'd server) option" where
  "sys_read P fd n st =
     (case open_fds st fd of
        None \<Rightarrow> Some (- 1, [], st)
      | Some off \<Rightarrow> do {
          (r, bs, off, d) \<leftarrow> p_log_read P n off (dev st);
          Some (r, bs, st\<lparr>dev := d, open_fds := (open_fds st)(fd \<mapsto> off)\<rparr>)
        })"

definition sys_ioctl :: "'d posix \<Rightarrow> int \<Rightarrow> aesd_seekto \<Rightarrow> 'd server \<Rightarrow> (int \<times> 'd server) option" where
  "sys_ioctl P fd sk st =
     (case open_fds st fd of
        None \<Rightarrow> Some (- 1, st)
      | Some off \<Rightarrow> do {
          (r, off, d) \<leftarrow> p_log_ioctl P sk off (dev st);
          Some (r, st\<lparr>dev := d, open_fds := (open_fds st)(fd \<mapsto> off)\<rparr>)
        })"

text \<open>\<open>write(clientfd, ...)\<close>: the socket takes some bytes, or the call fails.\<close>

definition net_write :: "'d posix \<Rightarrow> int \<Rightarrow> byte list \<Rightarrow> 'd server \<Rightarrow> int \<times> 'd server" where
  "net_write P fd bs st =
     (let n = p_net_write P fd bs
      in (n, if n > 0 then st\<lparr>sent := (sent st)(fd := sent st fd @ take (nat n) bs)\<rparr> else st))"

text \<open>
  A lock that is held and never released keeps its next taker waiting for ever; to use a lock that
  is not initialised or has been destroyed is undefined.
\<close>

definition mutex_lock :: "'d posix \<Rightarrow> 'd server \<Rightarrow> (int \<times> 'd server) option" where
  "mutex_lock P st =
     (if \<not> lock_alive st then None
      else if p_mutex_lock P \<noteq> 0 then Some (p_mutex_lock P, st)
      else if write_lock st then None else Some (0, st\<lparr>write_lock := True\<rparr>))"

definition mutex_unlock_user :: "'d server \<Rightarrow> 'd server option" where
  "mutex_unlock_user st = (if write_lock st then Some (st\<lparr>write_lock := False\<rparr>) else None)"

section \<open>Messages\<close>

definition write_safe :: "'d posix \<Rightarrow> byte list \<Rightarrow> 'd server \<Rightarrow> (int \<times> 'd server) option" where
  "write_safe P buf st = do {
     (rc, st) \<leftarrow> mutex_lock P st;
     if rc \<noteq> 0 then Some (- 1, st)
     else do {
       let (fd, st) = sys_open P st;
       let st = st\<lparr>log_fd := fd\<rparr>;
       if log_fd st < 0 then Some (- 1, st)
       else do {
         (nbytes, st) \<leftarrow> sys_write P (log_fd st) buf st;
         st \<leftarrow> mutex_unlock_user st;
         let st = sys_close (log_fd st) st;
         Some (nbytes, st)
       }
     }
   }"

text \<open>
  The loop that reads \<open>log_fd\<close> in chunks and forwards each to the client, as it stands in
  \<open>dump_file_to_client\<close> and in the seek branch of \<open>process_message\<close>: it ends when a read
  returns nothing; the result of the client's write is only logged.
\<close>

partial_function (option) reply_loop :: "'d posix \<Rightarrow> int \<Rightarrow> 'd server \<Rightarrow> 'd server option" where
  "reply_loop P fd_client st = do {
     (rn, bs, st) \<leftarrow> sys_read P (log_fd st) BUFFSIZE st;
     if rn > 0
     then reply_loop P fd_client
            (snd (net_write P fd_client (take (nat rn) (bs @ replicate (BUFFSIZE - length bs) 0)) st))
     else Some st
   }"

definition dump_file_to_client :: "'d posix \<Rightarrow> int \<Rightarrow> 'd server \<Rightarrow> 'd server option" where
  "dump_file_to_client P fd_client st = do {
     (rc, st) \<leftarrow> mutex_lock P st;
     if rc \<noteq> 0 then Some st
     else do {
       let (fd, st) = sys_open P st;
       let st = st\<lparr>log_fd := fd\<rparr>;
       if log_fd st < 0 then mutex_unlock_user st
       else do {
         st \<leftarrow> reply_loop P fd_client st;
         let st = sys_close (log_fd st) st;
         mutex_unlock_user st
       }
     }
   }"

text \<open>
  \<open>process_message(clientfd, buf, len)\<close> with the \<open>len\<close> bytes of \<open>buf\<close>; a zero byte follows them.
  \<open>file_size += len\<close> overflows a signed \<open>int\<close> when the server has received 2 GiB: undefined.
\<close>

definition process_message :: "'d posix \<Rightarrow> int \<Rightarrow> byte list \<Rightarrow> 'd server \<Rightarrow> 'd server option" where
  "process_message P clientfd buf st =
     (if length buf = 0 then Some st
      else case parse_aesdchar_ioseek buf of
        Some (seek_cmd, seek_off) \<Rightarrow> do {
          let seek_to_cmd = \<lparr>write_cmd = seek_cmd, write_cmd_offset = seek_off\<rparr>;
          let (fd, st) = sys_open P st;
          let st = st\<lparr>log_fd := fd\<rparr>;
          if log_fd st < 0 then Some st
          else do {
            (rc, st) \<leftarrow> sys_ioctl P (log_fd st) seek_to_cmd st;
            st \<leftarrow> (if rc = - 1 then Some st else reply_loop P clientfd st);
            Some (sys_close (log_fd st) st)
          }
        }
      | None \<Rightarrow> do {
          (nbytes, st) \<leftarrow> write_safe P buf st;
          if nbytes < 0 then Some st
          else do {
            assert_c (sint (file_size st) + int (length buf) < 2 ^ 31);
            let st = st\<lparr>file_size := file_size st + word_of_nat (length buf)\<rparr>;
            if strchr_newline buf then dump_file_to_client P clientfd st else Some st
          }
        })"

section \<open>Connections\<close>

text \<open>
  What \<open>read(td->fd, buf, MAXLINE - 1)\<close> gives. \<open>connection_handler\<close> runs over the results of its
  successive reads; when the list ends it waits in \<open>read\<close>. \<open>buf[n] = 0\<close> writes behind the bytes
  read and must stay inside the buffer.
\<close>

datatype net_read = ReadError | ReadEOF | ReadBytes "byte list"

definition finish_connection :: "addr \<Rightarrow> 'd server \<Rightarrow> 'd server option" where
  "finish_connection td st = do {
     t \<leftarrow> tds st td;
     let st = st\<lparr>conns := conns st - {td_fd t}\<rparr>;
     Some (st\<lparr>tds := (tds st)(td \<mapsto> t\<lparr>is_completed := True\<rparr>)\<rparr>)
   }"

fun connection_handler :: "'d posix \<Rightarrow> addr \<Rightarrow> net_read list \<Rightarrow> 'd server \<Rightarrow> 'd server option" where
  "connection_handler P td [] st = Some st"
| "connection_handler P td (r # rs) st =
     (case r of
        ReadError \<Rightarrow> finish_connection td st
      | ReadEOF \<Rightarrow> finish_connection td st
      | ReadBytes bs \<Rightarrow> do {
          t \<leftarrow> tds st td;
          assert_c (length bs < MAXLINE);
          st \<leftarrow> process_message P (td_fd t) bs st;
          connection_handler P td rs st
        })"

section \<open>The list of threads\<close>

text \<open>\<open>malloc\<close> is not checked: with \<open>NULL\<close> the next store is undefined.\<close>

definition add_thread :: "ptr \<Rightarrow> addr \<Rightarrow> 'd server \<Rightarrow> 'd server option" where
  "add_thread datap td st = do {
     a \<leftarrow> datap;
     let its = (items st)(a \<mapsto> \<lparr>sle_next = NULL, selm = td\<rparr>);
     (head, its) \<leftarrow> SLIST_INSERT_HEAD (thrd_head st) datap its;
     Some (st\<lparr>thrd_head := head, items := its, thread_clients := thread_clients st + 1\<rparr>)
   }"

text \<open>\<open>free\<close> of an allocated struct; a second \<open>free\<close> is undefined.\<close>

definition free_td :: "addr \<Rightarrow> 'd server \<Rightarrow> 'd server option" where
  "free_td a st = (if tds st a = None then None else Some (st\<lparr>tds := (tds st)(a := None)\<rparr>))"

definition free_item :: "addr \<Rightarrow> 'd server \<Rightarrow> 'd server option" where
  "free_item a st = (if items st a = None then None else Some (st\<lparr>items := (items st)(a := None)\<rparr>))"

text \<open>
  \<open>pthread_join\<close> of a thread that has set \<open>is_completed\<close> returns; \<open>do_maintenance\<close> joins only
  those.
\<close>

definition maintain_item :: "addr \<Rightarrow> 'd server \<Rightarrow> 'd server option" where
  "maintain_item item st = do {
     n \<leftarrow> items st item;
     t \<leftarrow> tds st (selm n);
     if is_completed t then do {
       (head, its) \<leftarrow> SLIST_REMOVE (thrd_head st) (Some item) (items st);
       let st = st\<lparr>thrd_head := head, items := its\<rparr>;
       st \<leftarrow> free_td (selm n) st;
       st \<leftarrow> free_item item st;
       Some (st\<lparr>thread_clients := thread_clients st - 1\<rparr>)
     }
     else Some st
   }"

definition do_maintenance :: "'d server \<Rightarrow> 'd server option" where
  "do_maintenance st = SLIST_FOREACH_SAFE items maintain_item (SLIST_FIRST (thrd_head st)) st"

section \<open>Start, the accept loop, signals and shutdown\<close>

text \<open>
  \<open>aesd_thrd_initialize\<close> with the return codes of the calls it makes: \<open>pthread_mutex_init\<close> twice,
  \<open>socket\<close>, \<open>bind\<close> and those of \<open>make_daemon\<close>. The results of \<open>setsockopt\<close> and \<open>listen\<close> are not
  looked at.
\<close>

definition aesd_thrd_initialize ::
  "bool \<Rightarrow> int \<Rightarrow> int \<Rightarrow> int \<Rightarrow> int \<Rightarrow> daemon_calls \<Rightarrow> 'd server \<Rightarrow> 'd server init_result" where
  "aesd_thrd_initialize is_daemon rc_write_lock rc_meta_lock sock rc_bind calls st =
     (if rc_write_lock \<noteq> 0 then InitFalse st
      else let st = st\<lparr>write_lock := False, lock_alive := True\<rparr> in
        if rc_meta_lock \<noteq> 0 then InitFalse st
        else let st = st\<lparr>thrd_head := SLIST_INIT, listenfd := sock\<rparr> in
          if listenfd st < 0 then InitFalse st
          else if rc_bind < 0 then InitFalse st
          else case (if is_daemon then make_daemon calls (proc st) else Inr (proc st)) of
            Inl status \<Rightarrow> InitExit status
          | Inr p \<Rightarrow> InitTrue (st\<lparr>proc := p, listening := True\<rparr>))"

text \<open>
  What one turn of the loop of \<open>aesd_thrd_run\<close> meets: the result of \<open>poll\<close>, of \<open>accept\<close>, the
  blocks that the two calls of \<open>malloc\<close> return, and \<open>pthread_create\<close>'s code and thread id. The
  new thread's connection is read in later turns (\<open>connection_handler\<close>).
\<close>

record turn =
  t_nready :: int
  t_connfd :: int
  t_td :: ptr
  t_create :: int
  t_tid :: nat
  t_item :: ptr

datatype loop_exit = Continue | Break

definition run_turn :: "turn \<Rightarrow> 'd server \<Rightarrow> (loop_exit \<times> 'd server) option" where
  "run_turn t st =
     (if sigint_triggered st then Some (Break, st)
      else if sigterm_triggered st then Some (Break, st)
      else if t_nready t > 0 then do {
        let st = st\<lparr>connfd := t_connfd t,
                    conns := (if t_connfd t < 0 then conns st else insert (t_connfd t) (conns st))\<rparr>;
        td \<leftarrow> t_td t;
        let st = st\<lparr>tds := (tds st)(td \<mapsto> \<lparr>td_fd = connfd st, is_completed = False, p_tid = t_tid t\<rparr>)\<rparr>;
        st \<leftarrow> (if t_create t \<noteq> 0
               then free_td td (st\<lparr>conns := conns st - {connfd st}\<rparr>)
               else add_thread (t_item t) td st);
        st \<leftarrow> do_maintenance st;
        Some (Continue, st)
      }
      else Some (Continue, st))"

definition aesd_thrd_signal_triggered :: "int \<Rightarrow> 'd server \<Rightarrow> 'd server" where
  "aesd_thrd_signal_triggered sig st =
     (let st = (if sig = SIGINT then st\<lparr>sigint_triggered := True\<rparr> else st)
      in if sig = SIGTERM then st\<lparr>sigterm_triggered := True\<rparr> else st)"

text \<open>
  \<open>aesd_thrd_shutdown\<close>: to destroy a lock that is held is undefined. The thread that \<open>pthread_join\<close> waits for runs to its end, which is a
  parameter: \<open>finish\<close> is what the remaining reads of the connection do.
\<close>

partial_function (option) shutdown_loop ::
  "(addr \<Rightarrow> 'd server \<Rightarrow> 'd server option) \<Rightarrow> 'd server \<Rightarrow> 'd server option" where
  "shutdown_loop finish st =
     (if SLIST_EMPTY (thrd_head st) then Some st
      else do {
        datap \<leftarrow> SLIST_FIRST (thrd_head st);
        n \<leftarrow> items st datap;
        let td = selm n;
        st \<leftarrow> finish td st;
        head \<leftarrow> SLIST_REMOVE_HEAD (thrd_head st) (items st);
        let st = st\<lparr>thrd_head := head\<rparr>;
        st \<leftarrow> free_td td st;
        st \<leftarrow> free_item datap st;
        shutdown_loop finish st
      })"

definition aesd_thrd_shutdown ::
  "(addr \<Rightarrow> 'd server \<Rightarrow> 'd server option) \<Rightarrow> 'd server \<Rightarrow> 'd server option" where
  "aesd_thrd_shutdown finish st = do {
     let st = st\<lparr>listening := False, log_path := False\<rparr>;
     assert_c (lock_alive st \<and> \<not> write_lock st);
     shutdown_loop finish (st\<lparr>lock_alive := False\<rparr>)
   }"

text \<open>
  \<open>aesd_thrd_run\<close> over what happens while it runs: turns of its loop, what the connection threads
  read and handle in between, and signals, in any order. A thread reads as long as it is allocated
  and not completed. \<^term>\<open>Continue\<close>: the server still runs when the sequence ends.
\<close>

datatype thrd_event = LoopTurn turn | ThreadRead addr net_read | SignalIn int

text \<open>The handler of \<open>main_thrd.c\<close> passes the two signals on.\<close>

definition thrd_signal_handler :: "int \<Rightarrow> 'd server \<Rightarrow> 'd server" where
  "thrd_signal_handler signo st =
     (if signo = SIGINT \<or> signo = SIGTERM then aesd_thrd_signal_triggered signo st else st)"

definition thread_runs :: "addr \<Rightarrow> 'd server \<Rightarrow> bool" where
  "thread_runs td st = (case tds st td of None \<Rightarrow> False | Some t \<Rightarrow> \<not> is_completed t)"

text \<open>
  What \<open>pthread_join\<close> waits for: a thread that has not completed goes on with what its client still
  sends. \<open>hangs_up\<close>: a client that ends its connection, as it must for the thread to return.
\<close>

definition join_thread :: "'d posix \<Rightarrow> (addr \<Rightarrow> net_read list) \<Rightarrow> addr \<Rightarrow> 'd server \<Rightarrow> 'd server option" where
  "join_thread P reads td st = (if thread_runs td st then connection_handler P td (reads td) st else Some st)"

definition hangs_up :: "net_read list \<Rightarrow> bool" where
  "hangs_up rs \<longleftrightarrow> ReadError \<in> set rs \<or> ReadEOF \<in> set rs"

fun aesd_thrd_run :: "'d posix \<Rightarrow> thrd_event list \<Rightarrow> 'd server \<Rightarrow> (loop_exit \<times> 'd server) option" where
  "aesd_thrd_run P [] st = Some (Continue, st)"
| "aesd_thrd_run P (LoopTurn t # es) st = do {
     (e, st) \<leftarrow> run_turn t st;
     if e = Break then Some (Break, st) else aesd_thrd_run P es st
   }"
| "aesd_thrd_run P (ThreadRead td r # es) st =
     (if thread_runs td st
      then do { st \<leftarrow> connection_handler P td [r] st; aesd_thrd_run P es st }
      else aesd_thrd_run P es st)"
| "aesd_thrd_run P (SignalIn sig # es) st = aesd_thrd_run P es (thrd_signal_handler sig st)"

text \<open>
  \<open>main\<close> of \<open>server/main_thrd.c\<close> with the results of the two calls of \<open>sigaction\<close>; the exit status is
  \<^term>\<open>None\<close> while the server runs. The state of a process that has exited inside \<open>make_daemon\<close> is
  the one it started with.
\<close>

definition thrd_main ::
  "string list \<Rightarrow> int \<Rightarrow> int \<Rightarrow> 'd posix \<Rightarrow> int \<Rightarrow> int \<Rightarrow> int \<Rightarrow> int \<Rightarrow> daemon_calls \<Rightarrow> thrd_event list \<Rightarrow>
   (addr \<Rightarrow> 'd server \<Rightarrow> 'd server option) \<Rightarrow> 'd server \<Rightarrow> (int option \<times> 'd server) option" where
  "thrd_main argv rc_int rc_term P rc_write_lock rc_meta_lock sock rc_bind calls es finish st =
     (if rc_int = - 1 then Some (Some (- 1), st)
      else if rc_term = - 1 then Some (Some 1, st)
      else case aesd_thrd_initialize (wants_daemon argv) rc_write_lock rc_meta_lock sock rc_bind calls st of
        InitExit status \<Rightarrow> Some (Some status, st)
      | InitFalse st \<Rightarrow> Some (Some (- 1), st)
      | InitTrue st \<Rightarrow> do {
          (e, st) \<leftarrow> aesd_thrd_run P es st;
          if e = Continue then Some (None, st)
          else do { st \<leftarrow> aesd_thrd_shutdown finish st; Some (Some 0, st) }
        })"

end
