(* ===== verification/ServerMessages.thy ===== *)
theory ServerMessages
  imports ServerThrd
begin

text \<open>
  The message path of the server over any log device that keeps the contract \<open>log_device\<close>: what a
  message does to the device, what the client is sent, and that the lock and the descriptors are
  given back. The facts reach the driver through \<open>good_kernel\<close>.
\<close>

section \<open>Quiet states\<close>

text \<open>Between messages: the lock is free, the log path exists, descriptors are finitely many.\<close>

definition quiet :: "'d server \<Rightarrow> bool" where
  "quiet st \<longleftrightarrow> \<not> write_lock st \<and> lock_alive st \<and> log_path st \<and> finite (dom (open_fds st))"

text \<open>What a message may change: the device, what one client was sent, \<open>log_fd\<close>, \<open>file_size\<close>.\<close>

definition served :: "'d server \<Rightarrow> int \<Rightarrow> byte list \<Rightarrow> 'd \<Rightarrow> 'd server \<Rightarrow> bool" where
  "served st fd out d st' \<longleftrightarrow>
     (\<exists>lfd fs. st' = st\<lparr>log_fd := lfd, file_size := fs, dev := d, sent := (sent st)(fd := sent st fd @ out)\<rparr>)"

lemma served_quiet: "served st fd out d st' \<Longrightarrow> quiet st' = quiet st"
  by (auto simp: served_def quiet_def)

lemma served_fields:
  assumes "served st fd out d st'"
  shows "dev st' = d" "sent st' = (sent st)(fd := sent st fd @ out)" "open_fds st' = open_fds st"
    "tds st' = tds st" "items st' = items st" "thrd_head st' = thrd_head st" "conns st' = conns st"
    "thread_clients st' = thread_clients st"
  using assms by (auto simp: served_def)

lemma served_trans: "served st fd a d st1 \<Longrightarrow> served st1 fd b d' st2 \<Longrightarrow> served st fd (a @ b) d' st2"
proof -
  assume "served st fd a d st1" "served st1 fd b d' st2"
  then obtain l1 f1 l2 f2 where st1: "st1 = st\<lparr>log_fd := l1, file_size := f1, dev := d, sent := (sent st)(fd := sent st fd @ a)\<rparr>"
    and st2: "st2 = st1\<lparr>log_fd := l2, file_size := f2, dev := d', sent := (sent st1)(fd := sent st1 fd @ b)\<rparr>"
    unfolding served_def by blast
  have "st2 = st\<lparr>log_fd := l2, file_size := f2, dev := d', sent := (sent st)(fd := sent st fd @ a @ b)\<rparr>"
    unfolding st2 st1 by simp
  then show "served st fd (a @ b) d' st2"
    unfolding served_def by blast
qed

lemma served_refl: "served st fd [] (dev st) st"
  unfolding served_def by (intro exI [of _ "log_fd st"] exI [of _ "file_size st"]) simp

lemma served_file_size: "served st fd out d st' \<Longrightarrow> served st fd out d (st'\<lparr>file_size := n\<rparr>)"
proof -
  assume "served st fd out d st'"
  then obtain lfd fs where st': "st' = st\<lparr>log_fd := lfd, file_size := fs, dev := d, sent := (sent st)(fd := sent st fd @ out)\<rparr>"
    unfolding served_def by blast
  have "st'\<lparr>file_size := n\<rparr> = st\<lparr>log_fd := lfd, file_size := n, dev := d, sent := (sent st)(fd := sent st fd @ out)\<rparr>"
    unfolding st' by (cases st) simp
  then show ?thesis
    unfolding served_def by blast
qed

section \<open>Over the contract\<close>

locale served_log = readable_log P content dinv
  for P :: "'d posix" and content :: "'d \<Rightarrow> byte list" and dinv :: "'d \<Rightarrow> bool" +
  assumes net_law: "p_net_write P fd bs = int (length bs)"
    and lock_law: "p_mutex_lock P = 0"
begin

lemma open_quiet:
  assumes "log_path st" "finite (dom (open_fds st))"
  obtains lfd where "sys_open P st = (lfd, st\<lparr>open_fds := (open_fds st)(lfd \<mapsto> 0)\<rparr>)" "0 \<le> lfd"
    "open_fds st lfd = None"
proof -
  let ?fd = "p_open P (open_fds st) (dev st)"
  have "0 \<le> ?fd" "open_fds st ?fd = None"
    using open_law [OF assms(2)] by auto
  then show ?thesis
    using assms(1) by (intro that [of ?fd]) (simp_all add: sys_open_def Let_def)
qed

text \<open>The reply loop sends the rest of the content from the descriptor's offset on.\<close>

lemma reply_loop_sends:
  assumes "dinv (dev st)"
  shows "open_fds st (log_fd st) = Some off \<Longrightarrow>
    \<exists>off'. reply_loop P fd st = Some (st\<lparr>open_fds := (open_fds st)(log_fd st \<mapsto> off'),
      sent := (sent st)(fd := sent st fd @ drop (unat off) (content (dev st)))\<rparr>)"
  using assms
proof (induction "length (content (dev st)) - unat off" arbitrary: off st rule: less_induct)
  case less
  let ?c = "content (dev st)"
  let ?j = "min BUFFSIZE (length ?c - unat off)"
  let ?bs = "take ?j (drop (unat off) ?c)"
  let ?st1 = "st\<lparr>open_fds := (open_fds st)(log_fd st \<mapsto> off + word_of_nat ?j)\<rparr>"
  have rd: "sys_read P (log_fd st) BUFFSIZE st = Some (int ?j, ?bs, ?st1)"
    using less.prems read_law [OF less.prems(2), of BUFFSIZE off]
    by (simp add: sys_read_def BUFFSIZE_def Let_def)
  show ?case
  proof (cases "?j = 0")
    case True
    then have "drop (unat off) ?c = []"
      by (simp add: BUFFSIZE_def)
    then show ?thesis
      using rd True by (subst reply_loop.simps) (auto intro!: exI [of _ off])
  next
    case False
    let ?st2 = "?st1\<lparr>sent := (sent st)(fd := sent st fd @ ?bs)\<rparr>"
    have "length ?bs = ?j"
      by simp
    then have snd: "snd (net_write P fd (take (nat (int ?j)) (?bs @ replicate (BUFFSIZE - length ?bs) 0)) ?st1) = ?st2"
      using False by (simp add: net_write_def net_law Let_def)
    have "unat off + ?j \<le> length ?c" "length ?c < 2 ^ 62"
      using False content_law [OF less.prems(2)] by auto
    then have off': "unat (off + word_of_nat ?j) = unat off + ?j"
      by (subst unat_plus_no_wrap) (simp_all add: unat_of_nat_small)
    have "length (content (dev ?st2)) - unat (off + word_of_nat ?j) < length ?c - unat off"
      "open_fds ?st2 (log_fd ?st2) = Some (off + word_of_nat ?j)" "dinv (dev ?st2)"
      using off' False less.prems(2) by auto
    from less.hyps [OF this]
    obtain off2 where ih: "reply_loop P fd ?st2 = Some (?st2\<lparr>open_fds := (open_fds ?st2)(log_fd ?st2 \<mapsto> off2),
        sent := (sent ?st2)(fd := sent ?st2 fd @ drop (unat off + ?j) ?c)\<rparr>)"
      using off' by auto
    have "drop (unat off + ?j) ?c = drop ?j (drop (unat off) ?c)"
      by (simp only: drop_drop add.commute)
    then have "?bs @ drop (unat off + ?j) ?c = drop (unat off) ?c"
      by (simp only: append_take_drop_id)
    then have whole: "(sent st fd @ ?bs) @ drop (unat off + ?j) ?c = sent st fd @ drop (unat off) ?c"
      by (simp only: append.assoc)
    have "reply_loop P fd st = reply_loop P fd ?st2"
      using rd False snd by (subst reply_loop.simps) simp
    then show ?thesis
      unfolding ih using whole by (auto intro!: exI [of _ off2])
  qed
qed

text \<open>A dump sends the whole content and gives lock and descriptor back.\<close>

lemma dump_sends:
  assumes q: "quiet st" and d: "dinv (dev st)"
  shows "\<exists>st'. dump_file_to_client P fd st = Some st' \<and> served st fd (content (dev st)) (dev st) st' \<and>
    file_size st' = file_size st"
proof -
  let ?st0 = "st\<lparr>write_lock := True\<rparr>"
  have q': "\<not> write_lock st" "log_path ?st0" "finite (dom (open_fds ?st0))"
    using q by (auto simp: quiet_def)
  obtain lfd where lfd: "sys_open P ?st0 = (lfd, ?st0\<lparr>open_fds := (open_fds ?st0)(lfd \<mapsto> 0)\<rparr>)" "0 \<le> lfd"
    "open_fds ?st0 lfd = None"
    using open_quiet [OF q'(2,3)] .
  let ?st1 = "?st0\<lparr>open_fds := (open_fds st)(lfd \<mapsto> 0), log_fd := lfd\<rparr>"
  obtain off' where loop: "reply_loop P fd ?st1 = Some (?st1\<lparr>open_fds := (open_fds ?st1)(log_fd ?st1 \<mapsto> off'),
      sent := (sent ?st1)(fd := sent ?st1 fd @ drop (unat (0 :: u64)) (content (dev ?st1)))\<rparr>)"
    using reply_loop_sends [of ?st1 0 fd] d by auto
  have "dump_file_to_client P fd st =
      Some (st\<lparr>log_fd := lfd, sent := (sent st)(fd := sent st fd @ content (dev st))\<rparr>)"
    using q'(1) lfd loop q
    by (simp add: dump_file_to_client_def mutex_lock_def lock_law mutex_unlock_user_def sys_close_def
        fun_upd_idem quiet_def)
  then show ?thesis
    by (auto simp: served_def intro!: exI [of _ lfd] exI [of _ "file_size st"])
qed

text \<open>A message that \<open>write_safe\<close> has stored: with a newline in it, the whole content comes back.\<close>

lemma stored_message:
  assumes q: "quiet st" and p: "parse_aesdchar_ioseek buf = None" "0 < length buf"
    and size: "sint (file_size st) + int (length buf) < 2 ^ 31"
    and st1: "write_safe P buf st = Some (int (length buf), st1)" "served st fd [] d' st1" "file_size st1 = file_size st"
    and d': "dinv d'"
  shows "\<exists>st'. process_message P fd buf st = Some st' \<and>
    served st fd (if strchr_newline buf then content d' else []) d' st' \<and>
    file_size st' = file_size st + word_of_nat (length buf)"
proof -
  let ?st2 = "st1\<lparr>file_size := file_size st + word_of_nat (length buf)\<rparr>"
  have st2: "served st fd [] d' ?st2" "quiet ?st2" "dev ?st2 = d'"
    using served_file_size [OF st1(2)] q served_quiet [OF st1(2)] served_fields(1) [OF st1(2)]
    by (simp_all add: quiet_def)
  show ?thesis
  proof (cases "strchr_newline buf")
    case False
    then have "process_message P fd buf st = Some ?st2"
      using p st1(1,3) size by (simp add: process_message_def)
    then show ?thesis
      using False st2(1) by auto
  next
    case True
    obtain st3 where st3: "dump_file_to_client P fd ?st2 = Some st3" "served ?st2 fd (content d') d' st3"
      "file_size st3 = file_size ?st2"
      using dump_sends [OF st2(2), of fd] st2(3) d' by auto
    have "process_message P fd buf st = Some st3"
      using True p st1(1,3) size st3(1) by (simp add: process_message_def)
    moreover have "served st fd (content d') d' st3"
      using served_trans [OF st2(1) st3(2)] by simp
    ultimately show ?thesis
      using True st3(3) by (intro exI [of _ st3]) simp
  qed
qed

end

locale full_net = log_device P dabs dslots dinv dlimit + served_log P "\<lambda>d. concat (fst (dabs d))" dinv
  for P :: "'d posix" and dabs dslots dinv dlimit
begin

abbreviation content :: "'d \<Rightarrow> byte list" where
  "content d \<equiv> concat (fst (dabs d))"

text \<open>\<open>write_safe\<close> feeds the device and gives lock and descriptor back.\<close>

lemma write_safe_feeds:
  assumes q: "quiet st" and d: "dinv (dev st)"
    and fit: "length (snd (dabs (dev st))) + length bs \<le> dlimit" "length bs < 2 ^ 31"
  shows "\<exists>st' d'. write_safe P bs st = Some (int (length bs), st') \<and> served st fd [] d' st' \<and>
    file_size st' = file_size st \<and> dinv d' \<and> dabs d' = spec_write (dabs (dev st)) bs"
proof -
  let ?st0 = "st\<lparr>write_lock := True\<rparr>"
  have q': "\<not> write_lock st" "log_path ?st0" "finite (dom (open_fds ?st0))"
    using q by (auto simp: quiet_def)
  obtain lfd where lfd: "sys_open P ?st0 = (lfd, ?st0\<lparr>open_fds := (open_fds ?st0)(lfd \<mapsto> 0)\<rparr>)" "0 \<le> lfd"
    "open_fds ?st0 lfd = None"
    using open_quiet [OF q'(2,3)] .
  obtain d' where d': "p_log_write P bs (dev st) = Some (int (length bs), d')" "dinv d'"
    "dabs d' = spec_write (dabs (dev st)) bs"
    using write_law [OF d fit] by blast
  have "write_safe P bs st = Some (int (length bs), st\<lparr>log_fd := lfd, dev := d'\<rparr>)"
    using q'(1) lfd d'(1) q
    by (simp add: write_safe_def mutex_lock_def lock_law sys_write_def mutex_unlock_user_def
        sys_close_def fun_upd_idem quiet_def)
  moreover have "served st fd [] d' (st\<lparr>log_fd := lfd, dev := d'\<rparr>)"
    by (auto simp: served_def intro!: exI [of _ lfd] exI [of _ "file_size st"])
  ultimately show ?thesis
    using d' by auto
qed

text \<open>The seek branch: the content from the requested byte on, or nothing.\<close>

definition seek_reply :: "'d \<Rightarrow> u32 \<Rightarrow> u32 \<Rightarrow> byte list" where
  "seek_reply d c off =
     (case ioctl_target (dslots d) (unat c) (unat off) of None \<Rightarrow> [] | Some p \<Rightarrow> drop p (content d))"

lemma seek_message:
  assumes q: "quiet st" and d: "dinv (dev st)" and p: "parse_aesdchar_ioseek buf = Some (c, off)"
  shows "\<exists>st'. process_message P fd buf st = Some st' \<and> served st fd (seek_reply (dev st) c off) (dev st) st' \<and>
    file_size st' = file_size st"
proof -
  let ?sk = "\<lparr>write_cmd = c, write_cmd_offset = off\<rparr>"
  have q': "\<not> write_lock st" "log_path st" "finite (dom (open_fds st))"
    using q by (auto simp: quiet_def)
  have ne: "buf \<noteq> []"
    using p by (auto simp: parse_aesdchar_ioseek_def c_string_def ioseek_prefix_bytes)
  obtain lfd where lfd: "sys_open P st = (lfd, st\<lparr>open_fds := (open_fds st)(lfd \<mapsto> 0)\<rparr>)" "0 \<le> lfd"
    "open_fds st lfd = None"
    using open_quiet [OF q'(2,3)] .
  let ?st1 = "st\<lparr>open_fds := (open_fds st)(lfd \<mapsto> 0), log_fd := lfd\<rparr>"
  obtain r where r: "r \<noteq> - 1" "p_log_ioctl P ?sk 0 (dev st) = Some
      (case ioctl_target (dslots (dev st)) (unat c) (unat off) of
         None \<Rightarrow> (- 1, 0, dev st) | Some p \<Rightarrow> (r, word_of_nat p, dev st))"
    using ioctl_law [OF d, of ?sk 0] by auto
  show ?thesis
  proof (cases "ioctl_target (dslots (dev st)) (unat c) (unat off)")
    case None
    then have "process_message P fd buf st = Some (st\<lparr>log_fd := lfd\<rparr>)"
      using ne p lfd r(2) by (simp add: process_message_def sys_ioctl_def sys_close_def fun_upd_idem)
    then show ?thesis
      using None by (auto simp: served_def seek_reply_def intro!: exI [of _ lfd] exI [of _ "file_size st"])
  next
    case (Some p)
    have "p \<le> length (content (dev st))"
      by (rule ioctl_in_content [OF d Some])
    then have up: "unat (word_of_nat p :: u64) = p"
      using content_law [OF d] by (intro unat_of_nat_small) simp
    let ?st2 = "?st1\<lparr>open_fds := (open_fds st)(lfd \<mapsto> word_of_nat p)\<rparr>"
    obtain off' where loop: "reply_loop P fd ?st2 = Some (?st2\<lparr>open_fds := (open_fds ?st2)(log_fd ?st2 \<mapsto> off'),
        sent := (sent ?st2)(fd := sent ?st2 fd @ drop (unat (word_of_nat p :: u64)) (content (dev ?st2)))\<rparr>)"
      using reply_loop_sends [of ?st2 "word_of_nat p" fd] d by auto
    have "process_message P fd buf st =
        Some (st\<lparr>log_fd := lfd, sent := (sent st)(fd := sent st fd @ drop p (content (dev st)))\<rparr>)"
      using ne p lfd r Some loop up
      by (simp add: process_message_def sys_ioctl_def sys_close_def fun_upd_idem)
    then show ?thesis
      using Some by (auto simp: served_def seek_reply_def intro!: exI [of _ lfd] exI [of _ "file_size st"])
  qed
qed

text \<open>Any other message: fed to the device; with a newline in it, the whole content comes back.\<close>

lemma data_message:
  assumes q: "quiet st" and d: "dinv (dev st)" and p: "parse_aesdchar_ioseek buf = None"
    and fit: "length (snd (dabs (dev st))) + length buf \<le> dlimit" "0 < length buf" "length buf < 2 ^ 31"
    and size: "sint (file_size st) + int (length buf) < 2 ^ 31"
  shows "\<exists>st' d'. process_message P fd buf st = Some st' \<and>
    served st fd (if strchr_newline buf then content d' else []) d' st' \<and> dinv d' \<and>
    dabs d' = spec_write (dabs (dev st)) buf \<and> file_size st' = file_size st + word_of_nat (length buf)"
proof -
  obtain st1 d' where st1: "write_safe P buf st = Some (int (length buf), st1)" "served st fd [] d' st1"
    "file_size st1 = file_size st" "dinv d'" "dabs d' = spec_write (dabs (dev st)) buf"
    using write_safe_feeds [OF q d fit(1,3)] by blast
  show ?thesis
    using stored_message [OF q p fit(2) size st1(1-4)] st1(4,5) by blast
qed

end

section \<open>A connection\<close>

text \<open>What a client that sends these messages is sent back, and when the messages are plain data.\<close>

fun replies :: "device \<Rightarrow> byte list list \<Rightarrow> byte list" where
  "replies D [] = []"
| "replies D (b # bs) =
     (let D' = spec_write D b in (if strchr_newline b then concat (fst D') else []) @ replies D' bs)"

definition plain_message :: "byte list \<Rightarrow> bool" where
  "plain_message b \<longleftrightarrow> b \<noteq> [] \<and> length b < MAXLINE \<and> parse_aesdchar_ioseek b = None"

context full_net
begin

lemma handler_serves:
  assumes "\<forall>b \<in> set bufs. plain_message b" "tds st td = Some t" "td_fd t = fd"
  shows "quiet st \<Longrightarrow> dinv (dev st) \<Longrightarrow> writes_fit dlimit (dabs (dev st)) bufs \<Longrightarrow>
    0 \<le> sint (file_size st) \<Longrightarrow> sint (file_size st) + int (length (concat bufs)) < 2 ^ 31 \<Longrightarrow>
    \<exists>st' d'. connection_handler P td (map ReadBytes bufs @ rs) st = connection_handler P td rs st' \<and>
      served st fd (replies (dabs (dev st)) bufs) d' st' \<and> dinv d' \<and>
      dabs d' = spec_write (dabs (dev st)) (concat bufs)"
  using assms
proof (induction bufs arbitrary: st)
  case Nil
  then show ?case
    using served_refl [of st fd] by auto
next
  case (Cons b bufs)
  let ?D = "dabs (dev st)"
  have b: "0 < length b" "length b < 4096" "parse_aesdchar_ioseek b = None"
    using Cons.prems(6) by (auto simp: plain_message_def MAXLINE_def)
  have fit: "length (snd ?D) + length b \<le> dlimit" "writes_fit dlimit (spec_write ?D b) bufs"
    using Cons.prems(3) by auto
  have size: "sint (file_size st) + int (length b) < 2 ^ 31"
    using Cons.prems(5) by simp
  have len: "length b < 2 ^ 31"
    using b(2) by simp
  obtain st1 d1 where st1: "process_message P fd b st = Some st1"
    "served st fd (if strchr_newline b then content d1 else []) d1 st1" "dinv d1"
    "dabs d1 = spec_write ?D b" "file_size st1 = file_size st + word_of_nat (length b)"
    using data_message [OF Cons.prems(1,2) b(3) fit(1) b(1) len size, of fd] by blast
  note f1 = served_fields [OF st1(2)]
  have fs: "sint (file_size st1) = sint (file_size st) + int (length b)"
    using sint_plus_u32 [OF Cons.prems(4) size] st1(5) by simp
  have "quiet st1" "dinv (dev st1)" "writes_fit dlimit (dabs (dev st1)) bufs" "0 \<le> sint (file_size st1)"
    "sint (file_size st1) + int (length (concat bufs)) < 2 ^ 31" "\<forall>b \<in> set bufs. plain_message b"
    "tds st1 td = Some t"
    using served_quiet [OF st1(2)] Cons.prems st1(3,4) fit(2) fs f1(1,4) by auto
  from Cons.IH [OF this Cons.prems(8)]
  obtain st2 d2 where st2: "connection_handler P td (map ReadBytes bufs @ rs) st1 = connection_handler P td rs st2"
    "served st1 fd (replies (dabs (dev st1)) bufs) d2 st2" "dinv d2"
    "dabs d2 = spec_write (dabs (dev st1)) (concat bufs)"
    by blast
  have "connection_handler P td (map ReadBytes (b # bufs) @ rs) st = connection_handler P td rs st2"
    using Cons.prems(7,8) b(2) st1(1) st2(1) by (simp add: MAXLINE_def)
  moreover have "served st fd (replies ?D (b # bufs)) d2 st2"
    using served_trans [OF st1(2) st2(2)] st1(4) f1(1) by (simp add: Let_def split: if_splits)
  ultimately show ?case
    using st2(3,4) st1(4) f1(1) by (auto simp: spec_write_append)
qed

end


context full_net
begin

text \<open>The client closes after its messages.\<close>

lemma session:
  assumes "\<forall>b \<in> set bufs. plain_message b" "tds st td = Some t"
    "quiet st" "dinv (dev st)" "writes_fit dlimit (dabs (dev st)) bufs"
    "0 \<le> sint (file_size st)" "sint (file_size st) + int (length (concat bufs)) < 2 ^ 31"
  shows "\<exists>st'. connection_handler P td (map ReadBytes bufs @ [ReadEOF]) st = Some st' \<and>
    sent st' = (sent st)(td_fd t := sent st (td_fd t) @ replies (dabs (dev st)) bufs) \<and>
    dabs (dev st') = spec_write (dabs (dev st)) (concat bufs) \<and> dinv (dev st') \<and>
    quiet st' \<and> open_fds st' = open_fds st \<and> td_fd t \<notin> conns st' \<and>
    tds st' td = Some (t\<lparr>is_completed := True\<rparr>)"
proof -
  obtain st1 d' where st1: "connection_handler P td (map ReadBytes bufs @ [ReadEOF]) st = connection_handler P td [ReadEOF] st1"
    "served st (td_fd t) (replies (dabs (dev st)) bufs) d' st1" "dinv d'"
    "dabs d' = spec_write (dabs (dev st)) (concat bufs)"
    using handler_serves [OF assms(1,2) refl assms(3-7)] by blast
  let ?st2 = "st1\<lparr>conns := conns st1 - {td_fd t}, tds := (tds st1)(td \<mapsto> t\<lparr>is_completed := True\<rparr>)\<rparr>"
  have "connection_handler P td [ReadEOF] st1 = Some ?st2"
    using served_fields(4) [OF st1(2)] assms(2) by (simp add: finish_connection_def)
  moreover have "quiet ?st2"
    using served_quiet [OF st1(2)] assms(3) by (simp add: quiet_def)
  ultimately show ?thesis
    using st1 served_fields [OF st1(2)] by auto
qed

end

section \<open>On the driver\<close>

text \<open>A good kernel and client sockets that take everything they are sent.\<close>

locale good_system = good_kernel k pick net for k pick net +
  assumes net_full: "net fd bs = int (length bs)"

sublocale good_system \<subseteq> served: full_net "driver_posix k pick net" dev_abs dev_raw drv_inv "k_kmalloc_max k"
  by unfold_locales (simp_all add: driver_posix_def net_full)

context good_system
begin

lemmas session_on_driver = served.session
lemmas seek_on_driver = served.seek_message
lemmas seek_reply_driver = served.seek_reply_def

end

interpretation demo_sys: good_system demo_kernel demo_pick_fd demo_net
  by unfold_locales (simp add: demo_net_def)

end
