(* ===== verification/ServerThreads.thy ===== *)
theory ServerThreads
  imports ServerThrd
begin

text \<open>
  The list of connection threads: its well-formedness, and what adding, the maintenance sweep and
  shutdown do to it. Every node and every \<open>struct ThreadData\<close> is reachable from the head once, so
  the frees below are neither double nor dangling, and nothing is left behind.
\<close>

section \<open>Well-formed thread lists\<close>

definition td_of :: "'d server \<Rightarrow> addr \<Rightarrow> addr" where
  "td_of st x = (case items st x of None \<Rightarrow> 0 | Some n \<Rightarrow> selm n)"

definition completed :: "'d server \<Rightarrow> addr \<Rightarrow> bool" where
  "completed st x = (case tds st (td_of st x) of None \<Rightarrow> False | Some t \<Rightarrow> is_completed t)"

definition tlist :: "'d server \<Rightarrow> addr list \<Rightarrow> bool" where
  "tlist st xs \<longleftrightarrow> slist (items st) (thrd_head st) xs \<and> dom (items st) = set xs \<and>
     distinct (map (td_of st) xs) \<and> dom (tds st) = set (map (td_of st) xs) \<and>
     thread_clients st = word_of_nat (length xs)"

lemma tlistD:
  assumes "tlist st xs"
  shows "slist (items st) (thrd_head st) xs" "dom (items st) = set xs" "distinct (map (td_of st) xs)"
    "dom (tds st) = set (map (td_of st) xs)" "thread_clients st = word_of_nat (length xs)" "distinct xs"
  using assms slist_distinct by (auto simp: tlist_def)

section \<open>Adding\<close>

lemma add_thread_tlist:
  assumes t: "tlist st xs" and fresh: "items st a = None" "tds st td = None"
  shows "\<exists>st'. add_thread (Some a) td (st\<lparr>tds := (tds st)(td \<mapsto> t0)\<rparr>) = Some st' \<and> tlist st' (a # xs) \<and>
    tds st' = (tds st)(td \<mapsto> t0) \<and> td_of st' a = td \<and> (\<forall>x \<in> set xs. td_of st' x = td_of st x)"
proof -
  note w = tlistD [OF t]
  have a: "a \<notin> set xs" and td: "td \<notin> set (map (td_of st) xs)"
    using fresh w(2,4) by auto
  let ?its = "(items st)(a \<mapsto> \<lparr>sle_next = thrd_head st, selm = td\<rparr>)"
  let ?st' = "st\<lparr>tds := (tds st)(td \<mapsto> t0), thrd_head := Some a, items := ?its,
                thread_clients := thread_clients st + 1\<rparr>"
  have call: "add_thread (Some a) td (st\<lparr>tds := (tds st)(td \<mapsto> t0)\<rparr>) = Some ?st'"
    by (simp add: add_thread_def SLIST_INSERT_HEAD_def Let_def)
  have tdo: "td_of ?st' a = td" "\<forall>x \<in> set xs. td_of ?st' x = td_of st x"
    using a by (auto simp: td_of_def)
  then have "map (td_of ?st') (a # xs) = td # map (td_of st) xs"
    by simp
  then have "tlist ?st' (a # xs)"
    using w a td unfolding tlist_def by (auto simp del: list.map)
  then show ?thesis
    using call tdo by auto
qed

section \<open>The maintenance sweep\<close>

text \<open>The state in the middle of the sweep: \<open>keep\<close> are the nodes that stayed, \<open>rest\<close> those ahead.\<close>

definition sweep :: "'d server \<Rightarrow> addr list \<Rightarrow> addr list \<Rightarrow> 'd server \<Rightarrow> bool" where
  "sweep st0 keep rest st \<longleftrightarrow> tlist st (keep @ rest) \<and>
     (\<forall>x \<in> set (keep @ rest). td_of st x = td_of st0 x) \<and>
     tds st = tds st0 |` set (map (td_of st0) (keep @ rest)) \<and>
     st\<lparr>items := items st0, tds := tds st0, thrd_head := thrd_head st0, thread_clients := thread_clients st0\<rparr> = st0"

lemma sweep_completed:
  "sweep st0 keep rest st \<Longrightarrow> x \<in> set (keep @ rest) \<Longrightarrow> completed st x = completed st0 x"
proof -
  assume sw: "sweep st0 keep rest st" and x: "x \<in> set (keep @ rest)"
  then have "td_of st x = td_of st0 x" "td_of st0 x \<in> set (map (td_of st0) (keep @ rest))"
    unfolding sweep_def by (blast, auto)
  moreover have "tds st = tds st0 |` set (map (td_of st0) (keep @ rest))"
    using sw by (simp add: sweep_def)
  ultimately have "tds st (td_of st x) = tds st0 (td_of st0 x)"
    by (simp only: restrict_in)
  then show ?thesis
    by (simp add: completed_def)
qed

lemma restrict_dom: "dom m \<subseteq> A \<Longrightarrow> m |` A = m"
  unfolding restrict_map_def fun_eq_iff by (metis domIff subsetD)

lemma maintain_removes:
  assumes sw: "sweep st0 keep (x # rest) st" and c: "completed st x"
  shows "\<exists>st'. maintain_item x st = Some st' \<and> sweep st0 keep rest st' \<and>
    (\<forall>y \<in> set rest. items st' y = items st y)"
proof -
  have t: "tlist st (keep @ x # rest)" and tdo: "\<forall>y \<in> set (keep @ x # rest). td_of st y = td_of st0 y"
    and tds: "tds st = tds st0 |` set (map (td_of st0) (keep @ x # rest))"
    and same: "st\<lparr>items := items st0, tds := tds st0, thrd_head := thrd_head st0, thread_clients := thread_clients st0\<rparr> = st0"
    using sw by (auto simp: sweep_def)
  note w = tlistD [OF t]
  obtain n where n: "items st x = Some n"
    using w(2) by auto
  let ?td = "selm n"
  have td: "td_of st x = ?td"
    using n by (simp add: td_of_def)
  obtain th where th: "tds st ?td = Some th" "is_completed th"
    using c td by (auto simp: completed_def split: option.splits)
  obtain h its where rem: "SLIST_REMOVE (thrd_head st) (Some x) (items st) = Some (h, its)"
    "slist its h (keep @ rest)" "same_elms (items st) its" "\<forall>a. a \<notin> set keep \<longrightarrow> its a = items st a"
    using remove_slist [OF w(1)] by blast
  have x: "x \<notin> set keep" "x \<notin> set rest" "\<forall>y \<in> set rest. y \<notin> set keep"
    using w(6) by auto
  let ?st' = "st\<lparr>thrd_head := h, items := its(x := None), tds := (tds st)(?td := None),
                thread_clients := thread_clients st - 1\<rparr>"
  have call: "maintain_item x st = Some ?st'"
    using n th rem(1,4) x(1) by (simp add: maintain_item_def free_td_def free_item_def)
  have elm: "td_of ?st' y = td_of st y" if "y \<noteq> x" for y
  proof -
    have "map_option selm (its y) = map_option selm (items st y)"
      using rem(3) by (simp add: same_elms_def)
    then show ?thesis
      using that by (auto simp: td_of_def split: option.splits)
  qed
  have domits: "dom its = dom (items st)"
    using rem(3) unfolding same_elms_def dom_def by (metis option.map_disc_iff)
  have mapeq: "map (td_of ?st') (keep @ rest) = map (td_of st) (keep @ rest)"
  proof (rule map_cong [OF refl])
    fix y
    assume "y \<in> set (keep @ rest)"
    then have "y \<noteq> x"
      using x by auto
    then show "td_of ?st' y = td_of st y"
      by (rule elm)
  qed
  have tdx: "?td \<notin> set (map (td_of st) (keep @ rest))"
    using w(3) td by auto
  have "slist (its(x := None)) h (keep @ rest)"
    using rem(2) x by simp
  moreover have "dom (its(x := None)) = set (keep @ rest)"
    using domits w(2) x by auto
  moreover have "dom ((tds st)(?td := None)) = set (map (td_of st) (keep @ rest))"
    using w(4) td tdx by auto
  moreover have "distinct (map (td_of st) (keep @ rest))"
    using w(3) by simp
  ultimately have "tlist ?st' (keep @ rest)"
    unfolding tlist_def mapeq using w(5) by (simp del: map_append set_map set_append)
  moreover have "\<forall>y \<in> set (keep @ rest). td_of ?st' y = td_of st0 y"
  proof
    fix y
    assume "y \<in> set (keep @ rest)"
    then have "y \<noteq> x" "td_of st y = td_of st0 y"
      using x tdo by auto
    then show "td_of ?st' y = td_of st0 y"
      using elm by metis
  qed
  moreover have "tds ?st' = tds st0 |` set (map (td_of st0) (keep @ rest))"
  proof -
    have "map (td_of st0) (keep @ rest) = map (td_of st) (keep @ rest)" "td_of st0 x = ?td"
      using tdo td by auto
    then show ?thesis
      using tds tdx by (auto simp: fun_eq_iff restrict_map_def)
  qed
  moreover have "?st'\<lparr>items := items st0, tds := tds st0, thrd_head := thrd_head st0, thread_clients := thread_clients st0\<rparr> = st0"
    using same by simp
  ultimately have "sweep st0 keep rest ?st'"
    by (simp add: sweep_def)
  moreover have "\<forall>y \<in> set rest. items ?st' y = items st y"
    using rem(4) x by auto
  ultimately show ?thesis
    using call by blast
qed

lemma maintain_keeps:
  assumes sw: "sweep st0 keep (x # rest) st" and c: "\<not> completed st x"
  shows "maintain_item x st = Some st"
proof -
  note w = tlistD [of st "keep @ x # rest"]
  have t: "tlist st (keep @ x # rest)"
    using sw by (simp add: sweep_def)
  obtain n where n: "items st x = Some n"
    using w(2) [OF t] by auto
  then have "td_of st x = selm n"
    by (simp add: td_of_def)
  moreover have "td_of st x \<in> dom (tds st)"
    using w(4) [OF t] by simp
  ultimately show ?thesis
    using n c by (auto simp: maintain_item_def completed_def)
qed

lemma do_maintenance_spec:
  assumes t: "tlist st xs"
  shows "\<exists>st'. do_maintenance st = Some st' \<and>
    sweep st (filter (\<lambda>x. \<not> completed st x) xs) [] st'"
proof -
  let ?keep = "filter (\<lambda>x. \<not> completed st x)"
  define I where "I = (\<lambda>rest s. \<exists>done. xs = done @ rest \<and> sweep st (?keep done) rest s)"
  have body: "\<exists>s'. maintain_item x s = Some s' \<and> I rest s' \<and>
      (\<forall>y \<in> set rest. map_option sle_next (items s' y) = map_option sle_next (items s y))"
    if inv: "I (x # rest) s" for x rest s
  proof -
    obtain dn where dn: "xs = dn @ x # rest" "sweep st (?keep dn) (x # rest) s"
      using inv by (auto simp: I_def)
    have c: "completed s x = completed st x"
      using sweep_completed [OF dn(2)] by simp
    have xs: "xs = (dn @ [x]) @ rest"
      using dn(1) by simp
    show ?thesis
    proof (cases "completed s x")
      case True
      then have "?keep (dn @ [x]) = ?keep dn"
        using c by simp
      then show ?thesis
        using maintain_removes [OF dn(2) True] xs unfolding I_def by metis
    next
      case False
      then have "sweep st (?keep (dn @ [x])) rest s"
        using dn(2) c by (simp add: sweep_def)
      then show ?thesis
        using maintain_keeps [OF dn(2) False] xs unfolding I_def by blast
    qed
  qed
  have "tds st |` set (map (td_of st) xs) = tds st"
    using tlistD(4) [OF t] by (intro restrict_dom) simp
  then have "I xs st"
    using t unfolding I_def by (intro exI [of _ "[]"]) (simp add: sweep_def)
  then show ?thesis
    using foreach_safe_rule [where I = I and st = items and body = maintain_item and p = "thrd_head st"
        and xs = xs and s = st] body tlistD(1) [OF t]
    by (auto simp: do_maintenance_def SLIST_FIRST_def I_def)
qed

section \<open>Shutdown\<close>

text \<open>
  Waiting for a thread lets its connection run to the end: it may change anything of the message
  path, but not the list.
\<close>

definition finish_ok :: "(addr \<Rightarrow> 'd server \<Rightarrow> 'd server option) \<Rightarrow> 'd server \<Rightarrow> bool" where
  "finish_ok finish st0 \<longleftrightarrow> (\<forall>td st. td \<in> dom (tds st) \<longrightarrow> dom (tds st) \<subseteq> dom (tds st0) \<longrightarrow>
     (\<exists>st'. finish td st = Some st' \<and> items st' = items st \<and> thrd_head st' = thrd_head st \<and>
        dom (tds st') = dom (tds st) \<and> thread_clients st' = thread_clients st))"

lemma shutdown_loop_frees:
  assumes fin: "finish_ok finish st0"
  shows "slist (items st) (thrd_head st) xs \<Longrightarrow> dom (items st) = set xs \<Longrightarrow>
    distinct (map (td_of st) xs) \<Longrightarrow> dom (tds st) = set (map (td_of st) xs) \<Longrightarrow>
    dom (tds st) \<subseteq> dom (tds st0) \<Longrightarrow>
    \<exists>st'. shutdown_loop finish st = Some st' \<and> items st' = Map.empty \<and> tds st' = Map.empty \<and> thrd_head st' = NULL"
proof (induction xs arbitrary: st)
  case Nil
  then show ?case
    by (subst shutdown_loop.simps) (simp add: SLIST_EMPTY_def)
next
  case (Cons x xs)
  obtain n where n: "thrd_head st = Some x" "items st x = Some n" "slist (items st) (sle_next n) xs"
    using Cons.prems(1) by auto
  have dist: "x \<notin> set xs"
    using slist_distinct [OF Cons.prems(1)] by simp
  have td: "td_of st x = selm n"
    using n(2) by (simp add: td_of_def)
  have "selm n \<in> dom (tds st)"
    using Cons.prems(4) td by simp
  then obtain st1 where st1: "finish (selm n) st = Some st1" "items st1 = items st" "thrd_head st1 = thrd_head st"
    "dom (tds st1) = dom (tds st)"
    using fin Cons.prems(5) unfolding finish_ok_def by blast
  let ?st2 = "st1\<lparr>thrd_head := sle_next n, tds := (tds st1)(selm n := None), items := (items st1)(x := None)\<rparr>"
  obtain t1 where free: "tds st1 (selm n) = Some t1"
    using \<open>selm n \<in> dom (tds st)\<close> st1(4) by auto
  have "shutdown_loop finish st = shutdown_loop finish ?st2"
    using n st1 free
    by (subst shutdown_loop.simps) (simp add: SLIST_EMPTY_def SLIST_FIRST_def SLIST_REMOVE_HEAD_def
        free_td_def free_item_def Let_def)
  moreover have tdo: "map (td_of ?st2) xs = map (td_of st) xs"
    using dist st1(2) by (auto simp: td_of_def)
  have "slist (items ?st2) (thrd_head ?st2) xs" "dom (items ?st2) = set xs" "distinct (map (td_of ?st2) xs)"
    "dom (tds ?st2) = set (map (td_of ?st2) xs)" "dom (tds ?st2) \<subseteq> dom (tds st0)"
    unfolding tdo using n(3) dist st1 Cons.prems(2,3,4,5) td by auto
  from Cons.IH [OF this]
  have "\<exists>st'. shutdown_loop finish ?st2 = Some st' \<and> items st' = Map.empty \<and> tds st' = Map.empty \<and> thrd_head st' = NULL" .
  ultimately show ?case
    by simp
qed


section \<open>Messages leave the list alone\<close>

definition list_same :: "'d server \<Rightarrow> 'd server \<Rightarrow> bool" where
  "list_same st st' \<longleftrightarrow> items st' = items st \<and> thrd_head st' = thrd_head st \<and>
     thread_clients st' = thread_clients st \<and> tds st' = tds st \<and> lock_alive st' = lock_alive st"

lemma list_same_refl [simp]: "list_same st st"
  by (simp add: list_same_def)

lemma list_same_trans: "list_same a b \<Longrightarrow> list_same b c \<Longrightarrow> list_same a c"
  by (simp add: list_same_def)

lemma calls_list_same:
  "sys_open P st = (fd, st1) \<Longrightarrow> list_same st st1"
  "sys_read P fd n st = Some (r, bs, st2) \<Longrightarrow> list_same st st2"
  "sys_write P fd bs st = Some (r, st3) \<Longrightarrow> list_same st st3"
  "sys_ioctl P fd sk st = Some (r, st4) \<Longrightarrow> list_same st st4"
  "mutex_lock P st = Some (rc, st5) \<Longrightarrow> list_same st st5"
  "mutex_unlock_user st = Some st6 \<Longrightarrow> list_same st st6"
  "net_write P fd bs st = (nw, st7) \<Longrightarrow> list_same st st7"
  by (auto simp: list_same_def sys_open_def sys_read_def sys_write_def sys_ioctl_def mutex_lock_def
      mutex_unlock_user_def net_write_def Let_def bind_eq_Some_conv split: if_splits option.splits)

lemma fields_list_same [simp]:
  "list_same st (sys_close fd st') = list_same st st'"
  "list_same st (st'\<lparr>log_fd := l\<rparr>) = list_same st st'"
  "list_same st (st'\<lparr>file_size := n\<rparr>) = list_same st st'"
  by (simp_all add: list_same_def sys_close_def)

text \<open>Induction over a reply loop that returns: the last read, or a read, what is sent and the rest.\<close>

lemma reply_loop_induct [consumes 1, case_names last more]:
  fixes P :: "'b posix"
  assumes run: "reply_loop P fd st = Some st'"
    and last: "\<And>st rn bs st1. sys_read P (log_fd st) BUFFSIZE st = Some (rn, bs, st1) \<Longrightarrow> \<not> 0 < rn \<Longrightarrow> Q st st1"
    and more: "\<And>st rn bs st1 st'. sys_read P (log_fd st) BUFFSIZE st = Some (rn, bs, st1) \<Longrightarrow> 0 < rn \<Longrightarrow>
      Q (snd (net_write P fd (take (nat rn) (bs @ replicate (BUFFSIZE - length bs) 0)) st1)) st' \<Longrightarrow> Q st st'"
  shows "Q st st'"
proof -
  define R where "R = (\<lambda>((P' :: 'b posix, fd' :: int), st :: 'b server) st'. P' = P \<longrightarrow> fd' = fd \<longrightarrow> Q st st')"
  have "R ((P, fd), st) st'"
  proof (rule reply_loop.raw_induct [OF _ run])
    fix f and P' :: "'b posix" and fd' and st st' :: "'b server"
    assume ih: "\<And>P fd st y. f P fd st = Some y \<Longrightarrow> R ((P, fd), st) y"
    assume run: "sys_read P' (log_fd st) BUFFSIZE st \<bind> (\<lambda>(rn, bs, st).
        if 0 < rn then f P' fd' (snd (net_write P' fd' (take (nat rn) (bs @ replicate (BUFFSIZE - length bs) 0)) st))
        else Some st) = Some st'"
    then obtain rn bs st1 where rd: "sys_read P' (log_fd st) BUFFSIZE st = Some (rn, bs, st1)"
      by (auto simp: bind_eq_Some_conv)
    show "R ((P', fd'), st) st'"
    proof (cases "0 < rn")
      case True
      let ?st2 = "snd (net_write P' fd' (take (nat rn) (bs @ replicate (BUFFSIZE - length bs) 0)) st1)"
      have "f P' fd' ?st2 = Some st'"
        using run rd True by simp
      then show ?thesis
        using ih [of P' fd' ?st2 st'] more [of st rn bs st1 st'] rd True by (auto simp: R_def)
    next
      case False
      then show ?thesis
        using run rd last by (auto simp: R_def)
    qed
  qed
  then show ?thesis
    by (simp add: R_def)
qed

lemma reply_loop_list_same: "reply_loop P fd st = Some st' \<Longrightarrow> list_same st st'"
proof (induction rule: reply_loop_induct)
  case (last st rn bs st1)
  then show ?case
    using calls_list_same(2) by blast
next
  case (more st rn bs st1 st')
  let ?w = "net_write P fd (take (nat rn) (bs @ replicate (BUFFSIZE - length bs) 0)) st1"
  have "list_same st (snd ?w)"
    using calls_list_same(2) [OF more(1)] calls_list_same(7) [of P fd _ st1 "fst ?w" "snd ?w"] list_same_trans by auto
  then show ?case
    using more(3) list_same_trans by blast
qed

lemma write_safe_list_same:
  assumes "write_safe P buf st = Some (n, st')"
  shows "list_same st st'"
proof -
  obtain rc st1 where lock: "mutex_lock P st = Some (rc, st1)"
    using assms by (auto simp: write_safe_def bind_eq_Some_conv)
  obtain fd st2 where opn: "sys_open P st1 = (fd, st2)"
    by (cases "sys_open P st1")
  have same: "list_same st st1" "list_same st (st2\<lparr>log_fd := fd\<rparr>)"
    using calls_list_same(5) [OF lock] calls_list_same(1) [OF opn] list_same_trans by auto
  show ?thesis
  proof (cases "rc \<noteq> 0 \<or> fd < 0")
    case True
    then show ?thesis
      using assms lock opn same by (auto simp: write_safe_def split: if_splits)
  next
    case False
    then obtain st3 st4 where w: "sys_write P fd buf (st2\<lparr>log_fd := fd\<rparr>) = Some (n, st3)"
      "mutex_unlock_user st3 = Some st4" "st' = sys_close (log_fd st4) st4"
      using assms lock opn by (auto simp: write_safe_def bind_eq_Some_conv)
    then show ?thesis
      using calls_list_same(3) [OF w(1)] calls_list_same(6) [OF w(2)] same(2) list_same_trans
      by (metis fields_list_same(1))
  qed
qed

lemma dump_list_same:
  assumes "dump_file_to_client P c st = Some st'"
  shows "list_same st st'"
proof -
  obtain rc st1 where lock: "mutex_lock P st = Some (rc, st1)"
    using assms by (auto simp: dump_file_to_client_def bind_eq_Some_conv)
  obtain fd st2 where opn: "sys_open P st1 = (fd, st2)"
    by (cases "sys_open P st1")
  have same: "list_same st st1" "list_same st (st2\<lparr>log_fd := fd\<rparr>)"
    using calls_list_same(5) [OF lock] calls_list_same(1) [OF opn] list_same_trans by auto
  consider "rc \<noteq> 0" | "rc = 0" "fd < 0" | "rc = 0" "\<not> fd < 0"
    by blast
  then show ?thesis
  proof cases
    case 1
    then show ?thesis
      using assms lock same by (simp add: dump_file_to_client_def)
  next
    case 2
    then have "mutex_unlock_user (st2\<lparr>log_fd := fd\<rparr>) = Some st'"
      using assms lock opn by (simp add: dump_file_to_client_def)
    then show ?thesis
      using calls_list_same(6) same(2) list_same_trans by blast
  next
    case 3
    then obtain st3 where w: "reply_loop P c (st2\<lparr>log_fd := fd\<rparr>) = Some st3"
      "mutex_unlock_user (sys_close (log_fd st3) st3) = Some st'"
      using assms lock opn by (auto simp: dump_file_to_client_def bind_eq_Some_conv)
    then show ?thesis
      using reply_loop_list_same [OF w(1)] calls_list_same(6) [OF w(2)] same(2) list_same_trans
      by (metis fields_list_same(1))
  qed
qed

lemma process_message_list_same:
  assumes "process_message P c buf st = Some st'"
  shows "list_same st st'"
proof (cases "buf = [] \<or> parse_aesdchar_ioseek buf = None")
  case True
  show ?thesis
  proof (cases "buf = []")
    case False
    then obtain n st1 where w: "write_safe P buf st = Some (n, st1)"
      "(if n < 0 then Some st1 else do {
          assert_c (sint (file_size st1) + int (length buf) < 2 ^ 31);
          let st = st1\<lparr>file_size := file_size st1 + word_of_nat (length buf)\<rparr>;
          if strchr_newline buf then dump_file_to_client P c st else Some st }) = Some st'"
      using True assms by (auto simp: process_message_def bind_eq_Some_conv)
    note same = write_safe_list_same [OF w(1)]
    let ?st2 = "st1\<lparr>file_size := file_size st1 + word_of_nat (length buf)\<rparr>"
    show ?thesis
      using w(2) same dump_list_same [of P c ?st2 st'] list_same_trans [of st ?st2 st']
      by (auto simp: Let_def split: if_splits)
  qed (use assms in \<open>simp add: process_message_def\<close>)
next
  case False
  then obtain sc so where p: "buf \<noteq> []" "parse_aesdchar_ioseek buf = Some (sc, so)"
    by auto
  obtain fd st1 where opn: "sys_open P st = (fd, st1)"
    by (cases "sys_open P st")
  have same: "list_same st (st1\<lparr>log_fd := fd\<rparr>)"
    using calls_list_same(1) [OF opn] by simp
  show ?thesis
  proof (cases "fd < 0")
    case True
    then show ?thesis
      using assms p opn same by (simp add: process_message_def)
  next
    case False
    then obtain rc st2 st3 where
      s: "sys_ioctl P fd \<lparr>write_cmd = sc, write_cmd_offset = so\<rparr> (st1\<lparr>log_fd := fd\<rparr>) = Some (rc, st2)"
      "(if rc = - 1 then Some st2 else reply_loop P c st2) = Some st3" "st' = sys_close (log_fd st3) st3"
      using assms p opn by (auto simp: process_message_def bind_eq_Some_conv)
    have "list_same st2 st3"
      using s(2) reply_loop_list_same by (auto split: if_splits)
    then show ?thesis
      using calls_list_same(4) [OF s(1)] same s(3) list_same_trans by (metis fields_list_same(1))
  qed
qed


section \<open>The serving process\<close>

lemma tlist_list_same: "list_same st st' \<Longrightarrow> tlist st' xs = tlist st xs"
  by (simp add: list_same_def tlist_def td_of_def cong: map_cong)

lemma tlist_tds:
  "tlist st xs \<Longrightarrow> items st' = items st \<Longrightarrow> thrd_head st' = thrd_head st \<Longrightarrow>
   thread_clients st' = thread_clients st \<Longrightarrow> dom (tds st') = dom (tds st) \<Longrightarrow> tlist st' xs"
  by (simp add: tlist_def td_of_def cong: map_cong)

text \<open>Both calls of \<open>malloc\<close> in a turn return fresh blocks.\<close>

definition turn_ok :: "turn \<Rightarrow> 'd server \<Rightarrow> bool" where
  "turn_ok t st \<longleftrightarrow> (\<exists>a. t_td t = Some a \<and> tds st a = None) \<and> (\<exists>a. t_item t = Some a \<and> items st a = None)"

text \<open>
  The threads after a turn: the new one in front, unless it could not be created, then those that
  had not completed.
\<close>

definition turn_list :: "turn \<Rightarrow> 'd server \<Rightarrow> addr list \<Rightarrow> addr list" where
  "turn_list t st xs =
     (if t_nready t > 0 \<and> \<not> sigint_triggered st \<and> \<not> sigterm_triggered st
      then (if t_create t = 0 then [the (t_item t)] else []) @ filter (\<lambda>x. \<not> completed st x) xs
      else xs)"

lemma run_turn_tlist:
  assumes t: "tlist st xs" and ok: "turn_ok t st"
  shows "\<exists>e st'. run_turn t st = Some (e, st') \<and> tlist st' (turn_list t st xs)"
proof (cases "t_nready t > 0 \<and> \<not> sigint_triggered st \<and> \<not> sigterm_triggered st")
  case False
  then show ?thesis
    using t by (auto simp: run_turn_def turn_list_def)
next
  case True
  obtain td a where td: "t_td t = Some td" "tds st td = None" and a: "t_item t = Some a" "items st a = None"
    using ok by (auto simp: turn_ok_def)
  let ?s0 = "st\<lparr>connfd := t_connfd t,
                conns := (if t_connfd t < 0 then conns st else insert (t_connfd t) (conns st))\<rparr>"
  let ?th = "\<lparr>td_fd = t_connfd t, is_completed = False, p_tid = t_tid t\<rparr>"
  let ?s1 = "?s0\<lparr>tds := (tds st)(td \<mapsto> ?th)\<rparr>"
  have t0: "tlist ?s0 xs"
    using t tlist_list_same [of st ?s0 xs] by (simp add: list_same_def)
  have same_td: "td_of ?s0 x = td_of st x" for x
    by (simp add: td_of_def)
  show ?thesis
  proof (cases "t_create t = 0")
    case created: True
    obtain st2 where st2: "add_thread (Some a) td ?s1 = Some st2" "tlist st2 (a # xs)"
      "tds st2 = (tds st)(td \<mapsto> ?th)" "td_of st2 a = td" "\<forall>x \<in> set xs. td_of st2 x = td_of st x"
      using add_thread_tlist [OF t0, of a td ?th] a(2) td(2) same_td by auto
    have live: "\<not> completed st2 a" "\<forall>x \<in> set xs. completed st2 x = completed st x"
    proof -
      show "\<not> completed st2 a"
        using st2(3,4) by (simp add: completed_def)
      have "td \<notin> set (map (td_of st) xs)"
        using tlistD(4) [OF t] td(2) by auto
      then show "\<forall>x \<in> set xs. completed st2 x = completed st x"
        using st2(3,5) by (auto simp: completed_def)
    qed
    obtain st3 where st3: "do_maintenance st2 = Some st3"
      "sweep st2 (filter (\<lambda>x. \<not> completed st2 x) (a # xs)) [] st3"
      using do_maintenance_spec [OF st2(2)] by blast
    have "filter (\<lambda>x. \<not> completed st2 x) xs = filter (\<lambda>x. \<not> completed st x) xs"
      using live(2) by (intro filter_cong) auto
    then have "filter (\<lambda>x. \<not> completed st2 x) (a # xs) = turn_list t st xs"
      using True created live(1) a(1) by (simp add: turn_list_def)
    moreover have "run_turn t st = Some (Continue, st3)"
      using True created td(1) a(1) st2(1) st3(1) by (simp add: run_turn_def Let_def)
    ultimately show ?thesis
      using st3(2) by (auto simp: sweep_def)
  next
    case failed: False
    let ?s2 = "?s1\<lparr>conns := conns ?s1 - {t_connfd t}, tds := (tds ?s1)(td := None)\<rparr>"
    have tds2: "tds ?s2 = tds st"
      using td(2) by auto
    have t2: "tlist ?s2 xs"
      using tds2 by (intro tlist_tds [OF t]) simp_all
    have "completed ?s2 x = completed st x" for x
      using tds2 by (simp add: completed_def td_of_def)
    then have "filter (\<lambda>x. \<not> completed ?s2 x) xs = turn_list t st xs"
      using True failed by (simp add: turn_list_def)
    moreover obtain st3 where "do_maintenance ?s2 = Some st3" "sweep ?s2 (filter (\<lambda>x. \<not> completed ?s2 x) xs) [] st3"
      using do_maintenance_spec [OF t2] by blast
    moreover have "run_turn t st = map_option (Pair Continue) (do_maintenance ?s2)"
      using True failed td(1) by (cases "do_maintenance ?s2") (simp_all add: run_turn_def Let_def free_td_def)
    ultimately show ?thesis
      by (auto simp: sweep_def)
  qed
qed

text \<open>A turn does not touch the lock.\<close>

lemma do_maintenance_alive: "do_maintenance st = Some st' \<Longrightarrow> lock_alive st' = lock_alive st"
  unfolding do_maintenance_def
  by (erule foreach_safe_keeps [where Q = "\<lambda>s. lock_alive s = lock_alive st", rotated])
    (auto simp: maintain_item_def free_td_def free_item_def Let_def bind_eq_Some_conv split: if_splits)

lemma run_turn_alive: "run_turn t st = Some (e, st') \<Longrightarrow> lock_alive st' = lock_alive st"
  by (auto simp: run_turn_def add_thread_def free_td_def Let_def bind_eq_Some_conv split: if_splits
      dest!: do_maintenance_alive)

text \<open>The statics of the file, and every state that a started server can be in.\<close>

definition server_static :: "'d \<Rightarrow> 'd server" where
  "server_static d =
     \<lparr>log_fd = - 1, connfd = - 1, listenfd = 0, sigint_triggered = False, sigterm_triggered = False,
      write_lock = False, lock_alive = False, file_size = 0, thread_clients = 0, thrd_head = NULL, items = Map.empty,
      tds = Map.empty, open_fds = Map.empty, conns = {}, sent = (\<lambda>_. []), dev = d, log_path = True,
      listening = False, proc = fresh_process\<rparr>"

inductive serving :: "'d posix \<Rightarrow> 'd server \<Rightarrow> bool" for P where
  start: "aesd_thrd_initialize is_daemon rc1 rc2 sock rc3 calls (server_static d) = InitTrue st \<Longrightarrow> serving P st"
| turn: "serving P st \<Longrightarrow> turn_ok t st \<Longrightarrow> run_turn t st = Some (Continue, st') \<Longrightarrow> serving P st'"
| chunk: "serving P st \<Longrightarrow> thread_runs td st \<Longrightarrow> connection_handler P td [r] st = Some st' \<Longrightarrow> serving P st'"
| signal: "serving P st \<Longrightarrow> serving P (thrd_signal_handler sig st)"

lemma finish_tlist:
  assumes "tlist st xs" "finish_connection td st = Some st'"
  shows "tlist st' xs"
proof -
  obtain t where t: "tds st td = Some t"
    "st' = st\<lparr>conns := conns st - {td_fd t}, tds := (tds st)(td \<mapsto> t\<lparr>is_completed := True\<rparr>)\<rparr>"
    using assms(2) by (auto simp: finish_connection_def bind_eq_Some_conv)
  show ?thesis
    using t by (intro tlist_tds [OF assms(1)]) auto
qed

lemma handler_tlist:
  assumes "tlist st xs" "connection_handler P td [r] st = Some st'"
  shows "tlist st' xs \<and> lock_alive st' = lock_alive st"
proof (cases r)
  case (ReadBytes bs)
  then obtain t :: thread_data where "process_message P (td_fd t) bs st = Some st'"
    using assms(2) by (auto simp: bind_eq_Some_conv split: if_splits)
  then show ?thesis
    using assms(1) process_message_list_same tlist_list_same unfolding list_same_def by metis
next
  case ReadError
  then have "finish_connection td st = Some st'"
    using assms(2) by simp
  then show ?thesis
    using finish_tlist [OF assms(1)] by (auto simp: finish_connection_def bind_eq_Some_conv)
next
  case ReadEOF
  then have "finish_connection td st = Some st'"
    using assms(2) by simp
  then show ?thesis
    using finish_tlist [OF assms(1)] by (auto simp: finish_connection_def bind_eq_Some_conv)
qed

lemma serving_tlist: "serving P st \<Longrightarrow> lock_alive st \<and> (\<exists>xs. tlist st xs)"
proof (induction rule: serving.induct)
  case (start is_daemon rc1 rc2 sock rc3 calls d st)
  then have "tlist st []" "lock_alive st"
    by (auto simp: aesd_thrd_initialize_def server_static_def tlist_def SLIST_INIT_def Let_def split: if_splits sum.splits)
  then show ?case by blast
next
  case (turn st t st')
  then show ?case
    using run_turn_tlist [of st _ t] run_turn_alive [of t st] by fastforce
next
  case (chunk st td r st')
  then show ?case
    using handler_tlist by blast
next
  case (signal st sig)
  then obtain xs where alive: "lock_alive st" and t: "tlist st xs"
    by blast
  have "tlist (thrd_signal_handler sig st) xs"
    by (rule tlist_tds [OF t]) (simp_all add: thrd_signal_handler_def aesd_thrd_signal_triggered_def Let_def)
  then show ?case
    using alive by (auto simp: thrd_signal_handler_def aesd_thrd_signal_triggered_def Let_def)
qed

end
