(* ===== verification/ServerProperties.thy ===== *)
theory ServerProperties
  imports ServerMessages ServerThreads DriverProperties
begin

text \<open>
  What the server guarantees on top of the driver, with concrete runs: a freshly started server
  over the freshly loaded driver, one connection on descriptor 7.
\<close>

section \<open>A concrete server\<close>

definition demo_td :: thread_data where
  "demo_td = \<lparr>td_fd = 7, is_completed = False, p_tid = 1\<rparr>"

definition demo_server :: "aesd_state server" where
  "demo_server = (server_static demo_loaded)\<lparr>tds := [1 \<mapsto> demo_td], conns := {7}, lock_alive := True\<rparr>"

lemma demo_server_facts:
  "quiet demo_server" "dev demo_server = demo_loaded" "tds demo_server 1 = Some demo_td"
  "file_size demo_server = 0" "sent demo_server = (\<lambda>_. [])" "td_fd demo_td = 7"
  "open_fds demo_server = Map.empty" "write_lock demo_server = False" "lock_alive demo_server"
  by (simp_all add: demo_server_def server_static_def quiet_def demo_td_def)

abbreviation demo_posix :: "aesd_state posix" where
  "demo_posix \<equiv> driver_posix demo_kernel demo_pick_fd demo_net"

section \<open>Messages\<close>

text \<open>
  C4 (a session): a client that sends plain messages (at least one byte, below \<open>MAXLINE\<close>, no seek
  command) and then closes is served to the end: every message is fed to the driver, after each
  one with a newline the whole content of the device comes back, the lock and all descriptors are
  given back, the socket is closed and the thread marked as completed.
\<close>

theorem session_served:
  assumes "good_system k pick net" "quiet st" "drv_inv (dev st)" "tds st td = Some t"
    "\<forall>b \<in> set bufs. plain_message b" "writes_fit (k_kmalloc_max k) (dev_abs (dev st)) bufs"
    "0 \<le> sint (file_size st)" "sint (file_size st) + int (length (concat bufs)) < 2 ^ 31"
  shows "\<exists>st'. connection_handler (driver_posix k pick net) td (map ReadBytes bufs @ [ReadEOF]) st = Some st' \<and>
    sent st' = (sent st)(td_fd t := sent st (td_fd t) @ replies (dev_abs (dev st)) bufs) \<and>
    dev_abs (dev st') = spec_write (dev_abs (dev st)) (concat bufs) \<and> drv_inv (dev st') \<and>
    quiet st' \<and> open_fds st' = open_fds st \<and> td_fd t \<notin> conns st' \<and>
    tds st' td = Some (t\<lparr>is_completed := True\<rparr>)"
  using good_system.session_on_driver [OF assms(1,5,4,2,3,6,7,8)] .

lemma demo_plain: "plain_message [104, 10]" "plain_message [105]"
  by (simp_all add: plain_message_def MAXLINE_def parse_aesdchar_ioseek_def c_string_def ioseek_prefix_bytes)

theorem session_served_witness:
  "\<exists>st'. connection_handler demo_posix 1 [ReadBytes [104, 10], ReadBytes [105], ReadEOF] demo_server = Some st' \<and>
     sent st' 7 = [104, 10] \<and> dev_abs (dev st') = ([[104, 10]], [105])"
proof -
  have fit: "writes_fit (k_kmalloc_max demo_kernel) (dev_abs (dev demo_server)) [[104, 10], [105]]"
    by (simp add: demo_server_facts demo_inv demo_calls spec_write_def newline_def)
  have "replies (dev_abs (dev demo_server)) [[104, 10], [105]] = [104, 10]"
    "spec_write (dev_abs (dev demo_server)) (concat [[104, 10], [105]]) = ([[104, 10]], [105])"
    by (simp_all add: demo_server_facts demo_inv spec_write_def newline_def strchr_newline_def c_string_def)
  then show ?thesis
    using session_served [OF demo_sys.good_system_axioms demo_server_facts(1) _ demo_server_facts(3) _ fit]
      demo_plain demo_inv(1) by (fastforce simp: demo_server_facts)
qed




text \<open>
  C18 (a failed open keeps the lock): when the log path cannot be opened, \<open>write_safe\<close> returns
  \<open>-1\<close> with \<open>write_lock\<close> still held; from then on no call of \<open>write_safe\<close> and no dump by any
  thread returns.
\<close>

theorem write_safe_keeps_lock:
  assumes "p_mutex_lock P = 0" "lock_alive st" "\<not> write_lock st" "fst (sys_open P st) < 0"
  shows "\<exists>st'. write_safe P buf st = Some (- 1, st') \<and>
    (\<forall>st''. write_lock st'' = write_lock st' \<longrightarrow>
       write_safe P buf' st'' = None \<and> dump_file_to_client P fd st'' = None)"
proof -
  have "fst (sys_open P (st\<lparr>write_lock := True\<rparr>)) = fst (sys_open P st)"
    "write_lock (snd (sys_open P (st\<lparr>write_lock := True\<rparr>)))"
    by (simp_all add: sys_open_def Let_def)
  then show ?thesis
    using assms by (auto simp: write_safe_def dump_file_to_client_def mutex_lock_def split: prod.splits)
qed

theorem write_safe_keeps_lock_witness:
  "\<exists>st'. write_safe demo_posix [104, 10] (demo_server\<lparr>log_path := False\<rparr>) = Some (- 1, st') \<and>
     write_safe demo_posix [105] st' = None"
  using write_safe_keeps_lock [of demo_posix "demo_server\<lparr>log_path := False\<rparr>" "[104, 10]" "[105]"]
  by (auto simp: driver_posix_def demo_server_facts sys_open_def)


section \<open>Threads\<close>

text \<open>
  C9 (the thread list): in every state of a started server the list from \<open>thrd_head\<close> holds every
  allocated node and every \<open>struct ThreadData\<close> exactly once and \<open>thread_clients\<close> is its length.
  When \<open>malloc\<close> succeeds a turn of the accept loop returns, with the new connection in front and
  exactly the completed threads unlinked and freed, each once.
\<close>

theorem accept_loop_list:
  assumes "serving P st" "turn_ok t st"
  shows "\<exists>xs e st'. tlist st xs \<and> thread_clients st = word_of_nat (length xs) \<and>
    run_turn t st = Some (e, st') \<and> tlist st' (turn_list t st xs)"
proof -
  obtain xs where "tlist st xs"
    using serving_tlist [OF assms(1)] by blast
  then show ?thesis
    using run_turn_tlist [OF _ assms(2)] tlistD(5) by blast
qed

definition demo_turn :: turn where
  "demo_turn = \<lparr>t_nready = 1, t_connfd = 7, t_td = Some 1, t_create = 0, t_tid = 1, t_item = Some 2\<rparr>"

definition demo_listening :: "aesd_state server" where
  "demo_listening = (server_static demo_loaded)\<lparr>lock_alive := True, listenfd := 3, listening := True\<rparr>"

lemma demo_listening_init:
  "aesd_thrd_initialize False 0 0 3 0 no_fork (server_static demo_loaded) = InitTrue demo_listening"
  by (simp add: aesd_thrd_initialize_def demo_listening_def server_static_def SLIST_INIT_def Let_def)

lemma demo_started: "serving demo_posix demo_listening"
  by (rule serving.start [OF demo_listening_init])

theorem accept_loop_list_witness:
  "\<exists>e st'. run_turn demo_turn demo_listening = Some (e, st')"
  using accept_loop_list [OF demo_started, of demo_turn]
  by (auto simp: turn_ok_def demo_turn_def demo_listening_def server_static_def)

text \<open>
  Shutdown: from every state of a started server in which no thread holds the lock, if waiting
  for a thread returns and leaves the list alone, shutdown returns with every node and every
  \<open>struct ThreadData\<close> freed once.
\<close>

theorem shutdown_frees_threads:
  assumes "serving P st" "\<not> write_lock st" "finish_ok finish st"
  shows "\<exists>st'. aesd_thrd_shutdown finish st = Some st' \<and> items st' = Map.empty \<and> tds st' = Map.empty \<and>
    thrd_head st' = NULL"
proof -
  obtain xs where t: "tlist st xs" and alive: "lock_alive st"
    using serving_tlist [OF assms(1)] by blast
  let ?st = "st\<lparr>listening := False, log_path := False, lock_alive := False\<rparr>"
  have "tlist ?st xs"
    using t by (rule tlist_tds) simp_all
  then show ?thesis
    using shutdown_loop_frees [OF assms(3), of ?st xs] alive assms(2)
    by (simp add: aesd_thrd_shutdown_def tlist_def)
qed

theorem shutdown_frees_threads_witness:
  "\<exists>st'. aesd_thrd_shutdown (\<lambda>td st. Some st) demo_listening = Some st' \<and> items st' = Map.empty"
  using shutdown_frees_threads [OF demo_started, of "\<lambda>td st. Some st"]
  by (auto simp: finish_ok_def demo_listening_def server_static_def)

text \<open>
  Shutdown while a client talks, in one go: it destroys \<open>write_lock\<close> before it joins the threads
  that take it. If the newest connection still delivers a plain message, its thread locks the
  destroyed lock, which is undefined, over any log device.
\<close>

theorem shutdown_destroys_lock_in_use:
  assumes "serving P st" "tlist st (x # xs)" "tds st (td_of st x) = Some t"
    and "reads (td_of st x) = ReadBytes bs # rs" "bs \<noteq> []" "length bs < MAXLINE" "parse_aesdchar_ioseek bs = None"
  shows "aesd_thrd_shutdown (\<lambda>td. connection_handler P td (reads td)) st = None"
proof -
  let ?st = "st\<lparr>listening := False, log_path := False, lock_alive := False\<rparr>"
  obtain n where n: "thrd_head st = Some x" "items st x = Some n"
    using tlistD(1) [OF assms(2)] by auto
  have td: "td_of st x = selm n"
    using n(2) by (simp add: td_of_def)
  have "process_message P (td_fd t) bs ?st = None"
    using assms(5,7) by (simp add: process_message_def write_safe_def mutex_lock_def)
  then have "connection_handler P (selm n) (reads (selm n)) ?st = None"
    using assms(3,4,6) unfolding td by simp
  then have "shutdown_loop (\<lambda>td. connection_handler P td (reads td)) ?st = None"
    using n by (subst shutdown_loop.simps) (simp add: SLIST_EMPTY_def SLIST_FIRST_def Let_def)
  then show ?thesis
    by (simp add: aesd_thrd_shutdown_def)
qed

text \<open>The demo server after one client has connected.\<close>

lemma demo_one_thread:
  obtains st where "run_turn demo_turn demo_listening = Some (Continue, st)" "serving demo_posix st"
    "tlist st [2]" "td_of st 2 = 1" "tds st 1 = Some demo_td" "\<not> write_lock st"
proof -
  let ?its = "[2 \<mapsto> \<lparr>sle_next = NULL, selm = 1\<rparr>]"
  let ?st = "demo_listening\<lparr>connfd := 7, conns := {7}, tds := [1 \<mapsto> demo_td], items := ?its,
    thrd_head := Some 2, thread_clients := 1\<rparr>"
  have ok: "turn_ok demo_turn demo_listening"
    by (simp add: turn_ok_def demo_turn_def demo_listening_def server_static_def)
  have m: "maintain_item 2 ?st = Some ?st"
    by (simp add: maintain_item_def demo_td_def)
  have "do_maintenance ?st = Some ?st"
    by (simp add: do_maintenance_def SLIST_FIRST_def SLIST_FOREACH_SAFE.simps SLIST_NEXT_def
        m [unfolded One_nat_def])
  then have run: "run_turn demo_turn demo_listening = Some (Continue, ?st)"
    by (simp add: run_turn_def demo_turn_def demo_listening_def server_static_def demo_td_def add_thread_def
        SLIST_INSERT_HEAD_def Let_def)
  have "tlist ?st [2]"
    by (simp add: tlist_def td_of_def)
  then show thesis
    using that [OF run serving.turn [OF demo_started ok run]]
    by (simp add: td_of_def demo_listening_def server_static_def)
qed

theorem shutdown_destroys_lock_in_use_witness:
  "\<exists>st. run_turn demo_turn demo_listening = Some (Continue, st) \<and>
     aesd_thrd_shutdown (\<lambda>td. connection_handler demo_posix td [ReadBytes [104, 10], ReadEOF]) st = None"
proof -
  obtain st where st: "run_turn demo_turn demo_listening = Some (Continue, st)" "serving demo_posix st"
    "tlist st [2]" "td_of st 2 = 1" "tds st 1 = Some demo_td"
    by (rule demo_one_thread)
  have "parse_aesdchar_ioseek [104, 10] = None"
    by (simp add: parse_aesdchar_ioseek_def ioseek_prefix_def c_string_def)
  then show ?thesis
    using shutdown_destroys_lock_in_use [OF st(2,3), of demo_td "\<lambda>td. [ReadBytes [104, 10], ReadEOF]" "[104, 10]"] st
    by (auto simp: MAXLINE_def)
qed

section \<open>Start and end\<close>

text \<open>
  Starting the server: \<open>main\<close> reaches the accept loop exactly when both handlers are
  installed, both locks are initialised, \<open>socket\<close> and \<open>bind\<close> succeed and, with \<open>-d\<close>, this process
  is the one that both forks leave running and it can change to the root directory; then it
  listens with the lock free and no thread, detached if asked to be. In all other cases it exits
  and does not listen, with status 0 only in a parent that a fork left behind.
\<close>

theorem thrd_main_starts:
  "\<exists>r st. thrd_main argv rc_int rc_term P rc1 rc2 sock rc3 calls [] finish (server_static d) = Some (r, st) \<and>
     (r = None \<longleftrightarrow> rc_int \<noteq> - 1 \<and> rc_term \<noteq> - 1 \<and> rc1 = 0 \<and> rc2 = 0 \<and> 0 \<le> sock \<and> 0 \<le> rc3 \<and>
        (wants_daemon argv \<longrightarrow>
           c_fork1 calls = 0 \<and> 0 \<le> c_setsid calls \<and> c_fork2 calls = 0 \<and> 0 \<le> c_chdir calls)) \<and>
     (listening st \<longleftrightarrow> r = None) \<and>
     (r = None \<longrightarrow> serving P st \<and> lock_alive st \<and> \<not> write_lock st \<and> thrd_head st = NULL \<and>
        (if wants_daemon argv
         then \<not> session_leader (proc st) \<and> at_root (proc st) \<and> \<not> std_open (proc st) \<and> file_mask (proc st) = 0
         else proc st = fresh_process)) \<and>
     (r = Some 0 \<longrightarrow> wants_daemon argv \<and> (0 < c_fork1 calls \<or> c_fork1 calls = 0 \<and> 0 < c_fork2 calls))"
proof -
  let ?init = "aesd_thrd_initialize (wants_daemon argv) rc1 rc2 sock rc3 calls (server_static d)"
  consider (handlers) "rc_int = - 1 \<or> rc_term = - 1"
    | (failed) "rc_int \<noteq> - 1" "rc_term \<noteq> - 1" "rc1 \<noteq> 0 \<or> rc2 \<noteq> 0 \<or> sock < 0 \<or> rc3 < 0"
    | (quit) e where "rc_int \<noteq> - 1" "rc_term \<noteq> - 1" "rc1 = 0" "rc2 = 0" "0 \<le> sock" "0 \<le> rc3"
        "wants_daemon argv" "make_daemon calls fresh_process = Inl e"
    | (run) p where "rc_int \<noteq> - 1" "rc_term \<noteq> - 1" "rc1 = 0" "rc2 = 0" "0 \<le> sock" "0 \<le> rc3"
        "(if wants_daemon argv then make_daemon calls fresh_process else Inr fresh_process) = Inr p"
    by (cases "make_daemon calls fresh_process"; cases "wants_daemon argv") (metis not_less)+
  then show ?thesis
  proof cases
    case handlers
    then show ?thesis
      by (auto simp: thrd_main_def server_static_def)
  next
    case failed
    then show ?thesis
      by (auto simp: thrd_main_def aesd_thrd_initialize_def server_static_def Let_def)
  next
    case (quit e)
    then have "?init = InitExit e"
      by (simp add: aesd_thrd_initialize_def server_static_def Let_def)
    moreover have "e = 0 \<longrightarrow> 0 < c_fork1 calls \<or> c_fork1 calls = 0 \<and> 0 < c_fork2 calls"
      using quit(8) by (auto simp: make_daemon_def EXIT_FAILURE_def Let_def split: if_splits)
    moreover have "\<not> (c_fork1 calls = 0 \<and> 0 \<le> c_setsid calls \<and> c_fork2 calls = 0 \<and> 0 \<le> c_chdir calls)"
      using quit(8) make_daemon_runs_iff [of calls fresh_process] by auto
    ultimately show ?thesis
      using quit by (auto simp: thrd_main_def server_static_def)
  next
    case (run p)
    let ?st = "(server_static d)\<lparr>write_lock := False, lock_alive := True, thrd_head := SLIST_INIT,
      listenfd := sock, proc := p, listening := True\<rparr>"
    have init: "?init = InitTrue ?st"
      using run by (auto simp: aesd_thrd_initialize_def server_static_def Let_def)
    have "wants_daemon argv \<Longrightarrow> c_fork1 calls = 0 \<and> 0 \<le> c_setsid calls \<and> c_fork2 calls = 0 \<and> 0 \<le> c_chdir calls"
      using run(7) make_daemon_runs_iff [of calls fresh_process] by auto
    moreover have "if wants_daemon argv
        then \<not> session_leader p \<and> at_root p \<and> \<not> std_open p \<and> file_mask p = 0 else p = fresh_process"
      using run(7) make_daemon_detached [of calls fresh_process p] by (auto split: if_splits)
    moreover have "serving P ?st"
      by (rule serving.start [OF init])
    ultimately show ?thesis
      using run(1-6) init by (auto simp: thrd_main_def SLIST_INIT_def)
  qed
qed

theorem thrd_main_starts_witness:
  "\<exists>r st. thrd_main [''aesdsocket'', ''-d''] 0 0 demo_posix 0 0 3 0 (no_fork\<lparr>c_fork1 := 5\<rparr>) [] (\<lambda>td st. Some st)
       (server_static demo_loaded) = Some (r, st) \<and> r \<noteq> None \<and> \<not> listening st"
  using thrd_main_starts [of "[''aesdsocket'', ''-d'']" 0 0 demo_posix 0 0 3 0 "no_fork\<lparr>c_fork1 := 5\<rparr>"
      "\<lambda>td st. Some st" demo_loaded]
  by (auto simp: wants_daemon_def)





section \<open>The list macros\<close>

text \<open>
  \<open>SLIST_REMOVE\<close>: on a store in which \<open>head\<close> points to the nodes \<open>xs\<close>, removing a node of
  the list gives the list without it, changing no other field and no node after it; removing one
  that is not there runs over the end of the list.
\<close>

theorem SLIST_REMOVE_removes:
  assumes "slist s head xs"
  shows "if e \<in> set xs
    then \<exists>h s'. SLIST_REMOVE head (Some e) s = Some (h, s') \<and> slist s' h (remove1 e xs) \<and> same_elms s s'
    else SLIST_REMOVE head (Some e) s = None"
proof (cases "e \<in> set xs")
  case True
  then obtain us ys where us: "xs = us @ e # ys" "e \<notin> set us"
    by (metis split_list_first)
  then have "remove1 e xs = us @ ys"
    by (simp add: remove1_append)
  then show ?thesis
    using remove_slist [of s head us e ys] assms us True by auto
next
  case False
  then show ?thesis
    using remove_absent [OF assms] by simp
qed

theorem SLIST_REMOVE_removes_witness:
  "\<exists>h s'. SLIST_REMOVE (Some 1) (Some 2)
     [1 \<mapsto> \<lparr>sle_next = Some 2, selm = ''a''\<rparr>, 2 \<mapsto> \<lparr>sle_next = NULL, selm = ''b''\<rparr>] = Some (h, s') \<and> slist s' h [1]"
proof -
  let ?s = "[1 \<mapsto> \<lparr>sle_next = Some 2, selm = ''a''\<rparr>, 2 \<mapsto> \<lparr>sle_next = NULL, selm = ''b''\<rparr>]"
  have "slist ?s (Some 1) [1, 2]"
    by simp
  then show ?thesis
    using SLIST_REMOVE_removes [of ?s "Some 1" "[1, 2]" 2] by auto
qed

text \<open>
  Inserting and removing at the head or after a node: the macros are the list operations of their
  names.
\<close>

theorem SLIST_insert_remove:
  assumes "slist s head (xs @ a # ys)" "s e = Some m" "e \<notin> set (xs @ a # ys)"
  shows "(\<exists>s'. SLIST_INSERT_AFTER (Some a) (Some e) s = Some s' \<and> slist s' head (xs @ a # e # ys) \<and>
           (\<exists>s''. SLIST_REMOVE_AFTER (Some a) s' = Some s'' \<and> slist s'' head (xs @ a # ys))) \<and>
    (\<exists>s'. SLIST_INSERT_HEAD head (Some e) s = Some (Some e, s') \<and> slist s' (Some e) (e # xs @ a # ys) \<and>
       SLIST_REMOVE_HEAD (Some e) s' = Some head)"
proof -
  obtain s' where "SLIST_INSERT_AFTER (Some a) (Some e) s = Some s'" "slist s' head (xs @ a # e # ys)"
    using insert_after_slist [OF assms] by blast
  moreover note remove_after_slist [OF this(2)]
  moreover have "\<exists>s'. SLIST_INSERT_HEAD head (Some e) s = Some (Some e, s') \<and> slist s' (Some e) (e # xs @ a # ys) \<and>
       SLIST_REMOVE_HEAD (Some e) s' = Some head"
    using insert_head_slist [OF assms] by (auto simp: SLIST_REMOVE_HEAD_def)
  ultimately show ?thesis
    by blast
qed

theorem SLIST_insert_remove_witness:
  "\<exists>s'. SLIST_INSERT_AFTER (Some 1) (Some 3)
     [1 \<mapsto> \<lparr>sle_next = NULL, selm = ''a''\<rparr>, 3 \<mapsto> \<lparr>sle_next = NULL, selm = ''c''\<rparr>] = Some s' \<and> slist s' (Some 1) [1, 3]"
  using SLIST_insert_remove [of "[1 \<mapsto> \<lparr>sle_next = NULL, selm = ''a''\<rparr>, 3 \<mapsto> \<lparr>sle_next = NULL, selm = ''c''\<rparr>]"
      "Some 1" "[]" 1 "[]" 3 "\<lparr>sle_next = NULL, selm = ''c''\<rparr>"] by auto

end
