(* ===== verification/ConnThreads.thy ===== *)
theory ConnThreads
  imports ServerThreads
begin

text \<open>
  The connection threads of \<open>server/aesd_server_thrd.c\<close> step by step. \<open>ServerThrd\<close> runs a thread from
  one \<open>read\<close> of its socket to the next at one go; here every system call, lock operation, test of the
  global \<open>log_fd\<close> and update of a global is a step of its own, and the steps of all threads, the turns
  of the accept loop and signals mix in any order. An assignment of the result of \<open>open\<close> to \<open>log_fd\<close>
  is one step with the call.
\<close>

section \<open>Where a thread is\<close>

text \<open>
  Inside \<open>write_safe\<close> and behind it the counting in \<open>process_message\<close>; inside \<open>dump_file_to_client\<close>;
  inside the seek branch of \<open>process_message\<close>. The arguments are local variables.
\<close>

datatype write_pc = WLock | WOpen | WCheck | WWrite | WUnlock int | WClose int | WCount

datatype dump_pc = DLock | DOpen | DCheck | DRead | DSend "byte list" | DClose | DUnlock

datatype seek_pc =
    SOpen aesd_seekto | SCheck aesd_seekto | SIoctl aesd_seekto | SRead | SSend "byte list" | SClose

text \<open>A thread of \<open>connection_handler\<close>: at its \<open>read\<close>, in \<open>process_message\<close> for a client, or returned.\<close>

datatype conn_pc =
    Reading
  | InWrite int "byte list" write_pc
  | InDump int dump_pc
  | InSeek int seek_pc
  | Ended

text \<open>
  The outcome of a step: undefined behaviour, the thread waits for the lock, or the next place and
  state.
\<close>

datatype 'd step_result = StepUndefined | StepWaits | StepTo conn_pc "'d server"

fun step_of :: "'a option \<Rightarrow> ('a \<Rightarrow> 'd step_result) \<Rightarrow> 'd step_result" where
  "step_of None f = StepUndefined"
| "step_of (Some x) f = f x"

section \<open>Steps\<close>

text \<open>\<open>pthread_mutex_lock\<close>: what follows when it fails and when the lock is taken.\<close>

definition lock_step :: "'d posix \<Rightarrow> conn_pc \<Rightarrow> conn_pc \<Rightarrow> 'd server \<Rightarrow> 'd step_result" where
  "lock_step P failed locked st =
     (if \<not> lock_alive st then StepUndefined
      else if p_mutex_lock P \<noteq> 0 then StepTo failed st
      else if write_lock st then StepWaits
      else StepTo locked (st\<lparr>write_lock := True\<rparr>))"

text \<open>\<open>log_fd = open(filename_, ...)\<close>.\<close>

definition open_log :: "'d posix \<Rightarrow> 'd server \<Rightarrow> 'd server" where
  "open_log P st = (let (fd, st) = sys_open P st in st\<lparr>log_fd := fd\<rparr>)"

text \<open>The chunk of the reply that a read of \<open>log_fd\<close> puts into the cleared \<open>tmpbuf\<close>.\<close>

definition reply_chunk :: "int \<Rightarrow> byte list \<Rightarrow> byte list" where
  "reply_chunk rn bs = take (nat rn) (bs @ replicate (BUFFSIZE - length bs) 0)"

text \<open>\<open>write_safe\<close> with the rest of that branch of \<open>process_message\<close>; \<open>c\<close> is the client's descriptor.\<close>

fun write_step :: "'d posix \<Rightarrow> int \<Rightarrow> byte list \<Rightarrow> write_pc \<Rightarrow> 'd server \<Rightarrow> 'd step_result" where
  "write_step P c buf WLock st = lock_step P Reading (InWrite c buf WOpen) st"
| "write_step P c buf WOpen st = StepTo (InWrite c buf WCheck) (open_log P st)"
| "write_step P c buf WCheck st = StepTo (if log_fd st < 0 then Reading else InWrite c buf WWrite) st"
| "write_step P c buf WWrite st =
     step_of (sys_write P (log_fd st) buf st) (\<lambda>(nbytes, st). StepTo (InWrite c buf (WUnlock nbytes)) st)"
| "write_step P c buf (WUnlock nbytes) st =
     step_of (mutex_unlock_user st) (\<lambda>st. StepTo (InWrite c buf (WClose nbytes)) st)"
| "write_step P c buf (WClose nbytes) st =
     StepTo (if nbytes < 0 then Reading else InWrite c buf WCount) (sys_close (log_fd st) st)"
| "write_step P c buf WCount st =
     (if sint (file_size st) + int (length buf) < 2 ^ 31
      then StepTo (if strchr_newline buf then InDump c DLock else Reading)
             (st\<lparr>file_size := file_size st + word_of_nat (length buf)\<rparr>)
      else StepUndefined)"

fun dump_step :: "'d posix \<Rightarrow> int \<Rightarrow> dump_pc \<Rightarrow> 'd server \<Rightarrow> 'd step_result" where
  "dump_step P c DLock st = lock_step P Reading (InDump c DOpen) st"
| "dump_step P c DOpen st = StepTo (InDump c DCheck) (open_log P st)"
| "dump_step P c DCheck st = StepTo (InDump c (if log_fd st < 0 then DUnlock else DRead)) st"
| "dump_step P c DRead st =
     step_of (sys_read P (log_fd st) BUFFSIZE st)
       (\<lambda>(rn, bs, st). StepTo (InDump c (if rn > 0 then DSend (reply_chunk rn bs) else DClose)) st)"
| "dump_step P c (DSend chunk) st = StepTo (InDump c DRead) (snd (net_write P c chunk st))"
| "dump_step P c DClose st = StepTo (InDump c DUnlock) (sys_close (log_fd st) st)"
| "dump_step P c DUnlock st = step_of (mutex_unlock_user st) (\<lambda>st. StepTo Reading st)"

fun seek_step :: "'d posix \<Rightarrow> int \<Rightarrow> seek_pc \<Rightarrow> 'd server \<Rightarrow> 'd step_result" where
  "seek_step P c (SOpen sk) st = StepTo (InSeek c (SCheck sk)) (open_log P st)"
| "seek_step P c (SCheck sk) st = StepTo (if log_fd st < 0 then Reading else InSeek c (SIoctl sk)) st"
| "seek_step P c (SIoctl sk) st =
     step_of (sys_ioctl P (log_fd st) sk st)
       (\<lambda>(rc, st). StepTo (InSeek c (if rc = - 1 then SClose else SRead)) st)"
| "seek_step P c SRead st =
     step_of (sys_read P (log_fd st) BUFFSIZE st)
       (\<lambda>(rn, bs, st). StepTo (InSeek c (if rn > 0 then SSend (reply_chunk rn bs) else SClose)) st)"
| "seek_step P c (SSend chunk) st = StepTo (InSeek c SRead) (snd (net_write P c chunk st))"
| "seek_step P c SClose st = StepTo Reading (sys_close (log_fd st) st)"

text \<open>Which branch of \<open>process_message\<close> a message takes.\<close>

definition message_pc :: "int \<Rightarrow> byte list \<Rightarrow> conn_pc" where
  "message_pc c buf =
     (if length buf = 0 then Reading
      else case parse_aesdchar_ioseek buf of
        Some (seek_cmd, seek_off) \<Rightarrow> InSeek c (SOpen \<lparr>write_cmd = seek_cmd, write_cmd_offset = seek_off\<rparr>)
      | None \<Rightarrow> InWrite c buf WLock)"

text \<open>A step of the thread of \<open>td\<close>; \<open>r\<close> is what its \<open>read\<close> gives when it is at one.\<close>

fun conn_step :: "'d posix \<Rightarrow> addr \<Rightarrow> net_read \<Rightarrow> conn_pc \<Rightarrow> 'd server \<Rightarrow> 'd step_result" where
  "conn_step P td r Reading st =
     (case r of
        ReadBytes bs \<Rightarrow>
          step_of (tds st td) (\<lambda>t. if length bs < MAXLINE then StepTo (message_pc (td_fd t) bs) st else StepUndefined)
      | _ \<Rightarrow> step_of (finish_connection td st) (\<lambda>st. StepTo Ended st))"
| "conn_step P td r (InWrite c buf w) st = write_step P c buf w st"
| "conn_step P td r (InDump c d) st = dump_step P c d st"
| "conn_step P td r (InSeek c s) st = seek_step P c s st"
| "conn_step P td r Ended st = StepWaits"

section \<open>All threads together\<close>

type_synonym places = "addr \<rightharpoonup> conn_pc"

text \<open>What happened: a thread received a chunk, the log device took a chunk from a thread.\<close>

datatype net_event = Received addr "byte list" | Wrote addr "byte list"

definition conn_events :: "addr \<Rightarrow> net_read \<Rightarrow> conn_pc \<Rightarrow> 'd server \<Rightarrow> net_event list" where
  "conn_events td r pc st =
     (case pc of
        Reading \<Rightarrow> (case r of ReadBytes bs \<Rightarrow> [Received td bs] | _ \<Rightarrow> [])
      | InWrite c buf WWrite \<Rightarrow> if open_fds st (log_fd st) = None then [] else [Wrote td buf]
      | _ \<Rightarrow> [])"

text \<open>After a turn of the accept loop the new thread is at its first \<open>read\<close>, the freed ones are gone.\<close>

definition turn_places :: "'d server \<Rightarrow> places \<Rightarrow> places" where
  "turn_places st ps td =
     (if tds st td = None then None else Some (case ps td of None \<Rightarrow> Reading | Some pc \<Rightarrow> pc))"

text \<open>\<open>interleaved P d tr ps st\<close>: a server started on the device \<open>d\<close> can get there with the events \<open>tr\<close>.\<close>

inductive interleaved :: "'d posix \<Rightarrow> 'd \<Rightarrow> net_event list \<Rightarrow> places \<Rightarrow> 'd server \<Rightarrow> bool" for P d where
  start: "aesd_thrd_initialize is_daemon rc1 rc2 sock rc3 calls (server_static d) = InitTrue st \<Longrightarrow>
    interleaved P d [] Map.empty st"
| thread: "interleaved P d tr ps st \<Longrightarrow> ps td = Some pc \<Longrightarrow> conn_step P td r pc st = StepTo pc' st' \<Longrightarrow>
    interleaved P d (tr @ conn_events td r pc st) (ps(td \<mapsto> pc')) st'"
| turn: "interleaved P d tr ps st \<Longrightarrow> turn_ok t st \<Longrightarrow> run_turn t st = Some (Continue, st') \<Longrightarrow>
    interleaved P d tr (turn_places st' ps) st'"
| signal: "interleaved P d tr ps st \<Longrightarrow> interleaved P d tr ps (thrd_signal_handler sig st)"

text \<open>Between lock and unlock.\<close>

fun critical :: "conn_pc \<Rightarrow> bool" where
  "critical (InWrite c buf w) \<longleftrightarrow> (case w of WLock \<Rightarrow> False | WClose n \<Rightarrow> False | WCount \<Rightarrow> False | _ \<Rightarrow> True)"
| "critical (InDump c d) \<longleftrightarrow> d \<noteq> DLock"
| "critical pc \<longleftrightarrow> False"

section \<open>What a step changes\<close>

lemma step_of_StepTo [simp]: "step_of x f = StepTo pc st \<longleftrightarrow> (\<exists>y. x = Some y \<and> f y = StepTo pc st)"
  by (cases x) auto

lemma step_of_waits [simp]: "step_of x f = StepWaits \<longleftrightarrow> (\<exists>y. x = Some y \<and> f y = StepWaits)"
  by (cases x) auto

lemma step_of_undefined [simp]: "step_of x f = StepUndefined \<longleftrightarrow> (case x of None \<Rightarrow> True | Some y \<Rightarrow> f y = StepUndefined)"
  by (cases x) auto

lemma lock_step_StepTo:
  "lock_step P failed locked st = StepTo pc st' \<longleftrightarrow> lock_alive st \<and>
     (p_mutex_lock P \<noteq> 0 \<and> pc = failed \<and> st' = st \<or>
      p_mutex_lock P = 0 \<and> \<not> write_lock st \<and> pc = locked \<and> st' = st\<lparr>write_lock := True\<rparr>)"
  by (auto simp: lock_step_def)

lemma open_log_simps [simp]:
  "write_lock (open_log P st) = write_lock st" "lock_alive (open_log P st) = lock_alive st"
  "tds (open_log P st) = tds st" "items (open_log P st) = items st" "thrd_head (open_log P st) = thrd_head st"
  "thread_clients (open_log P st) = thread_clients st" "dev (open_log P st) = dev st"
  "file_size (open_log P st) = file_size st"
  by (simp_all add: open_log_def sys_open_def Let_def split: prod.split)

lemma net_write_simps [simp]:
  "write_lock (snd (net_write P c bs st)) = write_lock st" "lock_alive (snd (net_write P c bs st)) = lock_alive st"
  "tds (snd (net_write P c bs st)) = tds st" "items (snd (net_write P c bs st)) = items st"
  "thrd_head (snd (net_write P c bs st)) = thrd_head st"
  "thread_clients (snd (net_write P c bs st)) = thread_clients st" "dev (snd (net_write P c bs st)) = dev st"
  "file_size (snd (net_write P c bs st)) = file_size st"
  by (simp_all add: net_write_def Let_def)

lemma sys_close_simps [simp]:
  "write_lock (sys_close fd st) = write_lock st" "lock_alive (sys_close fd st) = lock_alive st"
  "tds (sys_close fd st) = tds st" "items (sys_close fd st) = items st" "thrd_head (sys_close fd st) = thrd_head st"
  "thread_clients (sys_close fd st) = thread_clients st" "dev (sys_close fd st) = dev st"
  "file_size (sys_close fd st) = file_size st"
  by (simp_all add: sys_close_def)

text \<open>Steps that do not end the thread leave the list of threads alone; the last one marks the thread.\<close>

lemma conn_step_list:
  assumes "conn_step P td r pc st = StepTo pc' st'"
  shows "if pc' = Ended then pc = Reading \<and> finish_connection td st = Some st' else pc \<noteq> Ended \<and> list_same st st'"
proof (cases pc)
  case Reading
  then show ?thesis
    using assms by (auto simp: message_pc_def split: net_read.splits if_splits option.splits)
next
  case (InWrite c buf w)
  then show ?thesis
    using assms by (cases w) (auto simp: lock_step_StepTo list_same_def sys_write_def mutex_unlock_user_def
        bind_eq_Some_conv split: if_splits)
next
  case (InDump c d)
  then show ?thesis
    using assms by (cases d) (auto simp: lock_step_StepTo list_same_def sys_read_def mutex_unlock_user_def
        bind_eq_Some_conv split: if_splits option.splits)
next
  case (InSeek c s)
  then show ?thesis
    using assms by (cases s) (auto simp: list_same_def sys_read_def sys_ioctl_def bind_eq_Some_conv
        split: if_splits option.splits)
qed (use assms in simp)

text \<open>Who enters takes the free lock; nobody else changes it, but who leaves may free it.\<close>

lemma conn_step_lock:
  assumes "conn_step P td r pc st = StepTo pc' st'"
  shows "(critical pc \<longrightarrow> critical pc' \<longrightarrow> write_lock st' = write_lock st) \<and>
    (\<not> critical pc \<longrightarrow> (if critical pc' then \<not> write_lock st \<and> write_lock st' else write_lock st' = write_lock st))"
proof (cases pc)
  case Reading
  then show ?thesis
    using assms by (auto simp: message_pc_def finish_connection_def bind_eq_Some_conv
        split: net_read.splits if_splits option.splits)
next
  case (InWrite c buf w)
  then show ?thesis
    using assms by (cases w) (auto simp: lock_step_StepTo sys_write_def mutex_unlock_user_def
        bind_eq_Some_conv split: if_splits)
next
  case (InDump c d)
  then show ?thesis
    using assms by (cases d) (auto simp: lock_step_StepTo sys_read_def mutex_unlock_user_def
        bind_eq_Some_conv split: if_splits option.splits)
next
  case (InSeek c s)
  then show ?thesis
    using assms by (cases s) (auto simp: sys_read_def sys_ioctl_def bind_eq_Some_conv split: if_splits option.splits)
qed (use assms in simp)

end
