(* ===== verification/ConnInvariant.thy ===== *)
theory ConnInvariant
  imports ConnThreads
begin

text \<open>
  What holds in every state of the interleaved server: the list of threads is well formed, a thread
  that has not returned has its \<open>struct ThreadData\<close>, and at most one thread is between lock and
  unlock.
\<close>

section \<open>A turn of the accept loop, seen from the threads\<close>

text \<open>What the threads share is not touched, threads that run stay, others may go, one may come.\<close>

definition shared_same :: "'d server \<Rightarrow> 'd server \<Rightarrow> bool" where
  "shared_same st st' \<longleftrightarrow> write_lock st' = write_lock st \<and> lock_alive st' = lock_alive st \<and> log_fd st' = log_fd st \<and>
     open_fds st' = open_fds st \<and> dev st' = dev st \<and> file_size st' = file_size st \<and> log_path st' = log_path st \<and>
     sigint_triggered st' = sigint_triggered st \<and> sigterm_triggered st' = sigterm_triggered st"

definition turn_keeps :: "addr option \<Rightarrow> 'd server \<Rightarrow> 'd server \<Rightarrow> bool" where
  "turn_keeps new st st' \<longleftrightarrow> shared_same st st' \<and>
     (\<forall>td t. tds st td = Some t \<longrightarrow> \<not> is_completed t \<longrightarrow> tds st' td = Some t) \<and>
     (\<forall>td t. tds st' td = Some t \<longrightarrow> tds st td = Some t \<or> Some td = new \<and> \<not> is_completed t)"

lemma turn_keeps_refl [simp]: "turn_keeps new st st"
  by (simp add: turn_keeps_def shared_same_def)

lemma turn_keeps_trans: "turn_keeps new st st1 \<Longrightarrow> turn_keeps None st1 st2 \<Longrightarrow> turn_keeps new st st2"
  unfolding turn_keeps_def shared_same_def by (metis option.distinct(1))

text \<open>Joining frees a struct whose thread has completed; nothing else.\<close>

lemma maintain_item_keeps:
  assumes "maintain_item x s = Some s'"
  shows "turn_keeps None s s'"
proof -
  obtain n t where n: "items s x = Some n" "tds s (selm n) = Some t"
    using assms by (auto simp: maintain_item_def bind_eq_Some_conv)
  show ?thesis
  proof (cases "is_completed t")
    case True
    then have "tds s' = (tds s)(selm n := None)" "shared_same s s'"
      using assms n by (auto simp: maintain_item_def free_td_def free_item_def shared_same_def Let_def
          bind_eq_Some_conv split: if_splits)
    then show ?thesis
      using n(2) True by (auto simp: turn_keeps_def)
  qed (use assms n in \<open>simp add: maintain_item_def\<close>)
qed

lemma maintenance_keeps: "do_maintenance st = Some st' \<Longrightarrow> turn_keeps None st st'"
  unfolding do_maintenance_def
  by (erule foreach_safe_keeps [where Q = "\<lambda>s. turn_keeps None st s", rotated])
    (auto dest: maintain_item_keeps turn_keeps_trans)

definition accepting :: "turn \<Rightarrow> 'd server \<Rightarrow> bool" where
  "accepting t st \<longleftrightarrow> t_nready t > 0 \<and> \<not> sigint_triggered st \<and> \<not> sigterm_triggered st"

definition new_thread :: "turn \<Rightarrow> thread_data" where
  "new_thread t = \<lparr>td_fd = t_connfd t, is_completed = False, p_tid = t_tid t\<rparr>"

text \<open>A turn that accepts a connection, up to the maintenance at its end.\<close>

lemma run_turn_split:
  assumes "turn_ok t st" "accepting t st" "run_turn t st = Some (e, st')"
  obtains td s1 where "t_td t = Some td" "tds st td = None" "do_maintenance s1 = Some st'" "shared_same st s1"
    "tds s1 = (if t_create t \<noteq> 0 then tds st else (tds st)(td \<mapsto> new_thread t))" "e = Continue"
proof -
  obtain td where td: "t_td t = Some td" "tds st td = None"
    using assms(1) by (auto simp: turn_ok_def)
  have none: "(tds st)(td := None) = tds st"
    using td(2) by auto
  show thesis
    using assms(2,3) td
    by (auto simp: run_turn_def accepting_def new_thread_def add_thread_def free_td_def shared_same_def Let_def none
        bind_eq_Some_conv split: if_splits intro!: that)
qed

lemma run_turn_keeps:
  assumes ok: "turn_ok t st" and run: "run_turn t st = Some (e, st')"
  shows "turn_keeps (t_td t) st st'"
proof (cases "accepting t st")
  case False
  then have "st' = st"
    using run by (simp add: run_turn_def accepting_def split: if_splits)
  then show ?thesis
    by simp
next
  case True
  obtain td s1 where s1: "t_td t = Some td" "tds st td = None" "do_maintenance s1 = Some st'" "shared_same st s1"
    "tds s1 = (if t_create t \<noteq> 0 then tds st else (tds st)(td \<mapsto> new_thread t))"
    using run_turn_split [OF ok True run] by blast
  then have "turn_keeps (Some td) st s1"
    by (auto simp: turn_keeps_def new_thread_def)
  then show ?thesis
    using maintenance_keeps [OF s1(3)] turn_keeps_trans s1(1) by simp
qed

lemma run_turn_new:
  assumes ok: "turn_ok t st" and run: "run_turn t st = Some (e, st')" and acc: "accepting t st" "t_create t = 0"
  shows "tds st' (the (t_td t)) = Some (new_thread t)" "e = Continue"
proof -
  obtain td s1 where s1: "t_td t = Some td" "do_maintenance s1 = Some st'" "tds s1 = (tds st)(td \<mapsto> new_thread t)"
    and e: "e = Continue"
    using run_turn_split [OF ok acc(1) run] acc(2) by (metis (no_types, lifting))
  then show "tds st' (the (t_td t)) = Some (new_thread t)" "e = Continue"
    using maintenance_keeps [OF s1(2)] by (auto simp: turn_keeps_def new_thread_def)
qed

section \<open>The invariant\<close>

text \<open>A place for every allocated struct; the thread has returned when it says so.\<close>

definition places_ok :: "places \<Rightarrow> 'd server \<Rightarrow> bool" where
  "places_ok ps st \<longleftrightarrow> (\<forall>td. rel_option (\<lambda>pc t. is_completed t \<longleftrightarrow> pc = Ended) (ps td) (tds st td))"

definition lock_ok :: "places \<Rightarrow> 'd server \<Rightarrow> bool" where
  "lock_ok ps st \<longleftrightarrow> lock_alive st \<and> (\<forall>a p. ps a = Some p \<longrightarrow> critical p \<longrightarrow> write_lock st) \<and>
     (\<forall>a b p q. ps a = Some p \<longrightarrow> ps b = Some q \<longrightarrow> critical p \<longrightarrow> critical q \<longrightarrow> a = b)"

definition conn_inv :: "places \<Rightarrow> 'd server \<Rightarrow> bool" where
  "conn_inv ps st \<longleftrightarrow> (\<exists>xs. tlist st xs) \<and> places_ok ps st \<and> lock_ok ps st"

lemma places_okD:
  assumes "places_ok ps st" "ps td = Some pc"
  obtains t where "tds st td = Some t" "is_completed t \<longleftrightarrow> pc = Ended"
proof -
  have "rel_option (\<lambda>pc t. is_completed t \<longleftrightarrow> pc = Ended) (Some pc) (tds st td)"
    using assms unfolding places_ok_def by metis
  then show thesis
    using that by (auto simp: option_rel_Some1)
qed

lemma places_ok_running:
  assumes "places_ok ps st" "tds st td = Some t" "\<not> is_completed t"
  obtains pc where "ps td = Some pc" "pc \<noteq> Ended"
proof -
  have "rel_option (\<lambda>pc t. is_completed t \<longleftrightarrow> pc = Ended) (ps td) (Some t)"
    using assms unfolding places_ok_def by metis
  then show thesis
    using that assms(3) by (auto simp: option_rel_Some2)
qed

lemma places_step:
  assumes inv: "places_ok ps st" and pc: "ps td = Some pc" and step: "conn_step P td r pc st = StepTo pc' st'"
  shows "places_ok (ps(td \<mapsto> pc')) st'"
proof (cases "pc' = Ended")
  case True
  then have "finish_connection td st = Some st'"
    using conn_step_list [OF step] by simp
  then show ?thesis
    using inv True by (auto simp: places_ok_def finish_connection_def bind_eq_Some_conv)
next
  case False
  then have "tds st' = tds st" "pc \<noteq> Ended"
    using conn_step_list [OF step] by (auto simp: list_same_def)
  moreover obtain t where "tds st td = Some t" "is_completed t \<longleftrightarrow> pc = Ended"
    using places_okD [OF inv pc] .
  ultimately show ?thesis
    using inv False by (auto simp: places_ok_def)
qed

lemma lock_step_ok:
  assumes inv: "lock_ok ps st" and alive: "lock_alive st' = lock_alive st"
    and pc: "ps td = Some pc" and step: "conn_step P td r pc st = StepTo pc' st'"
  shows "lock_ok (ps(td \<mapsto> pc')) st'"
proof -
  have alone: "x = td" if "critical pc" "ps x = Some q" "critical q" for x q
    using inv pc that unfolding lock_ok_def by blast
  have held: "write_lock st" if "ps x = Some q" "critical q" for x q
    using inv that unfolding lock_ok_def by blast
  note lock = conn_step_lock [OF step]
  have one: "write_lock st' \<and> (\<forall>x q. x \<noteq> td \<longrightarrow> ps x = Some q \<longrightarrow> \<not> critical q)" if c: "critical pc'"
  proof (cases "critical pc")
    case True
    then show ?thesis
      using lock c alone [OF True] held [OF pc True] by blast
  next
    case False
    then have "\<not> write_lock st" "write_lock st'"
      using lock c by auto
    then show ?thesis
      using held by blast
  qed
  have others: "write_lock st'" if q: "ps x = Some q" "critical q" "x \<noteq> td" for x q
  proof (cases "critical pc'")
    case False
    then have "\<not> critical pc"
      using alone q by blast
    then show ?thesis
      using lock False held [OF q(1,2)] by simp
  qed (use one in blast)
  show ?thesis
    using inv alive one others unfolding lock_ok_def by (auto split: if_splits)
qed

lemma conn_step_tlist:
  assumes xs: "tlist st xs" and step: "conn_step P td r pc st = StepTo pc' st'"
  shows "tlist st' xs \<and> lock_alive st' = lock_alive st"
proof (cases "pc' = Ended")
  case True
  then have fin: "finish_connection td st = Some st'"
    using conn_step_list [OF step] by simp
  then show ?thesis
    using finish_tlist [OF xs fin] by (auto simp: finish_connection_def bind_eq_Some_conv)
next
  case False
  then show ?thesis
    using conn_step_list [OF step] tlist_list_same xs by (auto simp: list_same_def)
qed

lemma conn_inv_step:
  assumes "conn_inv ps st" "ps td = Some pc" "conn_step P td r pc st = StepTo pc' st'"
  shows "conn_inv (ps(td \<mapsto> pc')) st'"
  using assms(1) places_step [of ps st] lock_step_ok [of ps st] conn_step_tlist [of st] assms(2,3)
  unfolding conn_inv_def by blast

lemma places_turn:
  assumes inv: "places_ok ps st" and ok: "turn_ok t st" and run: "run_turn t st = Some (e, st')"
  shows "places_ok (turn_places st' ps) st'"
  unfolding places_ok_def
proof
  fix td
  note keeps = run_turn_keeps [OF ok run]
  have rel: "rel_option (\<lambda>pc t. is_completed t \<longleftrightarrow> pc = Ended) (ps td) (tds st td)"
    using inv by (simp add: places_ok_def)
  show "rel_option (\<lambda>pc t. is_completed t \<longleftrightarrow> pc = Ended) (turn_places st' ps td) (tds st' td)"
  proof (cases "tds st' td")
    case (Some t')
    then consider "tds st td = Some t'" | "tds st td = None" "\<not> is_completed t'"
      using keeps ok unfolding turn_keeps_def turn_ok_def by (metis option.inject)
    then show ?thesis
      using rel Some by cases (auto simp: turn_places_def option_rel_Some2)
  qed (simp add: turn_places_def)
qed

lemma lock_turn:
  assumes inv: "lock_ok ps st" and ok: "turn_ok t st" and run: "run_turn t st = Some (e, st')"
  shows "lock_ok (turn_places st' ps) st'"
proof -
  have "ps td = Some pc" if "turn_places st' ps td = Some pc" "critical pc" for td pc
    using that by (auto simp: turn_places_def split: if_splits option.splits)
  moreover have "write_lock st' = write_lock st" "lock_alive st' = lock_alive st"
    using run_turn_keeps [OF ok run] by (auto simp: turn_keeps_def shared_same_def)
  ultimately show ?thesis
    using inv unfolding lock_ok_def by metis
qed

lemma conn_inv_turn:
  assumes "conn_inv ps st" "turn_ok t st" "run_turn t st = Some (e, st')"
  shows "conn_inv (turn_places st' ps) st'"
  using assms(1) places_turn [OF _ assms(2,3)] lock_turn [OF _ assms(2,3)] run_turn_tlist [of st _ t] assms(2,3)
  unfolding conn_inv_def by fastforce

lemma conn_inv_signal: "conn_inv ps st \<Longrightarrow> conn_inv ps (thrd_signal_handler sig st)"
proof -
  assume inv: "conn_inv ps st"
  then obtain xs where "tlist st xs"
    by (auto simp: conn_inv_def)
  then have "tlist (thrd_signal_handler sig st) xs"
    by (rule tlist_tds) (simp_all add: thrd_signal_handler_def aesd_thrd_signal_triggered_def Let_def)
  then show ?thesis
    using inv unfolding conn_inv_def places_ok_def lock_ok_def
    by (auto simp: thrd_signal_handler_def aesd_thrd_signal_triggered_def Let_def)
qed

lemma started:
  assumes "aesd_thrd_initialize is_daemon rc1 rc2 sock rc3 calls (server_static d) = InitTrue st"
  shows "lock_alive st" "tlist st []" "tds st = Map.empty" "dev st = d" "file_size st = 0" "\<not> write_lock st"
    "log_path st" "open_fds st = Map.empty"
  using assms
  by (auto simp: aesd_thrd_initialize_def server_static_def tlist_def SLIST_INIT_def Let_def split: if_splits sum.splits)

lemma interleaved_inv: "interleaved P d tr ps st \<Longrightarrow> conn_inv ps st"
proof (induction rule: interleaved.induct)
  case (start is_daemon rc1 rc2 sock rc3 calls st)
  then show ?case
    using started [OF start] by (auto simp: conn_inv_def places_ok_def lock_ok_def)
qed (use conn_inv_step conn_inv_turn conn_inv_signal in blast)+

lemma interleaved_lock:
  assumes "interleaved P d tr ps st" "ps a = Some p" "critical p"
  shows "write_lock st"
proof -
  have "lock_ok ps st"
    using interleaved_inv [OF assms(1)] by (simp add: conn_inv_def)
  then show ?thesis
    using assms(2,3) unfolding lock_ok_def by blast
qed

end
