(* ===== verification/ConnLog.thy ===== *)
theory ConnLog
  imports ConnInvariant ServerMessages "HOL-Library.Sublist"
begin

text \<open>
  What the interleaved threads do to the log device: it is fed whole chunks that threads have
  received, from each thread some of them, in the order in which they came; and no step is undefined.
\<close>

section \<open>Events\<close>

fun received :: "addr \<Rightarrow> net_event list \<Rightarrow> byte list list" where
  "received td [] = []"
| "received td (Received a bs # tr) = (if a = td then bs # received td tr else received td tr)"
| "received td (Wrote a bs # tr) = received td tr"

fun written :: "addr \<Rightarrow> net_event list \<Rightarrow> byte list list" where
  "written td [] = []"
| "written td (Received a bs # tr) = written td tr"
| "written td (Wrote a bs # tr) = (if a = td then bs # written td tr else written td tr)"

text \<open>The bytes that came in and the bytes that went to the log, over all threads.\<close>

fun bytes_in :: "net_event list \<Rightarrow> nat" where
  "bytes_in [] = 0"
| "bytes_in (Received a bs # tr) = length bs + bytes_in tr"
| "bytes_in (Wrote a bs # tr) = bytes_in tr"

fun log_bytes :: "net_event list \<Rightarrow> byte list" where
  "log_bytes [] = []"
| "log_bytes (Received a bs # tr) = log_bytes tr"
| "log_bytes (Wrote a bs # tr) = bs @ log_bytes tr"

lemma received_append [simp]: "received td (tr @ tr') = received td tr @ received td tr'"
  by (induction td tr rule: received.induct) auto

lemma written_append [simp]: "written td (tr @ tr') = written td tr @ written td tr'"
  by (induction td tr rule: written.induct) auto

lemma bytes_in_append [simp]: "bytes_in (tr @ tr') = bytes_in tr + bytes_in tr'"
  by (induction tr rule: bytes_in.induct) auto

lemma log_bytes_append [simp]: "log_bytes (tr @ tr') = log_bytes tr @ log_bytes tr'"
  by (induction tr rule: log_bytes.induct) auto

section \<open>Chunks under way\<close>

text \<open>The chunk that a thread has received and not yet written; that it has not yet counted.\<close>

fun unwritten :: "conn_pc \<Rightarrow> byte list list" where
  "unwritten (InWrite c buf w) = (case w of WUnlock n \<Rightarrow> [] | WClose n \<Rightarrow> [] | WCount \<Rightarrow> [] | _ \<Rightarrow> [buf])"
| "unwritten pc = []"

fun uncounted :: "conn_pc \<Rightarrow> nat" where
  "uncounted (InWrite c buf w) = length buf"
| "uncounted pc = 0"

abbreviation unwritten_len :: "conn_pc \<Rightarrow> nat" where
  "unwritten_len pc \<equiv> length (concat (unwritten pc))"

lemma spec_write_pending: "length (snd (spec_write D bs)) \<le> length (snd D) + length bs"
proof (induction bs rule: rev_induct)
  case (snoc b bs)
  have "length (snd (spec_feed E b)) \<le> Suc (length (snd E))" for E
    by (cases E) (auto simp: Let_def)
  from this [of "spec_write D bs"] snoc show ?case
    by (simp add: spec_write_snoc)
qed simp

lemma unat_plus_le: "unat (a + word_of_nat n :: u32) \<le> unat a + n"
proof -
  have "unat (a + word_of_nat n :: u32) \<le> unat a + unat (word_of_nat n :: u32)"
    by (simp add: unat_word_ariths mod_less_eq_dividend)
  also have "unat (word_of_nat n :: u32) \<le> n"
    by (simp add: unsigned_of_nat take_bit_nat_less_eq_self)
  finally show ?thesis
    by simp
qed

text \<open>Only its own thread's events come from a step.\<close>

lemma conn_events_own: "a \<noteq> td \<Longrightarrow> received a (conn_events td r pc st) = [] \<and> written a (conn_events td r pc st) = []"
  by (auto simp: conn_events_def split: conn_pc.split write_pc.split net_read.split)

text \<open>A chunk under way is written, dropped or still under way.\<close>

lemma step_chunks:
  assumes "conn_step P td r pc st = StepTo pc' st'"
  defines "evs \<equiv> conn_events td r pc st"
  shows "subseq (written td evs @ unwritten pc') (unwritten pc @ received td evs)"
    "length (log_bytes evs) + unwritten_len pc' \<le> unwritten_len pc + bytes_in evs"
    "unat (file_size st') + uncounted pc' \<le> unat (file_size st) + uncounted pc + bytes_in evs"
proof -
  have "subseq (written td evs @ unwritten pc') (unwritten pc @ received td evs) \<and>
    length (log_bytes evs) + unwritten_len pc' \<le> unwritten_len pc + bytes_in evs \<and>
    unat (file_size st') + uncounted pc' \<le> unat (file_size st) + uncounted pc + bytes_in evs"
  proof (cases pc)
    case Reading
    then show ?thesis
      using assms by (auto simp: conn_events_def message_pc_def finish_connection_def bind_eq_Some_conv
          split: net_read.splits if_splits option.splits)
  next
    case (InWrite c buf w)
    then show ?thesis
      using assms by (cases w) (auto simp: conn_events_def lock_step_StepTo sys_write_def mutex_unlock_user_def
          bind_eq_Some_conv unat_plus_le split: if_splits)
  next
    case (InDump c d)
    then show ?thesis
      using assms by (cases d) (auto simp: conn_events_def lock_step_StepTo sys_read_def mutex_unlock_user_def
          bind_eq_Some_conv split: if_splits option.splits)
  next
    case (InSeek c s)
    then show ?thesis
      using assms by (cases s) (auto simp: conn_events_def sys_read_def sys_ioctl_def bind_eq_Some_conv
          split: if_splits option.splits)
  qed (use assms in simp)
  then show "subseq (written td evs @ unwritten pc') (unwritten pc @ received td evs)"
    "length (log_bytes evs) + unwritten_len pc' \<le> unwritten_len pc + bytes_in evs"
    "unat (file_size st') + uncounted pc' \<le> unat (file_size st) + uncounted pc + bytes_in evs"
    by blast+
qed

section \<open>Over the contract of the log device\<close>

context full_net
begin

lemma step_device:
  assumes step: "conn_step P td r pc st = StepTo pc' st'" and d: "dinv (dev st)"
    and fit: "length (snd (dabs (dev st))) + unwritten_len pc \<le> dlimit" "unwritten_len pc < 2 ^ 31"
  shows "dinv (dev st') \<and> dabs (dev st') = spec_write (dabs (dev st)) (log_bytes (conn_events td r pc st))"
proof (cases pc)
  case Reading
  then show ?thesis
    using step d by (auto simp: conn_events_def finish_connection_def bind_eq_Some_conv split: net_read.splits if_splits)
next
  case (InWrite c buf w)
  show ?thesis
  proof (cases "w = WWrite \<and> open_fds st (log_fd st) \<noteq> None")
    case True
    then obtain d' where "p_log_write P buf (dev st) = Some (int (length buf), d')" "dinv d'"
      "dabs d' = spec_write (dabs (dev st)) buf"
      using write_law [OF d, of buf] fit InWrite by auto
    then show ?thesis
      using step InWrite True by (auto simp: conn_events_def sys_write_def bind_eq_Some_conv)
  next
    case False
    then show ?thesis
      using step d InWrite by (cases w) (auto simp: conn_events_def lock_step_StepTo sys_write_def mutex_unlock_user_def
          split: if_splits)
  qed
next
  case (InDump c d')
  then show ?thesis
    using step d by (cases d') (auto simp: conn_events_def lock_step_StepTo sys_read_def mutex_unlock_user_def
        read_law [OF d] BUFFSIZE_def Let_def split: if_splits option.splits)
next
  case (InSeek c s)
  then show ?thesis
  proof (cases s)
    case (SIoctl sk)
    have same: "d' = dev st" if "p_log_ioctl P sk off (dev st) = Some (rc, off', d')" for off rc off' d'
      using ioctl_law [OF d, of sk off] that by (auto split: option.splits)
    show ?thesis
      using step d InSeek SIoctl
      by (auto simp: conn_events_def sys_ioctl_def bind_eq_Some_conv dest!: same split: option.splits)
  qed (use step d InSeek in \<open>auto simp: conn_events_def sys_read_def read_law [OF d] BUFFSIZE_def Let_def
      split: if_splits option.splits\<close>)
qed (use step in simp)

text \<open>The log so far, what each thread wrote of it, and room for the chunks under way.\<close>

definition log_inv :: "'d \<Rightarrow> net_event list \<Rightarrow> places \<Rightarrow> 'd server \<Rightarrow> bool" where
  "log_inv d tr ps st \<longleftrightarrow> dinv (dev st) \<and> dabs (dev st) = spec_write (dabs d) (log_bytes tr) \<and>
     (\<forall>td. subseq (written td tr @ (case ps td of None \<Rightarrow> [] | Some pc \<Rightarrow> unwritten pc)) (received td tr)) \<and>
     length (log_bytes tr) + map_sum unwritten_len ps \<le> bytes_in tr \<and>
     unat (file_size st) + map_sum uncounted ps \<le> bytes_in tr"

lemma log_inv_room:
  assumes inv: "log_inv d tr ps st" and fin: "finite (dom ps)" and pc: "ps td = Some pc"
    and room: "length (snd (dabs d)) + bytes_in tr \<le> dlimit" "bytes_in tr < 2 ^ 31"
  shows "length (snd (dabs (dev st))) + unwritten_len pc \<le> dlimit" "unwritten_len pc < 2 ^ 31"
    "unat (file_size st) + uncounted pc < 2 ^ 31"
proof -
  have b: "unwritten_len pc \<le> map_sum unwritten_len ps" "uncounted pc \<le> map_sum uncounted ps"
    by (rule map_sum_elem [OF fin pc])+
  have "length (snd (dabs (dev st))) \<le> length (snd (dabs d)) + length (log_bytes tr)"
    using inv spec_write_pending by (simp add: log_inv_def)
  then show "length (snd (dabs (dev st))) + unwritten_len pc \<le> dlimit" "unwritten_len pc < 2 ^ 31"
    "unat (file_size st) + uncounted pc < 2 ^ 31"
    using b inv room unfolding log_inv_def by linarith+
qed

lemma log_inv_step:
  assumes inv: "log_inv d tr ps st" and fin: "finite (dom ps)" and pc: "ps td = Some pc"
    and step: "conn_step P td r pc st = StepTo pc' st'"
    and room: "length (snd (dabs d)) + bytes_in tr \<le> dlimit" "bytes_in tr < 2 ^ 31"
  shows "log_inv d (tr @ conn_events td r pc st) (ps(td \<mapsto> pc')) st'"
proof -
  let ?evs = "conn_events td r pc st"
  note c = step_chunks [OF step]
  have "dinv (dev st')" "dabs (dev st') = spec_write (dabs d) (log_bytes (tr @ ?evs))"
    using step_device [OF step _ log_inv_room(1,2) [OF inv fin pc room]] inv
    by (simp_all add: log_inv_def spec_write_append)
  moreover have "subseq (written a (tr @ ?evs) @ (case (ps(td \<mapsto> pc')) a of None \<Rightarrow> [] | Some pc \<Rightarrow> unwritten pc))
      (received a (tr @ ?evs))" for a
  proof (cases "a = td")
    case True
    have "subseq (written td tr @ unwritten pc) (received td tr)"
      using inv pc unfolding log_inv_def by (metis option.simps(5))
    then have "subseq ((written td tr @ unwritten pc) @ received td ?evs) (received td tr @ received td ?evs)"
      by (intro list_emb_append_mono) auto
    moreover have "subseq (written td tr @ (written td ?evs @ unwritten pc')) (written td tr @ (unwritten pc @ received td ?evs))"
      using c(1) by (simp only: subseq_append')
    ultimately show ?thesis
      using True subseq_order.trans by fastforce
  next
    case False
    then show ?thesis
      using inv conn_events_own [OF False, of r pc st] by (simp add: log_inv_def)
  qed
  moreover have "length (log_bytes (tr @ ?evs)) + map_sum unwritten_len (ps(td \<mapsto> pc')) \<le> bytes_in (tr @ ?evs)"
    using map_sum_upd [OF fin pc, of unwritten_len pc'] c(2) inv by (simp add: log_inv_def)
  moreover have "unat (file_size st') + map_sum uncounted (ps(td \<mapsto> pc')) \<le> bytes_in (tr @ ?evs)"
    using map_sum_upd [OF fin pc, of uncounted pc'] c(3) inv by (simp add: log_inv_def)
  ultimately show ?thesis
    by (simp add: log_inv_def)
qed

lemma log_inv_turn:
  assumes inv: "log_inv d tr ps st" and fin: "finite (dom ps)" and same: "dev st' = dev st" "file_size st' = file_size st"
  shows "log_inv d tr (turn_places st' ps) st'"
proof -
  have old: "pc = Reading \<or> ps td = Some pc" if "turn_places st' ps td = Some pc" for td pc
    using that by (auto simp: turn_places_def split: if_splits option.splits)
  have "map_sum unwritten_len (turn_places st' ps) \<le> map_sum unwritten_len ps"
    "map_sum uncounted (turn_places st' ps) \<le> map_sum uncounted ps"
    by (rule map_sum_mono [OF fin], use old in fastforce)+
  moreover have "subseq (written td tr @ (case turn_places st' ps td of None \<Rightarrow> [] | Some pc \<Rightarrow> unwritten pc)) (received td tr)"
    for td
  proof -
    have s: "subseq (written td tr @ (case ps td of None \<Rightarrow> [] | Some pc \<Rightarrow> unwritten pc)) (received td tr)"
      using inv by (simp add: log_inv_def)
    then have "subseq (written td tr) (received td tr)"
      by (rule subseq_order.trans [rotated]) (simp add: prefix_imp_subseq)
    then show ?thesis
      using s old by (cases "turn_places st' ps td") fastforce+
  qed
  ultimately show ?thesis
    using inv same by (simp add: log_inv_def)
qed

text \<open>No step is undefined.\<close>

lemma step_defined:
  assumes inv: "conn_inv ps st" and pc: "ps td = Some pc" and d: "dinv (dev st)"
    and fit: "length (snd (dabs (dev st))) + unwritten_len pc \<le> dlimit" "unwritten_len pc < 2 ^ 31"
      "unat (file_size st) + uncounted pc < 2 ^ 31"
    and r: "\<forall>bs. r = ReadBytes bs \<longrightarrow> length bs < MAXLINE"
  shows "conn_step P td r pc st \<noteq> StepUndefined"
proof -
  obtain t where t: "tds st td = Some t"
    using places_okD [of ps st td pc] inv pc by (auto simp: conn_inv_def)
  have alive: "lock_alive st" and held: "critical pc \<Longrightarrow> write_lock st"
    using inv pc by (auto simp: conn_inv_def lock_ok_def)
  show ?thesis
  proof (cases pc)
    case Reading
    then show ?thesis
      using t r by (auto simp: finish_connection_def split: net_read.split)
  next
    case (InWrite c buf w)
    have "\<exists>x. sys_write P fd buf st = Some x" if "w = WWrite" for fd
      using write_law [OF d, of buf] fit(1,2) InWrite that by (auto simp: sys_write_def)
    moreover have "sint (file_size st) + int (length buf) < 2 ^ 31"
    proof -
      have "sint (word_of_nat (unat (file_size st)) :: u32) = int (unat (file_size st))"
        by (rule sint_of_nat_u32) (use fit(3) in simp)
      then have "sint (file_size st) = int (unat (file_size st))"
        by (simp only: of_nat_unat ucast_id)
      moreover have "int (unat (file_size st) + length buf) < int (2 ^ 31)"
        using fit(3) InWrite by (simp only: uncounted.simps of_nat_less_iff)
      ultimately show ?thesis
        by (simp only: of_nat_add of_nat_power of_nat_numeral)
    qed
    ultimately show ?thesis
      using InWrite alive held
      by (cases w) (auto simp: lock_step_def mutex_unlock_user_def split: option.split)
  next
    case (InDump c x)
    then show ?thesis
      using alive held by (cases x) (auto simp: lock_step_def mutex_unlock_user_def sys_read_def read_law [OF d]
          BUFFSIZE_def Let_def split: option.split)
  next
    case (InSeek c s)
    show ?thesis
    proof (cases s)
      case (SIoctl sk)
      have call: "\<exists>rc off' d'. p_log_ioctl P sk off (dev st) = Some (rc, off', d')" for off
        using ioctl_law [OF d, of sk off] by (metis surj_pair)
      have "\<exists>x. sys_ioctl P fd sk st = Some x" for fd
      proof (cases "open_fds st fd")
        case (Some off)
        then show ?thesis
          using call [of off] by (auto simp: sys_ioctl_def)
      qed (simp add: sys_ioctl_def)
      then obtain x where "sys_ioctl P (log_fd st) sk st = Some x"
        by blast
      then show ?thesis
        using InSeek SIoctl by (cases x) simp
    qed (use InSeek in \<open>auto simp: sys_read_def read_law [OF d] BUFFSIZE_def Let_def split: option.split\<close>)
  qed simp
qed

lemma places_finite: "conn_inv ps st \<Longrightarrow> finite (dom ps)"
proof -
  assume inv: "conn_inv ps st"
  then obtain xs where "tlist st xs"
    by (auto simp: conn_inv_def)
  then have "finite (dom (tds st))"
    using tlistD(4) by fastforce
  moreover have "dom ps \<subseteq> dom (tds st)"
    using inv places_okD unfolding conn_inv_def by blast
  ultimately show ?thesis
    by (rule finite_subset [rotated])
qed

lemma interleaved_log:
  assumes "interleaved P d tr ps st" "dinv d" "length (snd (dabs d)) + bytes_in tr \<le> dlimit" "bytes_in tr < 2 ^ 31"
  shows "log_inv d tr ps st"
  using assms
proof (induction rule: interleaved.induct)
  case (start is_daemon rc1 rc2 sock rc3 calls st)
  then show ?case
    using started [OF start(1)] by (simp add: log_inv_def)
next
  case (thread tr ps st td pc r pc' st')
  then have "log_inv d tr ps st" "length (snd (dabs d)) + bytes_in tr \<le> dlimit" "bytes_in tr < 2 ^ 31"
    by simp_all
  then show ?case
    using log_inv_step [OF _ places_finite [OF interleaved_inv [OF thread.hyps(1)]] thread.hyps(2,3)] by blast
next
  case (turn tr ps st t st')
  moreover have "dev st' = dev st" "file_size st' = file_size st"
    using run_turn_keeps [OF turn.hyps(2,3)] by (auto simp: turn_keeps_def shared_same_def)
  ultimately show ?case
    using log_inv_turn [OF _ places_finite [OF interleaved_inv [OF turn.hyps(1)]]] by blast
next
  case (signal tr ps st sig)
  then show ?case
    by (simp add: log_inv_def thrd_signal_handler_def aesd_thrd_signal_triggered_def Let_def)
qed

text \<open>The log of an interleaved server, and that its threads can go on.\<close>

lemma interleaved_serves:
  assumes run: "interleaved P d tr ps st" and d: "dinv d"
    and room: "length (snd (dabs d)) + bytes_in tr \<le> dlimit" "bytes_in tr < 2 ^ 31"
  shows "dabs (dev st) = spec_write (dabs d) (log_bytes tr)" "subseq (written td tr) (received td tr)"
    "ps td = Some pc \<Longrightarrow> \<forall>bs. r = ReadBytes bs \<longrightarrow> length bs < MAXLINE \<Longrightarrow> conn_step P td r pc st \<noteq> StepUndefined"
proof -
  note log = interleaved_log [OF assms] and inv = interleaved_inv [OF run]
  show "dabs (dev st) = spec_write (dabs d) (log_bytes tr)"
    using log by (simp add: log_inv_def)
  have "subseq (written td tr @ (case ps td of None \<Rightarrow> [] | Some pc \<Rightarrow> unwritten pc)) (received td tr)"
    using log by (simp add: log_inv_def)
  then show "subseq (written td tr) (received td tr)"
    by (rule subseq_order.trans [rotated]) (simp add: prefix_imp_subseq)
  show "conn_step P td r pc st \<noteq> StepUndefined"
    if "ps td = Some pc" "\<forall>bs. r = ReadBytes bs \<longrightarrow> length bs < MAXLINE"
    using step_defined [OF inv that(1) _ log_inv_room [OF log places_finite [OF inv] that(1) room] that(2)] log
    by (simp add: log_inv_def)
qed

end

text \<open>On the driver.\<close>

context good_system
begin

lemma log_on_driver:
  assumes "interleaved (driver_posix k pick net) d tr ps st" "drv_inv d"
    "length (snd (dev_abs d)) + bytes_in tr \<le> k_kmalloc_max k" "bytes_in tr < 2 ^ 31"
  shows "dev_abs (dev st) = spec_write (dev_abs d) (log_bytes tr) \<and>
    (\<forall>td. subseq (written td tr) (received td tr)) \<and>
    (\<forall>td pc r. ps td = Some pc \<longrightarrow> (\<forall>bs. r = ReadBytes bs \<longrightarrow> length bs < MAXLINE) \<longrightarrow>
       conn_step (driver_posix k pick net) td r pc st \<noteq> StepUndefined)"
  using served.interleaved_serves [OF assms] by blast

end

end
