(* ===== verification/ConnProgress.thy ===== *)
theory ConnProgress
  imports ConnLog
begin

text \<open>
  The connection threads come to rest: while no new input arrives they cannot step for ever, and from
  every state that the interleaved server reaches they can all go on to their next \<open>read\<close>, with the lock
  free.
\<close>

section \<open>What is left to do\<close>

fun write_rank :: "write_pc \<Rightarrow> nat" where
  "write_rank WLock = 13"
| "write_rank WOpen = 12"
| "write_rank WCheck = 11"
| "write_rank WWrite = 10"
| "write_rank (WUnlock n) = 9"
| "write_rank (WClose n) = 8"
| "write_rank WCount = 7"

fun dump_rank :: "dump_pc \<Rightarrow> nat" where
  "dump_rank DLock = 6"
| "dump_rank DOpen = 5"
| "dump_rank DCheck = 4"
| "dump_rank DRead = 3"
| "dump_rank (DSend chunk) = 3"
| "dump_rank DClose = 2"
| "dump_rank DUnlock = 1"

fun seek_rank :: "seek_pc \<Rightarrow> nat" where
  "seek_rank (SOpen sk) = 5"
| "seek_rank (SCheck sk) = 4"
| "seek_rank (SIoctl sk) = 3"
| "seek_rank SRead = 2"
| "seek_rank (SSend chunk) = 2"
| "seek_rank SClose = 1"

fun rank :: "conn_pc \<Rightarrow> nat" where
  "rank (InWrite c buf w) = write_rank w"
| "rank (InDump c d) = dump_rank d"
| "rank (InSeek c s) = seek_rank s"
| "rank pc = 0"

text \<open>Inside the reply loops the rank stays; a read moves the offset of \<open>log_fd\<close>, a chunk is sent.\<close>

fun sending :: "conn_pc \<Rightarrow> nat" where
  "sending (InDump c d) = (case d of DSend chunk \<Rightarrow> 1 | _ \<Rightarrow> 0)"
| "sending (InSeek c s) = (case s of SSend chunk \<Rightarrow> 1 | _ \<Rightarrow> 0)"
| "sending pc = 0"

lemma rank_0_iff: "rank pc = 0 \<longleftrightarrow> pc = Reading \<or> pc = Ended"
proof (cases pc)
  case (InWrite c buf w)
  then show ?thesis by (cases w) simp_all
next
  case (InDump c d)
  then show ?thesis by (cases d) simp_all
next
  case (InSeek c s)
  then show ?thesis by (cases s) simp_all
qed simp_all

text \<open>A step of some thread that is not its \<open>read\<close>.\<close>

inductive silent :: "'d posix \<Rightarrow> places \<times> 'd server \<Rightarrow> places \<times> 'd server \<Rightarrow> bool" for P where
  step: "ps td = Some pc \<Longrightarrow> pc \<noteq> Reading \<Longrightarrow> conn_step P td r pc st = StepTo pc' st' \<Longrightarrow>
    silent P (ps, st) (ps(td \<mapsto> pc'), st')"

inductive_cases silentE: "silent P (ps, st) (ps', st')"

lemma silent_events: "pc \<noteq> Reading \<Longrightarrow> bytes_in (conn_events td r pc st) = 0"
  by (auto simp: conn_events_def split: conn_pc.split write_pc.split)

lemma silent_interleaved:
  assumes "silent P (ps, st) (ps', st')" "interleaved P d tr ps st"
  obtains tr' where "interleaved P d tr' ps' st'" "bytes_in tr' = bytes_in tr"
proof -
  obtain td pc r pc' where "ps td = Some pc" "pc \<noteq> Reading" "conn_step P td r pc st = StepTo pc' st'" "ps' = ps(td \<mapsto> pc')"
    using assms(1) by (rule silentE) blast
  then show thesis
    using that [of "tr @ conn_events td r pc st"] interleaved.thread [OF assms(2), of td pc r pc' st']
      silent_events [of pc td r st] by simp
qed

section \<open>Descriptors and the lock\<close>

text \<open>A step may open or close descriptors; it stores a new \<open>log_fd\<close> only from \<open>open\<close>.\<close>

lemma conn_step_files:
  assumes "conn_step P td r pc st = StepTo pc' st'"
  shows "log_path st' = log_path st \<and> (finite (dom (open_fds st)) \<longrightarrow> finite (dom (open_fds st'))) \<and>
    (log_fd st' = log_fd st \<or> log_fd st' = fst (sys_open P st))"
proof (cases pc)
  case Reading
  then show ?thesis
    using assms by (auto simp: message_pc_def finish_connection_def bind_eq_Some_conv
        split: net_read.splits if_splits option.splits)
next
  case (InWrite c buf w)
  then show ?thesis
    using assms by (cases w) (auto simp: lock_step_StepTo open_log_def sys_open_def sys_write_def sys_close_def
        mutex_unlock_user_def Let_def bind_eq_Some_conv split: if_splits)
next
  case (InDump c d)
  then show ?thesis
    using assms by (cases d) (auto simp: lock_step_StepTo open_log_def sys_open_def sys_read_def sys_close_def
        net_write_def mutex_unlock_user_def Let_def bind_eq_Some_conv split: if_splits option.splits)
next
  case (InSeek c s)
  then show ?thesis
    using assms by (cases s) (auto simp: open_log_def sys_open_def sys_read_def sys_ioctl_def sys_close_def
        net_write_def Let_def bind_eq_Some_conv split: if_splits option.splits)
qed (use assms in simp)

lemma conn_step_opens:
  assumes "conn_step P td r pc st = StepTo (InWrite c buf WCheck) st'"
  shows "log_fd st' = fst (sys_open P st)"
proof (cases pc)
  case Reading
  then show ?thesis
    using assms by (auto simp: message_pc_def split: net_read.splits if_splits option.splits)
next
  case (InWrite c buf w)
  then show ?thesis
    using assms by (cases w) (auto simp: lock_step_StepTo open_log_def Let_def split: if_splits prod.splits)
next
  case (InDump c d)
  then show ?thesis
    using assms by (cases d) (auto simp: lock_step_StepTo split: if_splits)
next
  case (InSeek c s)
  then show ?thesis
    using assms by (cases s) (auto split: if_splits)
qed (use assms in simp)

text \<open>Who leaves the critical section frees the lock, unless the log could not be opened.\<close>

lemma conn_step_frees:
  assumes "conn_step P td r pc st = StepTo pc' st'" "critical pc" "\<not> critical pc'"
  shows "\<not> write_lock st' \<or> (\<exists>c buf. pc = InWrite c buf WCheck) \<and> log_fd st < 0"
proof (cases pc)
  case (InWrite c buf w)
  then show ?thesis
    using assms by (cases w) (auto simp: mutex_unlock_user_def split: if_splits)
next
  case (InDump c d)
  then show ?thesis
    using assms by (cases d) (auto simp: mutex_unlock_user_def split: if_splits)
qed (use assms in simp_all)

text \<open>Only who finds the lock taken waits.\<close>

lemma conn_step_waits:
  assumes "conn_step P td r pc st = StepWaits"
  shows "pc = Ended \<or> write_lock st \<and> \<not> critical pc"
proof (cases pc)
  case Reading
  then show ?thesis
    using assms by (auto split: net_read.splits if_splits option.splits)
next
  case (InWrite c buf w)
  then show ?thesis
    using assms by (cases w) (auto simp: lock_step_def split: if_splits option.splits prod.splits)
next
  case (InDump c d)
  then show ?thesis
    using assms by (cases d) (auto simp: lock_step_def split: if_splits option.splits prod.splits)
next
  case (InSeek c s)
  then show ?thesis
    using assms by (cases s) (auto split: if_splits option.splits prod.splits)
qed simp

section \<open>Over the contract of the log device\<close>

context full_net
begin

text \<open>
  The log can be opened, no thread is about to find that it could not be, and a lock that is held
  has a holder.
\<close>

definition files_ok :: "places \<Rightarrow> 'd server \<Rightarrow> bool" where
  "files_ok ps st \<longleftrightarrow> log_path st \<and> finite (dom (open_fds st)) \<and>
     (\<forall>td c buf. ps td = Some (InWrite c buf WCheck) \<longrightarrow> 0 \<le> log_fd st) \<and>
     (write_lock st \<longrightarrow> (\<exists>td pc. ps td = Some pc \<and> critical pc))"

lemma files_ok_step:
  assumes ok: "files_ok ps st" and pc: "ps td = Some pc" and step: "conn_step P td r pc st = StepTo pc' st'"
  shows "files_ok (ps(td \<mapsto> pc')) st'"
proof -
  note files = conn_step_files [OF step] and lock = conn_step_lock [OF step]
  have path: "log_path st" "finite (dom (open_fds st))"
    using ok by (auto simp: files_ok_def)
  have opened: "0 \<le> fst (sys_open P st)"
    by (rule open_quiet [OF path]) simp
  have new: "log_fd st' = fst (sys_open P st)" if "pc' = InWrite c buf WCheck" for c buf
    using conn_step_opens step that by blast
  have "0 \<le> log_fd st'" if "(ps(td \<mapsto> pc')) a = Some (InWrite c buf WCheck)" for a c buf
    using that files new opened ok by (cases "a = td") (auto simp: files_ok_def)
  moreover have "\<exists>a p. (ps(td \<mapsto> pc')) a = Some p \<and> critical p" if held: "write_lock st'"
  proof (cases "critical pc \<or> critical pc'")
    case True
    have "critical pc'" if "critical pc"
      using conn_step_frees [OF step that] held ok pc by (force simp: files_ok_def)
    with True show ?thesis
      by (intro exI [of _ td]) auto
  next
    case False
    then have "write_lock st"
      using lock held by simp
    then show ?thesis
      using ok pc False unfolding files_ok_def by (metis fun_upd_other option.inject)
  qed
  ultimately show ?thesis
    using files path by (auto simp: files_ok_def)
qed

lemma files_ok_turn:
  assumes ok: "files_ok ps st" and inv: "conn_inv ps st" and turn: "turn_ok t st" "run_turn t st = Some (e, st')"
  shows "files_ok (turn_places st' ps) st'"
proof -
  note keeps = run_turn_keeps [OF turn]
  have old: "ps td = Some pc" if "turn_places st' ps td = Some pc" "pc \<noteq> Reading" for td pc
    using that by (auto simp: turn_places_def split: if_splits option.splits)
  have "turn_places st' ps td = Some pc" if pc: "ps td = Some pc" "critical pc" for td pc
  proof -
    have "places_ok ps st" "pc \<noteq> Ended"
      using inv pc(2) by (auto simp: conn_inv_def)
    then obtain t' where "tds st td = Some t'" "\<not> is_completed t'"
      using places_okD [of ps st td pc] pc(1) by blast
    then have "tds st' td = Some t'"
      using keeps by (simp add: turn_keeps_def)
    then show ?thesis
      using pc(1) by (simp add: turn_places_def)
  qed
  note stays = this
  have same: "log_path st' = log_path st" "open_fds st' = open_fds st" "log_fd st' = log_fd st" "write_lock st' = write_lock st"
    using keeps by (simp_all add: turn_keeps_def shared_same_def)
  have "0 \<le> log_fd st'" if "turn_places st' ps td = Some (InWrite c buf WCheck)" for td c buf
    using old [OF that] ok same by (auto simp: files_ok_def)
  moreover have "\<exists>td pc. turn_places st' ps td = Some pc \<and> critical pc" if "write_lock st'"
    using stays ok that same unfolding files_ok_def by blast
  ultimately show ?thesis
    using ok same by (simp add: files_ok_def)
qed

lemma interleaved_files: "interleaved P d tr ps st \<Longrightarrow> files_ok ps st"
proof (induction rule: interleaved.induct)
  case (start is_daemon rc1 rc2 sock rc3 calls st)
  then show ?case
    using started [OF start] by (simp add: files_ok_def)
next
  case (turn tr ps st t st')
  then show ?case
    using files_ok_turn [OF _ interleaved_inv] by blast
next
  case (signal tr ps st sig)
  then show ?case
    by (simp add: files_ok_def thrd_signal_handler_def aesd_thrd_signal_triggered_def Let_def)
qed (use files_ok_step in blast)

subsection \<open>The measure\<close>

text \<open>What \<open>log_fd\<close> has still to give to a reader.\<close>

definition remaining :: "'d server \<Rightarrow> nat" where
  "remaining st = (case open_fds st (log_fd st) of None \<Rightarrow> 0 | Some off \<Rightarrow> length (content (dev st)) - unat off)"

definition work :: "places \<times> 'd server \<Rightarrow> nat \<times> nat" where
  "work = (\<lambda>(ps, st). (map_sum rank ps, 2 * remaining st + map_sum sending ps))"

text \<open>A read that gives bytes leaves less to read.\<close>

lemma read_less:
  assumes d: "dinv (dev st)" and rd: "sys_read P (log_fd st) BUFFSIZE st = Some (rn, bs, st')" and rn: "0 < rn"
  shows "remaining st' < remaining st"
proof -
  let ?c = "content (dev st)"
  obtain off where off: "open_fds st (log_fd st) = Some off"
    using rd rn by (auto simp: sys_read_def split: option.splits)
  let ?j = "min BUFFSIZE (length ?c - unat off)"
  have res: "rn = int ?j" "open_fds st' (log_fd st') = Some (off + word_of_nat ?j)" "dev st' = dev st"
    using rd off read_law [OF d, of BUFFSIZE off] by (auto simp: sys_read_def BUFFSIZE_def Let_def)
  have "unat off + ?j \<le> length ?c" "length ?c < 2 ^ 62" "0 < ?j"
    using res(1) rn content_law [OF d] by auto
  then have "unat (off + word_of_nat ?j) = unat off + ?j"
    by (subst unat_plus_no_wrap) (simp_all add: unat_of_nat_small)
  then have "remaining st' = length ?c - (unat off + ?j)" "remaining st = length ?c - unat off"
    using res off by (simp_all add: remaining_def)
  then show ?thesis
    using \<open>unat off + ?j \<le> length ?c\<close> \<open>0 < ?j\<close> by linarith
qed

lemma sent_remaining [simp]: "remaining (snd (net_write P c chunk st)) = remaining st"
  by (simp add: remaining_def net_write_def Let_def split: option.split)

text \<open>A step lowers the rank, or it stays and less is left to read or to send.\<close>

lemma conn_step_work:
  assumes step: "conn_step P td r pc st = StepTo pc' st'" and pc: "pc \<noteq> Reading" and d: "dinv (dev st)"
  shows "rank pc' < rank pc \<or> rank pc' = rank pc \<and> 2 * remaining st' + sending pc' < 2 * remaining st + sending pc"
proof (cases pc)
  case (InWrite c buf w)
  then show ?thesis
    using step by (cases w) (auto simp: lock_step_StepTo split: if_splits)
next
  case (InDump c x)
  then show ?thesis
    using step read_less [OF d] by (cases x) (fastforce simp: lock_step_StepTo split: if_splits)+
next
  case (InSeek c s)
  then show ?thesis
    using step read_less [OF d] by (cases s) (fastforce split: if_splits)+
qed (use step pc in simp_all)

lemma silent_work:
  assumes step: "silent P (ps, st) (ps', st')" and fin: "finite (dom ps)" and d: "dinv (dev st)"
  shows "(work (ps', st'), work (ps, st)) \<in> less_than <*lex*> less_than"
proof -
  obtain td pc r pc' where s: "ps td = Some pc" "pc \<noteq> Reading" "conn_step P td r pc st = StepTo pc' st'"
    and ps': "ps' = ps(td \<mapsto> pc')"
    using step by (rule silentE) blast
  have "map_sum g ps' + g pc = map_sum g ps + g pc'" for g :: "conn_pc \<Rightarrow> nat"
    unfolding ps' by (rule map_sum_upd [OF fin s(1)])
  from this [of rank] this [of sending] show ?thesis
    using conn_step_work [OF s(3,2) d] by (auto simp: work_def)
qed

subsection \<open>Rest\<close>

text \<open>A state that the interleaved server reaches on a device with room for what has come in.\<close>

definition reached :: "'d \<Rightarrow> places \<times> 'd server \<Rightarrow> bool" where
  "reached d = (\<lambda>(ps, st). \<exists>tr. interleaved P d tr ps st \<and>
     length (snd (dabs d)) + bytes_in tr \<le> dlimit \<and> bytes_in tr < 2 ^ 31)"

lemma reached_silent: "silent P q q' \<Longrightarrow> reached d q \<Longrightarrow> reached d q'"
  by (cases q; cases q') (auto simp: reached_def elim!: silent_interleaved)

lemma reached_silents: "(silent P)\<^sup>*\<^sup>* q q' \<Longrightarrow> reached d q \<Longrightarrow> reached d q'"
  by (induction rule: rtranclp_induct) (auto intro: reached_silent)

lemma reached_work:
  assumes "silent P q q'" "reached d q" "dinv d"
  shows "(work q', work q) \<in> less_than <*lex*> less_than"
proof (cases q; cases q')
  fix ps st ps' st'
  assume q: "q = (ps, st)" "q' = (ps', st')"
  obtain tr where tr: "interleaved P d tr ps st" "log_inv d tr ps st"
    using assms(2,3) interleaved_log unfolding q reached_def by blast
  have "finite (dom ps)" "dinv (dev st)"
    using places_finite [OF interleaved_inv [OF tr(1)]] tr(2) by (simp_all add: log_inv_def)
  then show ?thesis
    using silent_work assms(1) unfolding q by blast
qed

lemma no_endless_run:
  assumes "reached d (f 0)" "dinv d" "\<And>n. silent P (f n) (f (Suc n))"
  shows False
proof -
  have "(silent P)\<^sup>*\<^sup>* (f 0) (f n)" for n
    by (induction n) (auto intro: assms(3) rtranclp.rtrancl_into_rtrancl)
  then have "(work (f (Suc n)), work (f n)) \<in> less_than <*lex*> less_than" for n
    using reached_work [OF assms(3) _ assms(2)] reached_silents assms(1) by blast
  then show False
    using wf_no_infinite_down_chainE [OF wf_lex_prod [OF wf_less_than wf_less_than], of "\<lambda>n. work (f n)"] by blast
qed

text \<open>All threads are at their \<open>read\<close> or have returned, and the lock is free.\<close>

lemma stuck_rests:
  assumes reach: "reached d (ps, st)" and d: "dinv d" and stuck: "\<And>q. \<not> silent P (ps, st) q"
  shows "ran ps \<subseteq> {Reading, Ended} \<and> \<not> write_lock st"
proof -
  obtain tr where run: "interleaved P d tr ps st" and room: "length (snd (dabs d)) + bytes_in tr \<le> dlimit" "bytes_in tr < 2 ^ 31"
    using reach by (auto simp: reached_def)
  have rest: "pc = Reading \<or> pc = Ended \<or> write_lock st \<and> \<not> critical pc" if pc: "ps td = Some pc" for td pc
  proof (cases "conn_step P td ReadEOF pc st")
    case StepUndefined
    then show ?thesis
      using interleaved_serves(3) [OF run d room pc, of ReadEOF] by simp
  next
    case StepWaits
    then show ?thesis
      using conn_step_waits by blast
  next
    case (StepTo pc' st')
    then show ?thesis
      using stuck silent.step [of ps td pc P ReadEOF st pc' st'] pc by blast
  qed
  have "\<not> write_lock st"
  proof
    assume "write_lock st"
    then obtain td pc where "ps td = Some pc" "critical pc"
      using interleaved_files [OF run] by (auto simp: files_ok_def)
    then show False
      using rest [of td pc] by auto
  qed
  then show ?thesis
    using rest by (auto simp: ran_def)
qed

lemma comes_to_rest:
  assumes "reached d q" "dinv d"
  shows "\<exists>ps st. (silent P)\<^sup>*\<^sup>* q (ps, st) \<and> ran ps \<subseteq> {Reading, Ended} \<and> \<not> write_lock st"
  using wf_inv_image [OF wf_lex_prod [OF wf_less_than wf_less_than], of work] assms(1)
proof (induction q rule: wf_induct_rule)
  case (less q)
  show ?case
  proof (cases "\<exists>q'. silent P q q'")
    case True
    then obtain q' where q': "silent P q q'"
      by blast
    then have "(q', q) \<in> inv_image (less_than <*lex*> less_than) work"
      using reached_work less.prems assms(2) by (simp add: in_inv_image)
    then show ?thesis
      using less.IH [OF _ reached_silent [OF q' less.prems]] q' converse_rtranclp_into_rtranclp by metis
  next
    case False
    then show ?thesis
      using stuck_rests less.prems assms(2) by (cases q) blast
  qed
qed

lemma silent_rest:
  assumes "interleaved P d tr ps st" "dinv d" "length (snd (dabs d)) + bytes_in tr \<le> dlimit" "bytes_in tr < 2 ^ 31"
  shows "\<nexists>f. f 0 = (ps, st) \<and> (\<forall>n. silent P (f n) (f (Suc n)))"
    "(silent P)\<^sup>*\<^sup>* (ps, st) (ps', st') \<Longrightarrow> \<nexists>q. silent P (ps', st') q \<Longrightarrow> ran ps' \<subseteq> {Reading, Ended} \<and> \<not> write_lock st'"
    "\<exists>ps' st'. (silent P)\<^sup>*\<^sup>* (ps, st) (ps', st') \<and> ran ps' \<subseteq> {Reading, Ended} \<and> \<not> write_lock st'"
proof -
  have "reached d (ps, st)"
    using assms by (auto simp: reached_def)
  then show "\<nexists>f. f 0 = (ps, st) \<and> (\<forall>n. silent P (f n) (f (Suc n)))"
    "(silent P)\<^sup>*\<^sup>* (ps, st) (ps', st') \<Longrightarrow> \<nexists>q. silent P (ps', st') q \<Longrightarrow> ran ps' \<subseteq> {Reading, Ended} \<and> \<not> write_lock st'"
    "\<exists>ps' st'. (silent P)\<^sup>*\<^sup>* (ps, st) (ps', st') \<and> ran ps' \<subseteq> {Reading, Ended} \<and> \<not> write_lock st'"
    using no_endless_run stuck_rests reached_silents comes_to_rest assms(2) by metis+
qed

end

text \<open>On the driver.\<close>

context good_system
begin

lemmas rest_on_driver = served.silent_rest

end

end
