(* ===== verification/ConnProperties.thy ===== *)
theory ConnProperties
  imports ConnProgress ServerProperties
begin

text \<open>
  What holds, and what goes wrong, when the steps of the connection threads mix in any order.
\<close>

section \<open>Two threads\<close>

definition demo_turn2 :: turn where
  "demo_turn2 = \<lparr>t_nready = 1, t_connfd = 8, t_td = Some 3, t_create = 0, t_tid = 2, t_item = Some 4\<rparr>"

definition demo_td2 :: thread_data where
  "demo_td2 = \<lparr>td_fd = 8, is_completed = False, p_tid = 2\<rparr>"

lemma demo_two_threads:
  obtains ps st where "interleaved demo_posix demo_loaded [] ps st" "ps 1 = Some Reading" "ps 3 = Some Reading"
    "tds st 1 = Some demo_td" "tds st 3 = Some demo_td2" "lock_alive st" "\<not> write_lock st" "log_path st"
    "open_fds st = Map.empty" "dev st = demo_loaded" "file_size st = 0" "ran ps \<subseteq> {Reading, Ended}"
proof -
  have start: "interleaved demo_posix demo_loaded [] Map.empty demo_listening"
    by (rule interleaved.start [OF demo_listening_init])
  have ok1: "turn_ok demo_turn demo_listening"
    by (simp add: turn_ok_def demo_turn_def demo_listening_def server_static_def)
  obtain st1 where run1: "run_turn demo_turn demo_listening = Some (Continue, st1)" and l1: "tlist st1 [2]"
    "td_of st1 2 = 1" "tds st1 1 = Some demo_td"
    by (rule demo_one_thread)
  note reach1 = interleaved.turn [OF start ok1 run1]
  have sh1: "shared_same demo_listening st1"
    using run_turn_keeps [OF ok1 run1] by (simp add: turn_keeps_def)
  have "3 \<notin> dom (tds st1)" "4 \<notin> dom (items st1)"
    using tlistD(2,4) [OF l1(1)] l1(2) by simp_all
  then have "tds st1 3 = None" "items st1 4 = None"
    by auto
  then have ok2: "turn_ok demo_turn2 st1"
    by (simp add: turn_ok_def demo_turn2_def)
  have acc: "accepting demo_turn2 st1"
    using sh1 by (simp add: accepting_def shared_same_def demo_turn2_def demo_listening_def server_static_def)
  obtain e st2 where "run_turn demo_turn2 st1 = Some (e, st2)"
    using run_turn_tlist [OF l1(1) ok2] by blast
  then have run2: "run_turn demo_turn2 st1 = Some (Continue, st2)"
    using run_turn_new(2) [OF ok2 _ acc] by (auto simp: demo_turn2_def)
  have keeps: "turn_keeps (Some 3) st1 st2"
    using run_turn_keeps [OF ok2 run2] by (simp add: demo_turn2_def)
  have td2: "tds st2 3 = Some demo_td2"
    using run_turn_new(1) [OF ok2 run2 acc] by (simp add: demo_turn2_def demo_td2_def new_thread_def)
  have td1: "tds st2 1 = Some demo_td"
    using keeps l1(3) by (simp add: turn_keeps_def demo_td_def)
  have same: "shared_same demo_listening st2"
    using sh1 keeps by (simp add: turn_keeps_def shared_same_def)
  note reach2 = interleaved.turn [OF reach1 ok2 run2]
  have "ran (turn_places st2 (turn_places st1 Map.empty)) \<subseteq> {Reading, Ended}"
    by (auto simp: ran_def turn_places_def split: if_splits option.splits)
  then show thesis
    using that [OF reach2] td1 td2 l1(3) \<open>tds st1 3 = None\<close> same
    by (simp add: turn_places_def shared_same_def demo_listening_def server_static_def)
qed

text \<open>A thread gets a plain message, takes the lock and opens the log; then it writes and unlocks.\<close>

lemma reach_write:
  assumes run: "interleaved P d tr ps st" "ps td = Some Reading" "tds st td = Some t" "plain_message bs"
    and free: "p_mutex_lock P = 0" "\<not> write_lock st" "lock_alive st"
    and log: "log_path st" "p_open P (open_fds st) (dev st) = lfd" "0 \<le> lfd"
  shows "interleaved P d (tr @ [Received td bs]) (ps(td \<mapsto> InWrite (td_fd t) bs WWrite))
    (st\<lparr>write_lock := True, open_fds := (open_fds st)(lfd \<mapsto> 0), log_fd := lfd\<rparr>)"
proof -
  let ?c = "td_fd t" and ?tr = "tr @ [Received td bs]"
  let ?st1 = "st\<lparr>write_lock := True\<rparr>"
  let ?st2 = "?st1\<lparr>open_fds := (open_fds st)(lfd \<mapsto> 0), log_fd := lfd\<rparr>"
  have "interleaved P d ?tr (ps(td \<mapsto> InWrite ?c bs WLock)) st"
    using interleaved.thread [OF run(1,2), of "ReadBytes bs" "InWrite ?c bs WLock" st] run(3,4)
    by (simp add: conn_events_def message_pc_def plain_message_def)
  from interleaved.thread [OF this, of td "InWrite ?c bs WLock" ReadEOF "InWrite ?c bs WOpen" ?st1] free
  have "interleaved P d ?tr (ps(td \<mapsto> InWrite ?c bs WOpen)) ?st1"
    by (simp add: conn_events_def lock_step_def)
  from interleaved.thread [OF this, of td "InWrite ?c bs WOpen" ReadEOF "InWrite ?c bs WCheck" ?st2] log
  have "interleaved P d ?tr (ps(td \<mapsto> InWrite ?c bs WCheck)) ?st2"
    by (simp add: conn_events_def open_log_def sys_open_def Let_def)
  from interleaved.thread [OF this, of td "InWrite ?c bs WCheck" ReadEOF "InWrite ?c bs WWrite" ?st2] log(3)
  show ?thesis
    by (simp add: conn_events_def)
qed

lemma reach_close:
  assumes run: "interleaved P d tr ps st" "ps td = Some (InWrite c bs WWrite)"
    and w: "open_fds st (log_fd st) \<noteq> None" "p_log_write P bs (dev st) = Some (n, d')"
  shows "interleaved P d (tr @ [Wrote td bs]) (ps(td \<mapsto> InWrite c bs (WClose n))) (st\<lparr>dev := d', write_lock := False\<rparr>)"
proof -
  have s1: "interleaved P d (tr @ [Wrote td bs]) (ps(td \<mapsto> InWrite c bs (WUnlock n))) (st\<lparr>dev := d'\<rparr>)"
    using interleaved.thread [OF run, of ReadEOF "InWrite c bs (WUnlock n)" "st\<lparr>dev := d'\<rparr>"] w
    by (auto simp: conn_events_def sys_write_def)
  have "write_lock (st\<lparr>dev := d'\<rparr>)"
    using interleaved_lock [OF s1, of td] by simp
  then show ?thesis
    using interleaved.thread [OF s1, of td "InWrite c bs (WUnlock n)" ReadEOF] by (simp add: conn_events_def mutex_unlock_user_def)
qed

text \<open>The first thread is before its \<open>close\<close>, the second before its \<open>write\<close>.\<close>

lemma demo_race:
  obtains ps st where "interleaved demo_posix demo_loaded [Received 1 [104], Wrote 1 [104], Received 3 [105]] ps st"
    "ps 1 = Some (InWrite 7 [104] (WClose 1))" "ps 3 = Some (InWrite 8 [105] WWrite)" "dev_abs (dev st) = ([], [104])"
proof -
  obtain ps st where st: "interleaved demo_posix demo_loaded [] ps st" "ps 1 = Some Reading" "ps 3 = Some Reading"
    "tds st 1 = Some demo_td" "tds st 3 = Some demo_td2" "lock_alive st" "\<not> write_lock st" "log_path st"
    "open_fds st = Map.empty" "dev st = demo_loaded" "file_size st = 0"
    by (rule demo_two_threads)
  have plain: "plain_message [104]" "plain_message [105]"
    by (simp_all add: plain_message_def MAXLINE_def parse_aesdchar_ioseek_def c_string_def ioseek_prefix_bytes)
  have posix: "p_mutex_lock demo_posix = 0" "p_open demo_posix fds d = demo_pick_fd fds" for fds d
    by (simp_all add: driver_posix_def)
  obtain d' where d': "p_log_write demo_posix [104] demo_loaded = Some (1, d')" "dev_abs d' = ([], [104])"
    using demo.write_law [OF demo_inv(1), of "[104]"] by (auto simp: demo_inv demo_calls spec_write_def newline_def)
  let ?st1 = "st\<lparr>write_lock := True, open_fds := [3 \<mapsto> 0], log_fd := 3\<rparr>"
  have "interleaved demo_posix demo_loaded [Received 1 [104]] (ps(1 \<mapsto> InWrite 7 [104] WWrite)) ?st1"
    using reach_write [OF st(1,2,4) plain(1) posix(1) st(7,6,8) posix(2)] st(9)
    by (simp add: demo_pick_fd_def demo_td_def)
  from reach_close [OF this, of 1 7 "[104]" 1 d'] d'(1) st(10)
  have run1: "interleaved demo_posix demo_loaded [Received 1 [104], Wrote 1 [104]] (ps(1 \<mapsto> InWrite 7 [104] (WClose 1)))
      (?st1\<lparr>dev := d', write_lock := False\<rparr>)"
    by simp
  let ?st2 = "?st1\<lparr>dev := d', write_lock := False\<rparr>"
  have "interleaved demo_posix demo_loaded [Received 1 [104], Wrote 1 [104], Received 3 [105]]
      (ps(1 \<mapsto> InWrite 7 [104] (WClose 1), 3 \<mapsto> InWrite 8 [105] WWrite))
      (?st2\<lparr>write_lock := True, open_fds := [3 \<mapsto> 0, 4 \<mapsto> 0], log_fd := 4\<rparr>)"
    using reach_write [OF run1, of 3 demo_td2 "[105]" 4] plain(2) posix st
    by (simp add: demo_pick_fd_def demo_td2_def)
  then show thesis
    by (rule that) (simp_all add: d'(2))
qed

section \<open>Mutual exclusion\<close>

text \<open>
  C27 (the lock and the structs): in every interleaving of the connection threads, the accept loop and
  signals, at most one thread is between lock and unlock and the lock is then held; a thread that has
  not returned has its \<open>struct ThreadData\<close>; and a turn of the accept loop returns and frees none of
  these.
\<close>

theorem one_thread_holds_lock:
  assumes "interleaved P d tr ps st"
  shows "(\<forall>a b p q. ps a = Some p \<longrightarrow> ps b = Some q \<longrightarrow> critical p \<longrightarrow> critical q \<longrightarrow> a = b \<and> write_lock st) \<and>
    (\<forall>td pc. ps td = Some pc \<longrightarrow> pc \<noteq> Ended \<longrightarrow> (\<exists>t. tds st td = Some t \<and> \<not> is_completed t)) \<and>
    (\<forall>t. turn_ok t st \<longrightarrow> (\<exists>e st'. run_turn t st = Some (e, st') \<and>
       (\<forall>td pc. ps td = Some pc \<longrightarrow> pc \<noteq> Ended \<longrightarrow> tds st' td = tds st td)))"
proof (intro conjI allI impI)
  note inv = interleaved_inv [OF assms, unfolded conn_inv_def]
  show "a = b" "write_lock st" if "ps a = Some p" "ps b = Some q" "critical p" "critical q" for a b p q
    using inv that unfolding lock_ok_def by blast+
  show td: "\<exists>t. tds st td = Some t \<and> \<not> is_completed t" if "ps td = Some pc" "pc \<noteq> Ended" for td pc
    using places_okD [of ps st td pc] inv that by blast
  fix t
  assume ok: "turn_ok t st"
  then obtain e st' where run: "run_turn t st = Some (e, st')"
    using inv run_turn_tlist by blast
  have "tds st' td = tds st td" if "ps td = Some pc" "pc \<noteq> Ended" for td pc
    using td [OF that] run_turn_keeps [OF ok run] by (auto simp: turn_keeps_def)
  then show "\<exists>e st'. run_turn t st = Some (e, st') \<and>
      (\<forall>td pc. ps td = Some pc \<longrightarrow> pc \<noteq> Ended \<longrightarrow> tds st' td = tds st td)"
    using run by blast
qed

theorem one_thread_holds_lock_witness:
  "\<exists>tr ps st. interleaved demo_posix demo_loaded tr ps st \<and> ps 3 = Some (InWrite 8 [105] WWrite) \<and> write_lock st \<and> tds st 1 \<noteq> None"
proof -
  obtain ps st where st: "interleaved demo_posix demo_loaded [Received 1 [104], Wrote 1 [104], Received 3 [105]] ps st"
    "ps 1 = Some (InWrite 7 [104] (WClose 1))" "ps 3 = Some (InWrite 8 [105] WWrite)"
    by (rule demo_race)
  have "write_lock st" "tds st 1 \<noteq> None"
    using one_thread_holds_lock [OF st(1)] st(2,3) by fastforce+
  then show ?thesis
    using st by blast
qed

section \<open>The log\<close>



section \<open>What the lock does not protect\<close>

text \<open>
  C32 (a lost chunk): \<open>write_safe\<close> closes the global \<open>log_fd\<close> after it has released the lock. If by then
  another thread has taken the lock and opened the log, its descriptor is closed under it, its write
  fails and the chunk that it had received is dropped, while the log is as it was.
\<close>

theorem close_race_drops_chunk:
  assumes "interleaved P d tr ps st" "a \<noteq> b"
    and "ps a = Some (InWrite ca ba (WClose na))" "ps b = Some (InWrite cb bb WWrite)"
  shows "\<exists>st'. interleaved P d tr (ps(a \<mapsto> if na < 0 then Reading else InWrite ca ba WCount, b \<mapsto> Reading)) st' \<and>
    dev st' = dev st \<and> \<not> write_lock st'"
proof -
  let ?pa = "if na < 0 then Reading else InWrite ca ba WCount"
  let ?st1 = "sys_close (log_fd st) st" and ?ps1 = "ps(a \<mapsto> ?pa)"
  have s1: "interleaved P d tr ?ps1 ?st1"
    using interleaved.thread [OF assms(1,3), of ReadEOF ?pa ?st1] by (simp add: conn_events_def)
  have closed: "open_fds ?st1 (log_fd ?st1) = None" "log_fd ?st1 = log_fd st"
    by (simp_all add: sys_close_def)
  have s2: "interleaved P d tr (?ps1(b \<mapsto> InWrite cb bb (WUnlock (- 1)))) ?st1"
    using interleaved.thread [OF s1, of b "InWrite cb bb WWrite" ReadEOF "InWrite cb bb (WUnlock (- 1))" ?st1] assms(2,4) closed
    by (simp add: conn_events_def sys_write_def)
  have "write_lock ?st1"
    using interleaved_lock [OF s2, of b] by simp
  then have s3: "interleaved P d tr (?ps1(b \<mapsto> InWrite cb bb (WClose (- 1)))) (?st1\<lparr>write_lock := False\<rparr>)"
    using interleaved.thread [OF s2, of b "InWrite cb bb (WUnlock (- 1))" ReadEOF]
    by (simp add: conn_events_def mutex_unlock_user_def)
  let ?st3 = "?st1\<lparr>write_lock := False\<rparr>"
  have s4: "interleaved P d tr (?ps1(b \<mapsto> Reading)) (sys_close (log_fd ?st3) ?st3)"
    using interleaved.thread [OF s3, of b "InWrite cb bb (WClose (- 1))" ReadEOF Reading] by (simp add: conn_events_def)
  show ?thesis
    by (rule exI [of _ "sys_close (log_fd ?st3) ?st3"]) (use s4 in simp)
qed

theorem close_race_drops_chunk_witness:
  "\<exists>ps st. interleaved demo_posix demo_loaded [Received 1 [104], Wrote 1 [104], Received 3 [105]] ps st \<and>
     ps 3 = Some Reading \<and> dev_abs (dev st) = ([], [104]) \<and> \<not> write_lock st"
proof -
  obtain ps st where st: "interleaved demo_posix demo_loaded [Received 1 [104], Wrote 1 [104], Received 3 [105]] ps st"
    "ps 1 = Some (InWrite 7 [104] (WClose 1))" "ps 3 = Some (InWrite 8 [105] WWrite)" "dev_abs (dev st) = ([], [104])"
    by (rule demo_race)
  obtain st' where st': "interleaved demo_posix demo_loaded [Received 1 [104], Wrote 1 [104], Received 3 [105]]
      (ps(1 \<mapsto> InWrite 7 [104] WCount, 3 \<mapsto> Reading)) st'" "dev st' = dev st" "\<not> write_lock st'"
    using close_race_drops_chunk [OF st(1) _ st(2,3)] by auto
  show ?thesis
    by (rule exI [of _ "ps(1 \<mapsto> InWrite 7 [104] WCount, 3 \<mapsto> Reading)"], rule exI [of _ st']) (use st' st(4) in simp)
qed

text \<open>
  Nor is it safe at the end: a signal while some thread is between lock and unlock ends the loop, and
  shutdown then destroys a lock that is held.
\<close>

theorem shutdown_destroys_held_lock:
  assumes "interleaved P d tr ps st" "ps td = Some pc" "critical pc" "sig = SIGINT \<or> sig = SIGTERM"
  shows "run_turn t (thrd_signal_handler sig st) = Some (Break, thrd_signal_handler sig st) \<and>
    aesd_thrd_shutdown finish (thrd_signal_handler sig st) = None"
  using interleaved_lock [OF assms(1-3)] assms(4)
  by (auto simp: run_turn_def aesd_thrd_shutdown_def thrd_signal_handler_def aesd_thrd_signal_triggered_def Let_def)

section \<open>Rest\<close>



end
