(* ===== verification/ConnAtomic.thy ===== *)
theory ConnAtomic
  imports ConnInvariant
begin

text \<open>
  The turns of \<open>ServerThrd\<close> are runs of the stepwise threads: a thread that is not interrupted from
  one \<open>read\<close> to the next does what \<open>process_message\<close> says, and every state of the server with
  atomic turns is a state of the interleaved one.
\<close>

section \<open>A thread alone\<close>

inductive conn_run :: "'d posix \<Rightarrow> addr \<Rightarrow> conn_pc \<Rightarrow> 'd server \<Rightarrow> conn_pc \<Rightarrow> 'd server \<Rightarrow> bool" for P td where
  here: "conn_run P td pc st pc st"
| step: "conn_step P td r pc st = StepTo pc1 st1 \<Longrightarrow> conn_run P td pc1 st1 pc2 st2 \<Longrightarrow> conn_run P td pc st pc2 st2"

lemma conn_run_here [simp]: "conn_run P td pc st pc st"
  by (rule conn_run.here)

lemma conn_run_trans: "conn_run P td pc st pc1 st1 \<Longrightarrow> conn_run P td pc1 st1 pc2 st2 \<Longrightarrow> conn_run P td pc st pc2 st2"
  by (induction rule: conn_run.induct) (auto intro: conn_run.step)

lemma conn_run_one: "conn_step P td r pc st = StepTo pc1 st1 \<Longrightarrow> conn_run P td pc st pc1 st1"
  by (blast intro: conn_run.intros)

text \<open>The steps that are not reads of the socket, for a run.\<close>

lemma run_write: "write_step P c buf w st = StepTo p s \<Longrightarrow> conn_run P td p s q s' \<Longrightarrow> conn_run P td (InWrite c buf w) st q s'"
  by (rule conn_run.step [where r = ReadEOF]) simp_all

lemma run_dump: "dump_step P c d st = StepTo p s \<Longrightarrow> conn_run P td p s q s' \<Longrightarrow> conn_run P td (InDump c d) st q s'"
  by (rule conn_run.step [where r = ReadEOF]) simp_all

lemma run_seek: "seek_step P c k st = StepTo p s \<Longrightarrow> conn_run P td p s q s' \<Longrightarrow> conn_run P td (InSeek c k) st q s'"
  by (rule conn_run.step [where r = ReadEOF]) simp_all

lemma reply_loop_run:
  assumes "reply_loop P c st = Some st'"
  shows "conn_run P td (InDump c DRead) st (InDump c DClose) st' \<and> conn_run P td (InSeek c SRead) st (InSeek c SClose) st'"
  using assms
proof (induction rule: reply_loop_induct)
  case (last st rn bs st1)
  then show ?case
    by (auto intro: run_dump [OF _ conn_run.here] run_seek [OF _ conn_run.here])
next
  case (more st rn bs st1 st')
  let ?chunk = "reply_chunk rn bs"
  have rest: "conn_run P td (InDump c DRead) (snd (net_write P c ?chunk st1)) (InDump c DClose) st'"
    "conn_run P td (InSeek c SRead) (snd (net_write P c ?chunk st1)) (InSeek c SClose) st'"
    using more(3) by (simp_all add: reply_chunk_def)
  have "dump_step P c DRead st = StepTo (InDump c (DSend ?chunk)) st1" "seek_step P c SRead st = StepTo (InSeek c (SSend ?chunk)) st1"
    using more(1,2) by simp_all
  then show ?case
    using run_dump run_dump [OF dump_step.simps(5) rest(1)] run_seek run_seek [OF seek_step.simps(5) rest(2)] by blast
qed

text \<open>Taking the lock and opening the log, as the two functions under the lock begin.\<close>

lemma lock_run:
  assumes "mutex_lock P st = Some (rc, st1)"
  shows "lock_step P failed locked st = StepTo (if rc \<noteq> 0 then failed else locked) st1"
  using assms by (auto simp: mutex_lock_def lock_step_def split: if_splits)

lemma write_safe_run:
  assumes "write_safe P buf st = Some (n, st')"
  shows "conn_run P td (InWrite c buf WLock) st (if n < 0 then Reading else InWrite c buf WCount) st'"
proof -
  obtain rc st1 where lock: "mutex_lock P st = Some (rc, st1)"
    using assms by (auto simp: write_safe_def bind_eq_Some_conv)
  note first = run_write [where w = WLock, unfolded write_step.simps, OF lock_run [OF lock]]
  show ?thesis
  proof (cases "rc = 0")
    case True
    let ?st2 = "open_log P st1"
    obtain fd st2 where opn: "sys_open P st1 = (fd, st2)"
      by (cases "sys_open P st1")
    then have st2: "?st2 = st2\<lparr>log_fd := fd\<rparr>"
      by (simp add: open_log_def)
    have opened: "conn_run P td (InWrite c buf WOpen) st1 pc st'"
      if "conn_run P td (if fd < 0 then Reading else InWrite c buf WWrite) ?st2 pc st'" for pc
      by (rule run_write [where w = WOpen], simp, rule run_write [where w = WCheck], simp, use that st2 in simp)
    have "conn_run P td (InWrite c buf WOpen) st1 (if n < 0 then Reading else InWrite c buf WCount) st'"
    proof (cases "fd < 0")
      case neg: True
      then have "n = - 1" "st' = ?st2"
        using assms lock True opn st2 by (auto simp: write_safe_def)
      then show ?thesis
        using opened neg by simp
    next
      case False
      then obtain st3 st4 where w: "sys_write P (log_fd ?st2) buf ?st2 = Some (n, st3)"
        "mutex_unlock_user st3 = Some st4" "st' = sys_close (log_fd st4) st4"
        using assms lock True opn st2 by (auto simp: write_safe_def bind_eq_Some_conv)
      have "conn_run P td (InWrite c buf WWrite) ?st2 (if n < 0 then Reading else InWrite c buf WCount) st'"
        by (rule run_write [where w = WWrite], simp add: w(1), rule run_write [where w = "WUnlock n"], simp add: w(2),
            rule run_write [where w = "WClose n"], simp, simp add: w(3) conn_run.here)
      then show ?thesis
        using opened False by simp
    qed
    then show ?thesis
      using first True by simp
  next
    case False
    then have "n = - 1" "st' = st1"
      using assms lock by (auto simp: write_safe_def)
    then show ?thesis
      using first [where td = td and q = Reading and s' = st1] False by simp
  qed
qed

lemma dump_run:
  assumes "dump_file_to_client P c st = Some st'"
  shows "conn_run P td (InDump c DLock) st Reading st'"
proof -
  obtain rc st1 where lock: "mutex_lock P st = Some (rc, st1)"
    using assms by (auto simp: dump_file_to_client_def bind_eq_Some_conv)
  have first: "conn_run P td (if rc \<noteq> 0 then Reading else InDump c DOpen) st1 q s' \<Longrightarrow> conn_run P td (InDump c DLock) st q s'" for q s'
    by (rule run_dump [where d = DLock]) (simp_all add: lock_run [OF lock])
  show ?thesis
  proof (cases "rc = 0")
    case True
    let ?st2 = "open_log P st1"
    obtain fd st2 where opn: "sys_open P st1 = (fd, st2)"
      by (cases "sys_open P st1")
    then have st2: "?st2 = st2\<lparr>log_fd := fd\<rparr>"
      by (simp add: open_log_def)
    have opened: "conn_run P td (InDump c DOpen) st1 Reading st'"
      if "conn_run P td (InDump c (if fd < 0 then DUnlock else DRead)) ?st2 Reading st'"
      by (rule run_dump [where d = DOpen], simp, rule run_dump [where d = DCheck], simp, use that st2 in simp)
    have "conn_run P td (InDump c (if fd < 0 then DUnlock else DRead)) ?st2 Reading st'"
    proof (cases "fd < 0")
      case neg: True
      then have "mutex_unlock_user ?st2 = Some st'"
        using assms lock True opn st2 by (simp add: dump_file_to_client_def)
      then show ?thesis
        using neg by (auto intro: run_dump [OF _ conn_run.here])
    next
      case False
      then obtain st3 where w: "reply_loop P c ?st2 = Some st3" "mutex_unlock_user (sys_close (log_fd st3) st3) = Some st'"
        using assms lock True opn st2 by (auto simp: dump_file_to_client_def bind_eq_Some_conv)
      have "conn_run P td (InDump c DClose) st3 Reading st'"
        by (rule run_dump [where d = DClose], simp, rule run_dump [where d = DUnlock], simp add: w(2), simp)
      then show ?thesis
        using conn_run_trans reply_loop_run [OF w(1)] False by simp blast
    qed
    then show ?thesis
      using first opened True by simp
  next
    case False
    then have "st' = st1"
      using assms lock by (simp add: dump_file_to_client_def)
    then show ?thesis
      using first False by simp
  qed
qed

lemma seek_run:
  assumes "process_message P c buf st = Some st'" "buf \<noteq> []" "parse_aesdchar_ioseek buf = Some (sc, so)"
  shows "conn_run P td (InSeek c (SOpen \<lparr>write_cmd = sc, write_cmd_offset = so\<rparr>)) st Reading st'"
proof -
  let ?sk = "\<lparr>write_cmd = sc, write_cmd_offset = so\<rparr>" and ?st1 = "open_log P st"
  obtain fd st1 where opn: "sys_open P st = (fd, st1)"
    by (cases "sys_open P st")
  then have st1: "?st1 = st1\<lparr>log_fd := fd\<rparr>"
    by (simp add: open_log_def)
  have first: "conn_run P td (InSeek c (SOpen ?sk)) st Reading st'"
    if "conn_run P td (if fd < 0 then Reading else InSeek c (SIoctl ?sk)) ?st1 Reading st'"
    by (rule run_seek [where k = "SOpen ?sk"], simp, rule run_seek [where k = "SCheck ?sk"], simp, use that st1 in simp)
  show ?thesis
  proof (cases "fd < 0")
    case True
    then have "st' = ?st1"
      using assms opn st1 by (simp add: process_message_def)
    then show ?thesis
      using first True by simp
  next
    case False
    then obtain rc st2 st3 where s: "sys_ioctl P (log_fd ?st1) ?sk ?st1 = Some (rc, st2)"
      "(if rc = - 1 then Some st2 else reply_loop P c st2) = Some st3" "st' = sys_close (log_fd st3) st3"
      using assms opn st1 by (auto simp: process_message_def bind_eq_Some_conv)
    have close: "conn_run P td (InSeek c SClose) st3 Reading st'"
      by (rule run_seek [where k = SClose], simp, simp add: s(3))
    have "conn_run P td (InSeek c (if rc = - 1 then SClose else SRead)) st2 Reading st'"
      using s(2) close conn_run_trans reply_loop_run [of P c st2 st3 td] by (auto split: if_splits)
    then have "conn_run P td (InSeek c (SIoctl ?sk)) ?st1 Reading st'"
      by (rule run_seek [where k = "SIoctl ?sk", rotated]) (simp add: s(1))
    then show ?thesis
      using first False by simp
  qed
qed

text \<open>\<open>process_message\<close> without an interruption.\<close>

lemma message_run:
  assumes "process_message P c buf st = Some st'"
  shows "conn_run P td (message_pc c buf) st Reading st'"
proof (cases "buf = [] \<or> parse_aesdchar_ioseek buf \<noteq> None")
  case True
  then show ?thesis
    using assms seek_run [OF assms] by (auto simp: message_pc_def process_message_def)
next
  case False
  then have plain: "buf \<noteq> []" "parse_aesdchar_ioseek buf = None"
    by blast+
  then obtain n st1 where w: "write_safe P buf st = Some (n, st1)"
    using assms by (auto simp: process_message_def bind_eq_Some_conv)
  note run = write_safe_run [OF w, of td c]
  show ?thesis
  proof (cases "n < 0")
    case True
    then show ?thesis
      using assms plain w run by (simp add: process_message_def message_pc_def)
  next
    case pos: False
    let ?st2 = "st1\<lparr>file_size := file_size st1 + word_of_nat (length buf)\<rparr>"
    have fits: "sint (file_size st1) + int (length buf) < 2 ^ 31"
      and rest: "(if strchr_newline buf then dump_file_to_client P c ?st2 else Some ?st2) = Some st'"
      using assms plain w pos by (auto simp: process_message_def Let_def split: if_splits)
    have "conn_run P td (if strchr_newline buf then InDump c DLock else Reading) ?st2 Reading st'"
      using rest dump_run by (auto simp: conn_run.here split: if_splits)
    then have "conn_run P td (InWrite c buf WCount) st1 Reading st'"
      by (rule run_write [where w = WCount, rotated]) (use fits in simp)
    then show ?thesis
      using plain pos conn_run_trans run by (simp add: message_pc_def)
  qed
qed

lemma handler_run:
  assumes "connection_handler P td [r] st = Some st'"
  shows "\<exists>pc. conn_run P td Reading st pc st' \<and> pc \<in> {Reading, Ended}"
proof (cases r)
  case (ReadBytes bs)
  then obtain t where t: "tds st td = Some t" "length bs < MAXLINE" "process_message P (td_fd t) bs st = Some st'"
    using assms by (auto simp: bind_eq_Some_conv split: if_splits)
  then have "conn_step P td r Reading st = StepTo (message_pc (td_fd t) bs) st"
    by (simp add: ReadBytes)
  then have "conn_run P td Reading st Reading st'"
    using message_run [OF t(3)] by (rule conn_run.step)
  then show ?thesis
    by blast
next
  case ReadError
  then have "conn_step P td r Reading st = StepTo Ended st'"
    using assms by simp
  then show ?thesis
    using conn_run_one by blast
next
  case ReadEOF
  then have "conn_step P td r Reading st = StepTo Ended st'"
    using assms by simp
  then show ?thesis
    using conn_run_one by blast
qed

section \<open>The server with atomic turns\<close>

lemma run_interleaved:
  "conn_run P td pc st pc' st' \<Longrightarrow> interleaved P d tr ps st \<Longrightarrow> ps td = Some pc \<Longrightarrow>
   \<exists>tr'. interleaved P d tr' (ps(td \<mapsto> pc')) st'"
proof (induction arbitrary: tr ps rule: conn_run.induct)
  case (here pc st)
  then have "ps(td \<mapsto> pc) = ps"
    by auto
  then show ?case
    using here by auto
next
  case (step r pc st pc1 st1 pc2 st2)
  have "\<exists>tr'. interleaved P d tr' (ps(td \<mapsto> pc1, td \<mapsto> pc2)) st2"
    by (rule step.IH [OF interleaved.thread [OF step.prems step.hyps(1)]]) simp
  then show ?case
    by (simp only: fun_upd_upd)
qed

text \<open>Between turns every thread is at a \<open>read\<close> or has returned.\<close>

lemma serving_interleaved: "serving P st \<Longrightarrow> \<exists>d tr ps. interleaved P d tr ps st \<and> ran ps \<subseteq> {Reading, Ended}"
proof (induction rule: serving.induct)
  case (start is_daemon rc1 rc2 sock rc3 calls d st)
  then show ?case
    using interleaved.start by fastforce
next
  case (turn st t st')
  then obtain d tr ps where ps: "interleaved P d tr ps st" "ran ps \<subseteq> {Reading, Ended}"
    by blast
  have "ran (turn_places st' ps) \<subseteq> {Reading, Ended}"
    using ps(2) by (fastforce simp: turn_places_def ran_def split: if_splits option.splits)
  then show ?case
    using interleaved.turn [OF ps(1) turn.hyps(2,3)] by blast
next
  case (chunk st td r st')
  then obtain d tr ps where ps: "interleaved P d tr ps st" "ran ps \<subseteq> {Reading, Ended}"
    by blast
  have "places_ok ps st"
    using interleaved_inv [OF ps(1)] by (simp add: conn_inv_def)
  moreover obtain t where "tds st td = Some t" "\<not> is_completed t"
    using chunk.hyps(2) by (auto simp: thread_runs_def split: option.splits)
  ultimately obtain pc where "ps td = Some pc" "pc \<noteq> Ended"
    by (rule places_ok_running)
  then have "ps td = Some Reading"
    using ps(2) by (auto simp: ran_def)
  moreover obtain pc' where pc': "conn_run P td Reading st pc' st'" "pc' \<in> {Reading, Ended}"
    using handler_run [OF chunk.hyps(3)] by blast
  ultimately obtain tr' where "interleaved P d tr' (ps(td \<mapsto> pc')) st'"
    using run_interleaved [OF pc'(1) ps(1)] by blast
  moreover have "ran (ps(td \<mapsto> pc')) \<subseteq> {Reading, Ended}"
    using ps(2) pc'(2) by (auto simp: ran_def split: if_splits)
  ultimately show ?case
    by blast
next
  case (signal st sig)
  then show ?case
    by (blast intro: interleaved.signal)
qed

end
