(* ===== verification/ConnShutdown.thy ===== *)
theory ConnShutdown
  imports ConnInvariant
begin

text \<open>
  The end of the threaded server: \<open>aesd_thrd_shutdown\<close> statement by statement in the main thread, while
  the steps of the connection threads and signals go on between its statements.
\<close>

section \<open>The main thread\<close>

text \<open>
  Where \<open>aesd_thrd_shutdown\<close> is: before \<open>close\<close>, \<open>remove\<close>, \<open>pthread_mutex_destroy\<close>, the test of the
  loop, \<open>pthread_join\<close>, \<open>SLIST_REMOVE_HEAD\<close>, the two calls of \<open>free\<close>; or at its end. The arguments are
  \<open>datap\<close> and \<open>td\<close>.
\<close>

datatype exit_pc =
    XClose
  | XRemove
  | XDestroy
  | XEmpty
  | XJoin addr addr
  | XUnlink addr addr
  | XFreeTd addr addr
  | XFree addr
  | XDone

datatype 'd exit_result = ExitUndefined | ExitWaits | ExitTo exit_pc "'d server"

text \<open>
  To destroy a lock that is held or not initialised is undefined; \<open>pthread_join\<close> waits until the
  thread has returned, and to join a thread that has no place is undefined.
\<close>

fun exit_step :: "places \<Rightarrow> exit_pc \<Rightarrow> 'd server \<Rightarrow> 'd exit_result" where
  "exit_step ps XClose st = ExitTo XRemove (st\<lparr>listening := False\<rparr>)"
| "exit_step ps XRemove st = ExitTo XDestroy (st\<lparr>log_path := False\<rparr>)"
| "exit_step ps XDestroy st =
     (if lock_alive st \<and> \<not> write_lock st then ExitTo XEmpty (st\<lparr>lock_alive := False\<rparr>) else ExitUndefined)"
| "exit_step ps XEmpty st =
     (if SLIST_EMPTY (thrd_head st) then ExitTo XDone st
      else case SLIST_FIRST (thrd_head st) of
        None \<Rightarrow> ExitUndefined
      | Some datap \<Rightarrow>
          (case items st datap of
             None \<Rightarrow> ExitUndefined
           | Some n \<Rightarrow> if tds st (selm n) = None then ExitUndefined else ExitTo (XJoin datap (selm n)) st))"
| "exit_step ps (XJoin datap td) st =
     (case ps td of
        None \<Rightarrow> ExitUndefined
      | Some pc \<Rightarrow> if pc = Ended then ExitTo (XUnlink datap td) st else ExitWaits)"
| "exit_step ps (XUnlink datap td) st =
     (case SLIST_REMOVE_HEAD (thrd_head st) (items st) of
        None \<Rightarrow> ExitUndefined
      | Some head \<Rightarrow> ExitTo (XFreeTd datap td) (st\<lparr>thrd_head := head\<rparr>))"
| "exit_step ps (XFreeTd datap td) st =
     (case free_td td st of None \<Rightarrow> ExitUndefined | Some st \<Rightarrow> ExitTo (XFree datap) st)"
| "exit_step ps (XFree datap) st =
     (case free_item datap st of None \<Rightarrow> ExitUndefined | Some st \<Rightarrow> ExitTo XEmpty st)"
| "exit_step ps XDone st = ExitWaits"

text \<open>
  \<open>exiting P d tr m ps st\<close>: an interleaved server has left the loop of \<open>aesd_thrd_run\<close>, its main thread
  is at \<open>m\<close>, its connection threads at \<open>ps\<close>.
\<close>

inductive exiting :: "'d posix \<Rightarrow> 'd \<Rightarrow> net_event list \<Rightarrow> exit_pc \<Rightarrow> places \<Rightarrow> 'd server \<Rightarrow> bool" for P d where
  leave: "interleaved P d tr ps st \<Longrightarrow> run_turn t st = Some (Break, st') \<Longrightarrow> exiting P d tr XClose ps st'"
| main: "exiting P d tr m ps st \<Longrightarrow> exit_step ps m st = ExitTo m' st' \<Longrightarrow>
    exiting P d tr m' (turn_places st' ps) st'"
| thread: "exiting P d tr m ps st \<Longrightarrow> ps td = Some pc \<Longrightarrow> conn_step P td r pc st = StepTo pc' st' \<Longrightarrow>
    exiting P d (tr @ conn_events td r pc st) m (ps(td \<mapsto> pc')) st'"
| signal: "exiting P d tr m ps st \<Longrightarrow> exiting P d tr m ps (thrd_signal_handler sig st)"

section \<open>The list while it is taken apart\<close>

text \<open>The nodes \<open>I\<close> and the structs \<open>T\<close> are still allocated, but not on the list.\<close>

definition xlist :: "addr set \<Rightarrow> addr set \<Rightarrow> 'd server \<Rightarrow> addr list \<Rightarrow> bool" where
  "xlist I T st xs \<longleftrightarrow> slist (items st) (thrd_head st) xs \<and> dom (items st) = set xs \<union> I \<and> set xs \<inter> I = {} \<and>
     distinct (map (td_of st) xs) \<and> dom (tds st) = set (map (td_of st) xs) \<union> T \<and> set (map (td_of st) xs) \<inter> T = {}"

fun exit_list :: "exit_pc \<Rightarrow> 'd server \<Rightarrow> addr list \<Rightarrow> bool" where
  "exit_list (XJoin datap td) st xs \<longleftrightarrow> xlist {} {} st xs \<and> xs \<noteq> [] \<and> hd xs = datap \<and> td_of st datap = td"
| "exit_list (XUnlink datap td) st xs \<longleftrightarrow> xlist {} {} st xs \<and> xs \<noteq> [] \<and> hd xs = datap \<and> td_of st datap = td"
| "exit_list (XFreeTd datap td) st xs \<longleftrightarrow> xlist {datap} {td} st xs"
| "exit_list (XFree datap) st xs \<longleftrightarrow> xlist {datap} {} st xs"
| "exit_list XDone st xs \<longleftrightarrow> xlist {} {} st xs \<and> xs = []"
| "exit_list m st xs \<longleftrightarrow> xlist {} {} st xs"

lemma tlist_xlist: "tlist st xs \<Longrightarrow> xlist {} {} st xs"
  by (simp add: tlist_def xlist_def)

lemma xlist_same:
  "items st' = items st \<Longrightarrow> thrd_head st' = thrd_head st \<Longrightarrow> dom (tds st') = dom (tds st) \<Longrightarrow>
   xlist I T st' xs = xlist I T st xs"
  by (simp add: xlist_def td_of_def cong: map_cong)

lemma exit_list_same:
  assumes "items st' = items st" "thrd_head st' = thrd_head st" "dom (tds st') = dom (tds st)"
  shows "exit_list m st' xs = exit_list m st xs"
  using xlist_same [OF assms] assms(1) by (cases m) (simp_all add: td_of_def)

text \<open>A step of a thread leaves the list alone.\<close>

lemma conn_step_keeps_list:
  assumes "conn_step P td r pc st = StepTo pc' st'"
  shows "items st' = items st" "thrd_head st' = thrd_head st" "dom (tds st') = dom (tds st)" "lock_alive st' = lock_alive st"
proof -
  have "items st' = items st \<and> thrd_head st' = thrd_head st \<and> dom (tds st') = dom (tds st) \<and> lock_alive st' = lock_alive st"
  proof (cases "pc' = Ended")
    case True
    then have "finish_connection td st = Some st'"
      using conn_step_list [OF assms] by simp
    then obtain t where "tds st td = Some t" "st' = st\<lparr>conns := conns st - {td_fd t}, tds := (tds st)(td \<mapsto> t\<lparr>is_completed := True\<rparr>)\<rparr>"
      by (auto simp: finish_connection_def bind_eq_Some_conv)
    then show ?thesis
      by (simp add: insert_absorb domI)
  next
    case False
    then show ?thesis
      using conn_step_list [OF assms] by (simp add: list_same_def)
  qed
  then show "items st' = items st" "thrd_head st' = thrd_head st" "dom (tds st') = dom (tds st)" "lock_alive st' = lock_alive st"
    by blast+
qed

text \<open>The lock lives until it is destroyed; who has been joined has returned.\<close>

fun exit_ready :: "exit_pc \<Rightarrow> places \<Rightarrow> 'd server \<Rightarrow> bool" where
  "exit_ready (XUnlink datap td) ps st \<longleftrightarrow> \<not> lock_alive st \<and> ps td = Some Ended"
| "exit_ready (XFreeTd datap td) ps st \<longleftrightarrow> \<not> lock_alive st \<and> ps td = Some Ended"
| "exit_ready m ps st \<longleftrightarrow> (lock_alive st \<longleftrightarrow> m = XClose \<or> m = XRemove \<or> m = XDestroy)"

definition exit_inv :: "exit_pc \<Rightarrow> places \<Rightarrow> 'd server \<Rightarrow> bool" where
  "exit_inv m ps st \<longleftrightarrow> (\<exists>xs. exit_list m st xs) \<and> places_ok ps st \<and> exit_ready m ps st"

lemma exit_inv_start:
  assumes "interleaved P d tr ps st" "run_turn t st = Some (Break, st')"
  shows "exit_inv XClose ps st'"
proof -
  have "st' = st"
    using assms(2) by (auto simp: run_turn_def bind_eq_Some_conv Let_def split: if_splits)
  then show ?thesis
    using interleaved_inv [OF assms(1)] tlist_xlist by (auto simp: exit_inv_def conn_inv_def lock_ok_def)
qed

lemma exit_inv_thread:
  assumes inv: "exit_inv m ps st" and pc: "ps td = Some pc" and step: "conn_step P td r pc st = StepTo pc' st'"
  shows "exit_inv m (ps(td \<mapsto> pc')) st'"
proof -
  note keep = conn_step_keeps_list [OF step]
  have "pc \<noteq> Ended"
    using step by auto
  then have "exit_ready m (ps(td \<mapsto> pc')) st'"
    using inv keep(4) pc by (cases m) (auto simp: exit_inv_def)
  then show ?thesis
    using inv exit_list_same [OF keep(1-3)] places_step [of ps st td pc P r pc' st'] pc step by (simp add: exit_inv_def)
qed

text \<open>Places follow the structs: when the main thread frees one, its thread is gone.\<close>

lemma places_ok_dom: "places_ok ps st \<Longrightarrow> ps td = None \<longleftrightarrow> tds st td = None"
  unfolding places_ok_def by (metis option.rel_distinct(1) option.rel_distinct(2) option.exhaust)

lemma turn_places_same:
  assumes "places_ok ps st" "tds st' = tds st"
  shows "turn_places st' ps = ps"
proof
  fix td
  show "turn_places st' ps td = ps td"
    using places_ok_dom [OF assms(1), of td] assms(2) by (cases "ps td") (auto simp: turn_places_def)
qed

lemma turn_places_free:
  assumes "places_ok ps st" "tds st' = (tds st)(td := None)"
  shows "turn_places st' ps = ps(td := None)"
proof
  fix a
  show "turn_places st' ps a = (ps(td := None)) a"
    using places_ok_dom [OF assms(1), of a] assms(2) by (cases "ps a") (auto simp: turn_places_def)
qed

lemma places_ok_free: "places_ok ps st \<Longrightarrow> tds st' = (tds st)(td := None) \<Longrightarrow> places_ok (ps(td := None)) st'"
  by (simp add: places_ok_def)

lemma places_ok_same: "places_ok ps st \<Longrightarrow> tds st' = tds st \<Longrightarrow> places_ok ps st'"
  by (simp add: places_ok_def)

section \<open>Steps of the main thread\<close>

text \<open>Only \<open>pthread_mutex_destroy\<close> can go wrong, and only on a lock that is held.\<close>

lemma exit_step_cases:
  assumes inv: "exit_inv m ps st"
  obtains (bad) "exit_step ps m st = ExitUndefined" "m = XDestroy" "write_lock st"
  | (waits) datap td pc where "exit_step ps m st = ExitWaits" "m = XJoin datap td" "ps td = Some pc" "pc \<noteq> Ended"
  | (finished) "exit_step ps m st = ExitWaits" "m = XDone" "items st = Map.empty" "tds st = Map.empty"
  | (goes) m' st' where "exit_step ps m st = ExitTo m' st'" "exit_inv m' (turn_places st' ps) st'"
proof -
  obtain xs where list: "exit_list m st xs" and pl: "places_ok ps st" and ready: "exit_ready m ps st"
    using inv by (auto simp: exit_inv_def)
  show thesis
  proof (cases m)
    case XClose
    then have "exit_inv XRemove ps (st\<lparr>listening := False\<rparr>)"
      using list pl ready by (auto simp: exit_inv_def places_ok_def xlist_same [of "st\<lparr>listening := False\<rparr>" st])
    then show ?thesis
      using goes XClose turn_places_same [OF pl, of "st\<lparr>listening := False\<rparr>"] by simp
  next
    case XRemove
    then have "exit_inv XDestroy ps (st\<lparr>log_path := False\<rparr>)"
      using list pl ready by (auto simp: exit_inv_def places_ok_def xlist_same [of "st\<lparr>log_path := False\<rparr>" st])
    then show ?thesis
      using goes XRemove turn_places_same [OF pl, of "st\<lparr>log_path := False\<rparr>"] by simp
  next
    case XDestroy
    show ?thesis
    proof (cases "write_lock st")
      case True
      then show ?thesis
        using bad XDestroy by simp
    next
      case False
      have "exit_inv XEmpty ps (st\<lparr>lock_alive := False\<rparr>)"
        using XDestroy list pl ready by (auto simp: exit_inv_def places_ok_def xlist_same [of "st\<lparr>lock_alive := False\<rparr>" st])
      then show ?thesis
        using goes XDestroy False ready turn_places_same [OF pl, of "st\<lparr>lock_alive := False\<rparr>"] by simp
    qed
  next
    case XEmpty
    then have xl: "xlist {} {} st xs" and dead: "\<not> lock_alive st"
      using list ready by simp_all
    have same: "turn_places st ps = ps"
      by (rule turn_places_same [OF pl refl])
    show ?thesis
    proof (cases xs)
      case Nil
      then have "exit_inv XDone ps st"
        using xl pl dead by (auto simp: exit_inv_def)
      then show ?thesis
        using goes XEmpty Nil xl same by (simp add: xlist_def SLIST_EMPTY_def)
    next
      case (Cons x ys)
      then obtain n where n: "thrd_head st = Some x" "items st x = Some n"
        using xl by (auto simp: xlist_def)
      then have td: "td_of st x = selm n"
        by (simp add: td_of_def)
      then have "tds st (selm n) \<noteq> None"
        using xl Cons by (auto simp: xlist_def)
      moreover have "exit_inv (XJoin x (selm n)) ps st"
        using xl pl dead Cons td by (auto simp: exit_inv_def)
      ultimately show ?thesis
        using goes XEmpty n same by (simp add: SLIST_EMPTY_def SLIST_FIRST_def)
    qed
  next
    case (XJoin datap td)
    then have "tds st td \<noteq> None"
      using list by (auto simp: xlist_def neq_Nil_conv)
    then obtain pc where pc: "ps td = Some pc"
      using places_ok_dom [OF pl] by (metis not_None_eq)
    show ?thesis
    proof (cases "pc = Ended")
      case True
      then have "exit_inv (XUnlink datap td) ps st"
        using XJoin list pl ready pc by (auto simp: exit_inv_def)
      then show ?thesis
        using goes XJoin pc True turn_places_same [OF pl refl] by simp
    next
      case False
      then show ?thesis
        using waits XJoin pc by simp
    qed
  next
    case (XUnlink datap td)
    then obtain ys where ys: "xs = datap # ys" "td_of st datap = td" and xl: "xlist {} {} st xs"
      using list by (auto simp: neq_Nil_conv)
    have "slist (items st) (thrd_head st) (datap # ys)"
      using xl ys(1) by (simp only: xlist_def)
    then obtain h where h: "SLIST_REMOVE_HEAD (thrd_head st) (items st) = Some h" "slist (items st) h ys"
      using remove_head_slist by blast
    let ?st = "st\<lparr>thrd_head := h\<rparr>"
    have tdo: "td_of ?st = td_of st"
      by (simp add: td_of_def fun_eq_iff)
    have "datap \<notin> set ys"
      using slist_distinct xl ys(1) unfolding xlist_def by fastforce
    then have "xlist {datap} {td} ?st ys"
      using xl h(2) ys unfolding xlist_def tdo by auto
    then have "exit_inv (XFreeTd datap td) ps ?st"
      using XUnlink pl ready by (auto simp: exit_inv_def places_ok_def)
    then show ?thesis
      using goes XUnlink h(1) turn_places_same [OF pl, of ?st] by simp
  next
    case (XFreeTd datap td)
    then have xl: "xlist {datap} {td} st xs"
      using list by simp
    let ?st = "st\<lparr>tds := (tds st)(td := None)\<rparr>"
    have "tds st td \<noteq> None"
      using xl by (auto simp: xlist_def)
    moreover have "xlist {datap} {} ?st xs"
      using xl by (auto simp: xlist_def td_of_def cong: map_cong)
    then have "exit_inv (XFree datap) (ps(td := None)) ?st"
      using XFreeTd ready places_ok_free [OF pl, of ?st td] by (auto simp: exit_inv_def)
    ultimately show ?thesis
      using goes XFreeTd turn_places_free [OF pl, of ?st td] by (simp add: free_td_def)
  next
    case (XFree datap)
    then have xl: "xlist {datap} {} st xs"
      using list by simp
    let ?st = "st\<lparr>items := (items st)(datap := None)\<rparr>"
    have d: "items st datap \<noteq> None" "datap \<notin> set xs"
      using xl by (auto simp: xlist_def)
    then have mapeq: "map (td_of ?st) xs = map (td_of st) xs"
      by (auto simp: td_of_def)
    have "xlist {} {} ?st xs"
      using xl d unfolding xlist_def mapeq by (auto simp del: set_map)
    then have "exit_inv XEmpty ps ?st"
      using XFree ready places_ok_same [OF pl, of ?st] by (auto simp: exit_inv_def)
    then show ?thesis
      using goes XFree d turn_places_same [OF pl, of ?st] by (simp add: free_item_def)
  next
    case XDone
    then have "items st = Map.empty" "tds st = Map.empty"
      using list by (auto simp: xlist_def)
    then show ?thesis
      using finished XDone by simp
  qed
qed

text \<open>Only structs of threads that have returned are freed.\<close>

lemma exit_step_frees_ended:
  assumes "exit_inv m ps st" "exit_step ps m st = ExitTo m' st'" "ps td = Some pc" "pc \<noteq> Ended"
  shows "tds st' td = tds st td"
  using assms by (cases m) (auto simp: exit_inv_def free_td_def free_item_def split: if_splits option.splits)

lemma exit_inv_done: "exit_inv XDone ps st \<Longrightarrow> items st = Map.empty \<and> tds st = Map.empty \<and> \<not> lock_alive st"
  by (auto simp: exit_inv_def xlist_def)

lemma exit_inv_main: "exit_inv m ps st \<Longrightarrow> exit_step ps m st = ExitTo m' st' \<Longrightarrow> exit_inv m' (turn_places st' ps) st'"
  by (erule exit_step_cases) auto

lemma exiting_inv: "exiting P d tr m ps st \<Longrightarrow> exit_inv m ps st"
proof (induction rule: exiting.induct)
  case (signal tr m ps st sig)
  have same: "tds (thrd_signal_handler sig st) = tds st" "items (thrd_signal_handler sig st) = items st"
    "thrd_head (thrd_signal_handler sig st) = thrd_head st" "lock_alive (thrd_signal_handler sig st) = lock_alive st"
    by (simp_all add: thrd_signal_handler_def aesd_thrd_signal_triggered_def Let_def)
  then have "exit_ready m ps (thrd_signal_handler sig st) = exit_ready m ps st"
    by (cases m) simp_all
  then show ?case
    using signal.IH same places_ok_same [of ps st] exit_list_same [of "thrd_signal_handler sig st" st]
    by (simp add: exit_inv_def)
qed (blast intro: exit_inv_start exit_inv_main exit_inv_thread)+

section \<open>Winding down\<close>

text \<open>Statements of the main thread, and threads whose clients have closed or reset the connection.\<close>

inductive winding :: "'d posix \<Rightarrow> exit_pc \<times> places \<times> 'd server \<Rightarrow> exit_pc \<times> places \<times> 'd server \<Rightarrow> bool" for P where
  main: "exit_step ps m st = ExitTo m' st' \<Longrightarrow> winding P (m, ps, st) (m', turn_places st' ps, st')"
| gone: "ps td = Some Reading \<Longrightarrow> r = ReadError \<or> r = ReadEOF \<Longrightarrow> conn_step P td r Reading st = StepTo pc' st' \<Longrightarrow>
    winding P (m, ps, st) (m, ps(td \<mapsto> pc'), st')"

inductive_cases windingE: "winding P (m, ps, st) (m', ps', st')"

lemma winding_cases:
  assumes "winding P (m, ps, st) (m', ps', st')"
  obtains (main) "ps' = turn_places st' ps" "exit_step ps m st = ExitTo m' st'"
  | (gone) td r where "m' = m" "ps' = ps(td \<mapsto> Ended)" "ps td = Some Reading" "r = ReadError \<or> r = ReadEOF"
      "conn_step P td r Reading st = StepTo Ended st'" "finish_connection td st = Some st'"
  using assms
proof cases
  case main
  then show thesis
    by (rule that(1))
next
  case (gone td r pc')
  then show thesis
    by (intro that(2) [of td r]) auto
qed

text \<open>What is left: statements for each node and in all, and the threads that have not returned.\<close>

fun exit_rank :: "exit_pc \<Rightarrow> nat" where
  "exit_rank XClose = 9"
| "exit_rank XRemove = 8"
| "exit_rank XDestroy = 7"
| "exit_rank XEmpty = 6"
| "exit_rank (XJoin datap td) = 5"
| "exit_rank (XUnlink datap td) = 4"
| "exit_rank (XFreeTd datap td) = 3"
| "exit_rank (XFree datap) = 2"
| "exit_rank XDone = 0"

definition running :: "conn_pc \<Rightarrow> nat" where
  "running pc = (if pc = Ended then 0 else 1)"

definition exit_work :: "exit_pc \<times> places \<times> 'd server \<Rightarrow> nat" where
  "exit_work = (\<lambda>(m, ps, st). 6 * card (dom (items st)) + exit_rank m + map_sum running ps)"

lemma exit_inv_finite:
  assumes "exit_inv m ps st"
  shows "finite (dom (items st))" "finite (dom ps)"
proof -
  obtain xs where list: "exit_list m st xs" and pl: "places_ok ps st"
    using assms by (auto simp: exit_inv_def)
  have "finite (dom (items st)) \<and> finite (dom (tds st))"
    using list by (cases m) (auto simp: xlist_def)
  moreover have "dom ps \<subseteq> dom (tds st)"
    using places_ok_dom [OF pl] by (metis domIff subsetI)
  ultimately show "finite (dom (items st))" "finite (dom ps)"
    using finite_subset by blast+
qed

lemma exit_step_work:
  assumes "finite (dom (items st))" "exit_step ps m st = ExitTo m' st'"
  shows "6 * card (dom (items st')) + exit_rank m' < 6 * card (dom (items st)) + exit_rank m"
proof (cases m)
  case (XFree datap)
  then have "datap \<in> dom (items st)" "items st' = (items st)(datap := None)" "m' = XEmpty"
    using assms(2) by (auto simp: free_item_def split: if_splits)
  moreover have "card (dom (items st) - {datap}) < card (dom (items st))"
    using calculation(1) assms(1) by (simp only: card_Diff1_less)
  ultimately show ?thesis
    using XFree by simp
qed (use assms(2) in \<open>auto simp: free_td_def split: if_splits option.splits\<close>)

lemma winding_work:
  assumes inv: "exit_inv m ps st" and step: "winding P (m, ps, st) (m', ps', st')"
  shows "exit_work (m', ps', st') < exit_work (m, ps, st)"
  using step
proof (cases rule: winding_cases)
  case main
  have "map_sum running (turn_places st' ps) \<le> map_sum running ps"
  proof (rule map_sum_mono [OF exit_inv_finite(2) [OF inv]])
    fix a y
    assume a: "turn_places st' ps a = Some y"
    have "tds st' a = None \<or> tds st a \<noteq> None"
      using main(2) by (cases m) (auto simp: free_td_def free_item_def split: if_splits option.splits)
    then have "ps a \<noteq> None"
      using a inv places_ok_dom [of ps st a] by (auto simp: turn_places_def exit_inv_def split: if_splits)
    then show "running y = 0 \<or> ps a = Some y"
      using a by (auto simp: turn_places_def split: if_splits)
  qed
  then show ?thesis
    using exit_step_work [OF exit_inv_finite(1) [OF inv] main(2)] main(1) by (simp add: exit_work_def)
next
  case (gone td r)
  moreover have "items st' = items st"
    by (rule conn_step_keeps_list(1) [OF gone(5)])
  ultimately show ?thesis
    using map_sum_upd [OF exit_inv_finite(2) [OF inv] gone(3), of running Ended]
    by (simp add: exit_work_def running_def)
qed

text \<open>Nothing that winds down is stuck before the end.\<close>

definition idle :: "exit_pc \<times> places \<times> 'd server \<Rightarrow> bool" where
  "idle = (\<lambda>(m, ps, st). exit_inv m ps st \<and> ran ps \<subseteq> {Reading, Ended} \<and> \<not> write_lock st)"

lemma idle_winding:
  assumes "idle q" "winding P q q'"
  shows "idle q'"
proof -
  obtain m ps st m' ps' st' where q: "q = (m, ps, st)" "q' = (m', ps', st')"
    by (cases q; cases q')
  have inv: "exit_inv m ps st" "ran ps \<subseteq> {Reading, Ended}" "\<not> write_lock st"
    using assms(1) by (auto simp: idle_def q)
  from assms(2) [unfolded q] show ?thesis
  proof (cases rule: winding_cases)
    case main
    have "\<not> write_lock st'"
      using main(2) inv(3) by (cases m) (auto simp: free_td_def free_item_def split: if_splits option.splits)
    moreover have "ran ps' \<subseteq> {Reading, Ended}"
      using inv(2) main(1) by (fastforce simp: turn_places_def ran_def split: if_splits option.splits)
    ultimately show ?thesis
      using exit_inv_main [OF inv(1) main(2)] main(1) by (simp add: idle_def q)
  next
    case (gone td r)
    then have "\<not> write_lock st'"
      using inv(3) by (auto simp: finish_connection_def bind_eq_Some_conv)
    then show ?thesis
      using exit_inv_thread [OF inv(1) gone(3,5)] gone(1,2) inv(2) by (auto simp: idle_def q ran_def)
  qed
qed

lemma idle_moves:
  assumes "idle (m, ps, st)" "m \<noteq> XDone"
  shows "\<exists>q. winding P (m, ps, st) q"
proof -
  have inv: "exit_inv m ps st" "ran ps \<subseteq> {Reading, Ended}" "\<not> write_lock st"
    using assms(1) by (auto simp: idle_def)
  show ?thesis
    using inv(1)
  proof (cases rule: exit_step_cases)
    case (waits datap td pc)
    then have "ps td = Some Reading"
      using inv(2) by (auto simp: ran_def)
    moreover obtain t where "tds st td = Some t"
      using inv(1) waits(3) places_ok_dom [of ps st td] by (auto simp: exit_inv_def)
    then have "conn_step P td ReadEOF Reading st =
        StepTo Ended (st\<lparr>conns := conns st - {td_fd t}, tds := (tds st)(td \<mapsto> t\<lparr>is_completed := True\<rparr>)\<rparr>)"
      by (simp add: finish_connection_def)
    ultimately show ?thesis
      by (blast intro: winding.gone)
  qed (use inv(3) assms(2) winding.main in blast)+
qed

lemma idle_done:
  assumes "idle (XDone, ps, st)"
  shows "items st = Map.empty" "tds st = Map.empty" "ps = Map.empty" "\<not> lock_alive st"
proof -
  have inv: "exit_inv XDone ps st"
    using assms by (simp add: idle_def)
  then show empty: "items st = Map.empty" "tds st = Map.empty"
    by (auto simp: exit_inv_def xlist_def)
  show "ps = Map.empty"
    using inv empty(2) places_ok_dom [of ps st] by (auto simp: exit_inv_def fun_eq_iff)
  show "\<not> lock_alive st"
    using inv by (auto simp: exit_inv_def)
qed

lemma idle_windings: "(winding P)\<^sup>*\<^sup>* q q' \<Longrightarrow> idle q \<Longrightarrow> idle q'"
  by (induction rule: rtranclp_induct) (auto intro: idle_winding)

lemma idle_work: "winding P q q' \<Longrightarrow> idle q \<Longrightarrow> exit_work q' < exit_work q"
  by (cases q; cases q') (auto simp: idle_def intro: winding_work)

lemma no_endless_winding:
  assumes "idle (f 0)" "\<And>n. winding P (f n) (f (Suc n))"
  shows False
proof -
  have "idle (f n)" for n
    by (induction n) (auto intro: assms idle_winding)
  then have "(exit_work (f (Suc n)), exit_work (f n)) \<in> less_than" for n
    by (simp add: idle_work [OF assms(2)])
  then show False
    using wf_no_infinite_down_chainE [OF wf_less_than, of "\<lambda>n. exit_work (f n)"] by blast
qed

lemma stuck_done:
  assumes "idle (m, ps, st)" "\<nexists>q. winding P (m, ps, st) q"
  shows "m = XDone"
  using idle_moves [OF assms(1)] assms(2) by blast

lemma winds_down: "idle q \<Longrightarrow> \<exists>ps st. (winding P)\<^sup>*\<^sup>* q (XDone, ps, st)"
proof (induction "exit_work q" arbitrary: q rule: less_induct)
  case less
  show ?case
  proof (cases "\<exists>q'. winding P q q'")
    case True
    then obtain q' where q': "winding P q q'"
      by blast
    then show ?thesis
      using less.hyps [OF idle_work [OF q' less.prems] idle_winding [OF less.prems q']]
        converse_rtranclp_into_rtranclp by metis
  next
    case False
    then show ?thesis
      using stuck_done less.prems by (cases q) blast
  qed
qed

end
