(* ===== verification/ExitAtomic.thy ===== *)
theory ExitAtomic
  imports ConnAtomic ConnShutdown
begin

text \<open>
  \<open>aesd_thrd_shutdown\<close> of \<open>ServerThrd\<close>, which lets each thread that it joins go on at one go to the end of its
  connection, is a run of the stepwise shutdown.
\<close>

section \<open>A thread during shutdown\<close>

lemma run_exiting:
  "conn_run P td pc st pc' st' \<Longrightarrow> exiting P d tr m ps st \<Longrightarrow> ps td = Some pc \<Longrightarrow>
   \<exists>tr'. exiting P d tr' m (ps(td \<mapsto> pc')) st'"
proof (induction arbitrary: tr ps rule: conn_run.induct)
  case (here pc st)
  then have "ps(td \<mapsto> pc) = ps"
    by auto
  then show ?case
    using here by auto
next
  case (step r pc st pc1 st1 pc2 st2)
  have "\<exists>tr'. exiting P d tr' m (ps(td \<mapsto> pc1, td \<mapsto> pc2)) st2"
    by (rule step.IH [OF exiting.thread [OF step.prems step.hyps(1)]]) simp
  then show ?case
    by (simp only: fun_upd_upd)
qed

text \<open>A thread whose client hangs up comes to its end.\<close>

lemma handler_ends:
  "connection_handler P td rs st = Some st' \<Longrightarrow> hangs_up rs \<Longrightarrow> conn_run P td Reading st Ended st'"
proof (induction rs arbitrary: st)
  case (Cons r rs)
  show ?case
  proof (cases r)
    case (ReadBytes bs)
    then obtain t st1 where t: "tds st td = Some t" "length bs < MAXLINE" "process_message P (td_fd t) bs st = Some st1"
      "connection_handler P td rs st1 = Some st'"
      using Cons.prems(1) by (auto simp: bind_eq_Some_conv split: if_splits)
    have "conn_run P td Reading st1 Ended st'"
      using Cons.IH [OF t(4)] Cons.prems(2) ReadBytes by (simp add: hangs_up_def)
    then have "conn_run P td (message_pc (td_fd t) bs) st Ended st'"
      by (rule conn_run_trans [OF message_run [OF t(3)]])
    then show ?thesis
      by (rule conn_run.step [where r = "ReadBytes bs", rotated]) (use t in simp)
  next
    case ReadError
    then show ?thesis
      using Cons.prems(1) by (intro conn_run_one [where r = ReadError]) simp
  next
    case ReadEOF
    then show ?thesis
      using Cons.prems(1) by (intro conn_run_one [where r = ReadEOF]) simp
  qed
qed (simp add: hangs_up_def)

lemma handler_items: "connection_handler P td rs st = Some st' \<Longrightarrow> items st' = items st"
proof (induction rs arbitrary: st)
  case (Cons r rs)
  show ?case
  proof (cases r)
    case (ReadBytes bs)
    then obtain t :: thread_data and st1 where "process_message P (td_fd t) bs st = Some st1" "connection_handler P td rs st1 = Some st'"
      using Cons.prems by (auto simp: bind_eq_Some_conv split: if_splits)
    then show ?thesis
      using Cons.IH process_message_list_same by (metis list_same_def)
  qed (use Cons.prems in \<open>auto simp: finish_connection_def bind_eq_Some_conv\<close>)
qed simp

text \<open>Every thread that shutdown finds is between messages.\<close>

abbreviation calm :: "places \<Rightarrow> bool" where
  "calm ps \<equiv> ran ps \<subseteq> {Reading, Ended}"

lemma calm_turn: "calm ps \<Longrightarrow> calm (turn_places st ps)"
  by (fastforce simp: turn_places_def ran_def split: if_splits option.splits)

lemma calm_upd: "calm ps \<Longrightarrow> pc \<in> {Reading, Ended} \<Longrightarrow> calm (ps(td \<mapsto> pc))"
  by (auto simp: ran_def split: if_splits)

lemma join_exiting:
  assumes run: "exiting P d tr m ps st" and calm: "calm ps" and td: "tds st td \<noteq> None"
    and join: "join_thread P reads td st = Some st'" and up: "hangs_up (reads td)"
  shows "\<exists>tr' ps'. exiting P d tr' m ps' st' \<and> calm ps' \<and> ps' td = Some Ended"
proof -
  have pl: "places_ok ps st"
    using exiting_inv [OF run] by (simp add: exit_inv_def)
  obtain pc where pc: "ps td = Some pc"
    using places_ok_dom [OF pl] td by (metis option.exhaust)
  then obtain t where t: "tds st td = Some t" "is_completed t \<longleftrightarrow> pc = Ended"
    using places_okD [OF pl] by blast
  show ?thesis
  proof (cases "pc = Ended")
    case True
    then have "st' = st"
      using join t by (simp add: join_thread_def thread_runs_def)
    then show ?thesis
      using run calm pc True by blast
  next
    case False
    then have "pc = Reading"
      using calm pc by (auto simp: ran_def)
    moreover have "connection_handler P td (reads td) st = Some st'"
      using join t False by (simp add: join_thread_def thread_runs_def)
    ultimately obtain tr' where "exiting P d tr' m (ps(td \<mapsto> Ended)) st'"
      using run_exiting [OF handler_ends [OF _ up] run] pc by blast
    then show ?thesis
      using calm_upd [OF calm, of Ended td] by (intro exI [of _ tr'] exI [of _ "ps(td \<mapsto> Ended)"]) simp
  qed
qed

lemma join_items: "join_thread P reads td st = Some st' \<Longrightarrow> items st' = items st"
  unfolding join_thread_def by (auto simp: handler_items split: if_splits)

section \<open>The loop\<close>

lemma exit_move:
  assumes "exiting P d tr m ps st" "exit_step ps m st = ExitTo m' st'" "calm ps"
  shows "exiting P d tr m' (turn_places st' ps) st'" "calm (turn_places st' ps)"
  using exiting.main [OF assms(1,2)] calm_turn [OF assms(3)] by auto

lemma loop_exiting:
  assumes "shutdown_loop (join_thread P reads) st = Some st'" "exiting P d tr XEmpty ps st" "calm ps"
    and "\<And>td. hangs_up (reads td)"
  shows "\<exists>tr'. exiting P d tr' XDone Map.empty st'"
  using assms(1-3)
proof (induction "card (dom (items st))" arbitrary: st tr ps rule: less_induct)
  case less
  note inv = exiting_inv [OF less.prems(2)]
  show ?case
  proof (cases "SLIST_EMPTY (thrd_head st)")
    case True
    then have step: "exit_step ps XEmpty st = ExitTo XDone st"
      by simp
    have st': "st' = st"
      using less.prems(1) True by (subst (asm) shutdown_loop.simps) simp
    note run = exit_move(1) [OF less.prems(2) step less.prems(3)]
    have "tds st = Map.empty"
      using exit_inv_done [OF exiting_inv [OF run]] by blast
    then have "turn_places st ps = Map.empty"
      by (simp add: turn_places_def fun_eq_iff)
    then show ?thesis
      using run st' by auto
  next
    case False
    obtain x n st1 h st2 st3 where x: "SLIST_FIRST (thrd_head st) = Some x" "items st x = Some n"
      and join: "join_thread P reads (selm n) st = Some st1"
      and rest: "SLIST_REMOVE_HEAD (thrd_head st1) (items st1) = Some h" "free_td (selm n) (st1\<lparr>thrd_head := h\<rparr>) = Some st2"
        "free_item x st2 = Some st3" "shutdown_loop (join_thread P reads) st3 = Some st'"
      using less.prems(1) False by (subst (asm) shutdown_loop.simps) (auto simp: bind_eq_Some_conv Let_def)
    let ?td = "selm n"
    have "exit_step ps XEmpty st \<noteq> ExitUndefined"
      using inv by (cases rule: exit_step_cases) auto
    then have td: "tds st ?td \<noteq> None"
      using False x by (simp split: if_splits)
    then have step: "exit_step ps XEmpty st = ExitTo (XJoin x ?td) st"
      using False x by simp
    note run0 = exit_move [OF less.prems(2) step less.prems(3)]
    obtain tr1 ps1 where run1: "exiting P d tr1 (XJoin x ?td) ps1 st1" "calm ps1" "ps1 ?td = Some Ended"
      using join_exiting [OF run0 td join] assms(4) by blast
    have same: "items st1 = items st"
      using join_items [OF join] .
    have s1: "exit_step ps1 (XJoin x ?td) st1 = ExitTo (XUnlink x ?td) st1"
      using run1(3) by simp
    note run2 = exit_move [OF run1(1) s1 run1(2)]
    have s2: "exit_step (turn_places st1 ps1) (XUnlink x ?td) st1 = ExitTo (XFreeTd x ?td) (st1\<lparr>thrd_head := h\<rparr>)"
      using rest(1) by simp
    note run3 = exit_move [OF run2(1) s2 run2(2)]
    have s3: "exit_step q (XFreeTd x ?td) (st1\<lparr>thrd_head := h\<rparr>) = ExitTo (XFree x) st2" for q
      using rest(2) by simp
    note run4 = exit_move [OF run3(1) s3 run3(2)]
    have s4: "exit_step q (XFree x) st2 = ExitTo XEmpty st3" for q
      using rest(3) by simp
    note run5 = exit_move [OF run4(1) s4 run4(2)]
    have "items st3 = (items st)(x := None)"
      using rest(2,3) same by (auto simp: free_td_def free_item_def split: if_splits)
    then have "card (dom (items st3)) < card (dom (items st))"
      using exit_inv_finite(1) [OF inv] x(2) by (auto intro!: card_Diff1_less)
    from less.hyps [OF this rest(4) run5] show ?thesis .
  qed
qed

lemma shutdown_exiting:
  assumes run: "exiting P d tr XClose ps st" "calm ps"
    and shut: "aesd_thrd_shutdown (join_thread P reads) st = Some st'" "\<And>td. hangs_up (reads td)"
  shows "\<exists>tr'. exiting P d tr' XDone Map.empty st'"
proof -
  let ?st1 = "st\<lparr>listening := False\<rparr>" and ?st2 = "st\<lparr>listening := False, log_path := False\<rparr>"
  let ?st3 = "st\<lparr>listening := False, log_path := False, lock_alive := False\<rparr>"
  have free: "lock_alive st" "\<not> write_lock st" "shutdown_loop (join_thread P reads) ?st3 = Some st'"
    using shut(1) by (auto simp: aesd_thrd_shutdown_def Let_def split: if_splits)
  have s: "exit_step q XClose st = ExitTo XRemove ?st1" "exit_step q XRemove ?st1 = ExitTo XDestroy ?st2"
    "exit_step q XDestroy ?st2 = ExitTo XEmpty ?st3" for q
    using free(1,2) by simp_all
  note run1 = exit_move [OF run(1) s(1) run(2)]
  note run2 = exit_move [OF run1(1) s(2) run1(2)]
  note run3 = exit_move [OF run2(1) s(3) run2(2)]
  show ?thesis
    by (rule loop_exiting [OF free(3) run3 shut(2)])
qed

end
