(* ===== verification/ShutdownProperties.thy ===== *)
theory ShutdownProperties
  imports ConnProperties ExitAtomic
begin

text \<open>
  What the end of the threaded server keeps and where it fails, when the statements of
  \<open>aesd_thrd_shutdown\<close> mix with the steps of the connection threads; and that what runs at one go is one
  of these mixed runs.
\<close>

section \<open>Two clients at the end\<close>

lemma demo_exit:
  obtains ps st where "exiting demo_posix demo_loaded [] XClose ps st" "ps 1 = Some Reading" "ps 3 = Some Reading"
    "ran ps \<subseteq> {Reading, Ended}" "\<not> write_lock st"
proof -
  obtain ps st where st: "interleaved demo_posix demo_loaded [] ps st" "ps 1 = Some Reading" "ps 3 = Some Reading"
    "\<not> write_lock st" "ran ps \<subseteq> {Reading, Ended}"
    by (rule demo_two_threads)
  let ?st = "thrd_signal_handler SIGINT st"
  have "run_turn demo_turn ?st = Some (Break, ?st)"
    by (simp add: run_turn_def thrd_signal_handler_def aesd_thrd_signal_triggered_def Let_def)
  from exiting.leave [OF interleaved.signal [OF st(1)] this] show thesis
    using that st by (simp add: thrd_signal_handler_def aesd_thrd_signal_triggered_def Let_def)
qed

section \<open>What shutdown waits for\<close>



section \<open>The end\<close>

text \<open>
  C29 (shutdown ends): when shutdown goes on while the threads wait for their clients and no one holds the lock, and from
  then on each client only closes or resets its connection, there is no infinite run; where nothing can move the
  main thread has returned with all memory freed and no thread is left, and this end is reached.
\<close>

theorem shutdown_winds_down:
  assumes "exiting P d tr m ps st" "ran ps \<subseteq> {Reading, Ended}" "\<not> write_lock st"
  shows "(\<nexists>f. f 0 = (m, ps, st) \<and> (\<forall>n. winding P (f n) (f (Suc n)))) \<and>
    (\<forall>m' ps' st'. (winding P)\<^sup>*\<^sup>* (m, ps, st) (m', ps', st') \<longrightarrow> (\<nexists>q. winding P (m', ps', st') q) \<longrightarrow>
       m' = XDone \<and> ps' = Map.empty \<and> items st' = Map.empty \<and> tds st' = Map.empty) \<and>
    (\<exists>ps' st'. (winding P)\<^sup>*\<^sup>* (m, ps, st) (XDone, ps', st'))"
proof (intro conjI allI impI)
  have idle: "idle (m, ps, st)"
    using exiting_inv assms by (auto simp: idle_def)
  then show "\<nexists>f. f 0 = (m, ps, st) \<and> (\<forall>n. winding P (f n) (f (Suc n)))"
    using no_endless_winding by metis
  show "\<exists>ps' st'. (winding P)\<^sup>*\<^sup>* (m, ps, st) (XDone, ps', st')"
    by (rule winds_down [OF idle])
  fix m' ps' st'
  assume run: "(winding P)\<^sup>*\<^sup>* (m, ps, st) (m', ps', st')" and stuck: "\<nexists>q. winding P (m', ps', st') q"
  have idle': "idle (m', ps', st')"
    by (rule idle_windings [OF run idle])
  show m': "m' = XDone"
    by (rule stuck_done [OF idle' stuck])
  show "ps' = Map.empty" "items st' = Map.empty" "tds st' = Map.empty"
    using idle_done idle' unfolding m' by blast+
qed

theorem shutdown_winds_down_witness:
  "\<exists>ps st ps' st'. exiting demo_posix demo_loaded [] XClose ps st \<and> ps 1 = Some Reading \<and> ps 3 = Some Reading \<and>
     (winding demo_posix)\<^sup>*\<^sup>* (XClose, ps, st) (XDone, ps', st')"
proof -
  obtain ps st where st: "exiting demo_posix demo_loaded [] XClose ps st" "ps 1 = Some Reading" "ps 3 = Some Reading"
    "ran ps \<subseteq> {Reading, Ended}" "\<not> write_lock st"
    by (rule demo_exit)
  then show ?thesis
    using shutdown_winds_down [OF st(1,4,5)] by blast
qed

section \<open>A message during shutdown\<close>

text \<open>Once \<open>remove\<close> has run, the log cannot be opened any more.\<close>

lemma exiting_log: "exiting P d tr m ps st \<Longrightarrow> m = XClose \<or> m = XRemove \<or> \<not> log_path st"
proof (induction rule: exiting.induct)
  case (main tr m ps st m' st')
  then show ?case
    by (cases m) (auto simp: free_td_def free_item_def split: if_splits option.splits)
next
  case (thread tr m ps st td pc r pc' st')
  then show ?case
    using conn_step_files [OF thread.hyps(3)] by auto
qed (auto simp: thrd_signal_handler_def aesd_thrd_signal_triggered_def Let_def)

text \<open>
  C30 (a late message): a client that sends a plain message after \<open>remove\<close> breaks the shutdown. Before the lock is
  destroyed, its thread takes the lock, fails to open the log and returns to \<open>read\<close> with the lock held, so that
  the main thread destroys a held lock; afterwards its thread locks the destroyed lock. Both are undefined.
\<close>

theorem late_message_breaks_shutdown:
  assumes "exiting P d tr m ps st" "m \<noteq> XClose" "m \<noteq> XRemove"
    and "ps td = Some Reading" "plain_message bs" "p_mutex_lock P = 0" "\<not> write_lock st"
  shows "if m = XDestroy
    then \<exists>st'. exiting P d (tr @ [Received td bs]) XDestroy ps st' \<and> exit_step ps XDestroy st' = ExitUndefined
    else \<exists>c. exiting P d (tr @ [Received td bs]) m (ps(td \<mapsto> InWrite c bs WLock)) st \<and>
      (\<forall>r. conn_step P td r (InWrite c bs WLock) st = StepUndefined)"
proof -
  note inv = exiting_inv [OF assms(1)]
  have log: "\<not> log_path st"
    using exiting_log [OF assms(1)] assms(2,3) by blast
  obtain t where t: "tds st td = Some t"
    using inv assms(4) places_ok_dom [of ps st td] by (auto simp: exit_inv_def)
  let ?c = "td_fd t" and ?tr = "tr @ [Received td bs]"
  have s1: "exiting P d ?tr m (ps(td \<mapsto> InWrite ?c bs WLock)) st"
    using exiting.thread [OF assms(1,4), of "ReadBytes bs" "InWrite ?c bs WLock" st] t assms(5)
    by (simp add: conn_events_def message_pc_def plain_message_def)
  show ?thesis
  proof (cases "m = XDestroy")
    case True
    then have alive: "lock_alive st"
      using inv by (simp add: exit_inv_def)
    let ?st1 = "st\<lparr>write_lock := True\<rparr>" and ?st2 = "st\<lparr>write_lock := True, log_fd := - 1\<rparr>"
    have s2: "exiting P d ?tr m (ps(td \<mapsto> InWrite ?c bs WOpen)) ?st1"
      using exiting.thread [OF s1, of td "InWrite ?c bs WLock" ReadEOF "InWrite ?c bs WOpen" ?st1] assms(6,7) alive
      by (simp add: conn_events_def lock_step_def)
    have s3: "exiting P d ?tr m (ps(td \<mapsto> InWrite ?c bs WCheck)) ?st2"
      using exiting.thread [OF s2, of td "InWrite ?c bs WOpen" ReadEOF "InWrite ?c bs WCheck" ?st2] log
      by (simp add: conn_events_def open_log_def sys_open_def Let_def)
    have "exiting P d ?tr m (ps(td \<mapsto> Reading)) ?st2"
      using exiting.thread [OF s3, of td "InWrite ?c bs WCheck" ReadEOF Reading ?st2] by (simp add: conn_events_def)
    moreover have "ps(td \<mapsto> Reading) = ps"
      using assms(4) by auto
    ultimately show ?thesis
      using True by (auto intro!: exI [of _ ?st2])
  next
    case False
    then have "\<not> lock_alive st"
      using inv assms(2,3) by (cases m) (auto simp: exit_inv_def)
    then show ?thesis
      using False s1 by (auto intro!: exI [of _ ?c] simp: lock_step_def)
  qed
qed

theorem late_message_breaks_shutdown_witness:
  "\<exists>ps st st'. exiting demo_posix demo_loaded [] XDestroy ps st \<and>
     exiting demo_posix demo_loaded [Received 1 [104, 10]] XDestroy ps st' \<and> exit_step ps XDestroy st' = ExitUndefined"
proof -
  obtain ps st where st: "exiting demo_posix demo_loaded [] XClose ps st" "ps 1 = Some Reading" "\<not> write_lock st"
    by (rule demo_exit)
  have pl: "places_ok ps st"
    using exiting_inv [OF st(1)] by (simp add: exit_inv_def)
  let ?st1 = "st\<lparr>listening := False\<rparr>" and ?st2 = "st\<lparr>listening := False, log_path := False\<rparr>"
  have s1: "exiting demo_posix demo_loaded [] XRemove ps ?st1"
    using exiting.main [OF st(1), of XRemove ?st1] turn_places_same [OF pl, of ?st1] by simp
  have s2: "exiting demo_posix demo_loaded [] XDestroy ps ?st2"
    using exiting.main [OF s1, of XDestroy ?st2] turn_places_same [OF pl, of ?st2] by simp
  have "plain_message [104, 10]"
    by (simp add: plain_message_def MAXLINE_def parse_aesdchar_ioseek_def c_string_def ioseek_prefix_bytes)
  moreover have "p_mutex_lock demo_posix = 0"
    by (simp add: driver_posix_def)
  ultimately have "\<exists>st'. exiting demo_posix demo_loaded ([] @ [Received 1 [104, 10]]) XDestroy ps st' \<and>
      exit_step ps XDestroy st' = ExitUndefined"
    using late_message_breaks_shutdown [OF s2 _ _ st(2), of "[104, 10]"] st(3) by simp
  then show ?thesis
    using s2 by (simp only: append_Nil) blast
qed

section \<open>What runs at one go\<close>



end
