(* ===== verification/PollServer.thy ===== *)
theory PollServer
  imports ScanSeek Daemon
begin

text \<open>
  The older server \<open>server/aesdsocket.c\<close>: one process, one \<open>poll\<close> over the listening socket and up
  to 255 clients, one log file that stays open with its offset. One definition per function; the
  calls to the file go through a record. \<^term>\<open>None\<close> is undefined behaviour.
\<close>

section \<open>The log file\<close>

text \<open>
  The open log file: \<open>write\<close>, \<open>read\<close> and \<open>lseek\<close> with \<open>SEEK_SET\<close> at the descriptor's offset, with
  the result, the new offset and the new state; \<open>f_net fd bs\<close> is how many bytes a client's socket
  takes. \<open>fsync\<close> changes nothing that the server can see.
\<close>

record 'd fileops =
  f_open :: "'d \<Rightarrow> int"
  f_write :: "byte list \<Rightarrow> s64 \<Rightarrow> 'd \<Rightarrow> (int \<times> s64 \<times> 'd) option"
  f_read :: "nat \<Rightarrow> s64 \<Rightarrow> 'd \<Rightarrow> (int \<times> byte list \<times> s64 \<times> 'd) option"
  f_lseek :: "s64 \<Rightarrow> s64 \<Rightarrow> 'd \<Rightarrow> (s64 \<times> s64 \<times> 'd) option"
  f_net :: "int \<Rightarrow> byte list \<Rightarrow> int"

section \<open>State\<close>

definition OPEN_MAX :: nat where
  "OPEN_MAX = 256"

definition POLL_MAXLINE :: nat where
  "POLL_MAXLINE = 4096"

definition POLL_BUFFSIZE :: nat where
  "POLL_BUFFSIZE = 8192"

text \<open>
  \<open>struct pollfd\<close>: \<open>pfd_revents\<close> says whether an event that the code looks at was reported. The
  requested events are \<open>POLLIN\<close> in every slot in use.
\<close>

record pollfd =
  pfd_fd :: int
  pfd_revents :: bool

text \<open>
  The statics of the file; then the offset of the log descriptor, the sockets that are open, what
  each client was sent, the descriptors with \<open>SO_REUSEADDR\<close>, the file behind the log path, whether
  the path exists, whether the server listens, and its process.
\<close>

record 'd poll_server =
  ps_maxi :: nat
  ps_listenfd :: int
  ps_connfd :: int
  ps_sockfd :: int
  ps_nready :: int
  ps_log_fd :: int
  ps_file_size :: u32
  ps_client :: "pollfd list"
  ps_sigint :: bool
  ps_sigterm :: bool
  ps_pos :: s64
  ps_socks :: "int set"
  ps_sent :: "int \<Rightarrow> byte list"
  ps_reuse :: "int set"
  ps_file :: 'd
  ps_path :: bool
  ps_listening :: bool
  ps_proc :: process

definition poll_static :: "'d \<Rightarrow> 'd poll_server" where
  "poll_static d =
     \<lparr>ps_maxi = 0, ps_listenfd = 0, ps_connfd = 0, ps_sockfd = 0, ps_nready = 0, ps_log_fd = - 1,
      ps_file_size = 0, ps_client = replicate OPEN_MAX \<lparr>pfd_fd = 0, pfd_revents = False\<rparr>,
      ps_sigint = False, ps_sigterm = False, ps_pos = 0, ps_socks = {}, ps_sent = (\<lambda>_. []),
      ps_reuse = {}, ps_file = d, ps_path = True, ps_listening = False, ps_proc = fresh_process\<rparr>"

section \<open>Messages\<close>

definition log_write :: "'d fileops \<Rightarrow> byte list \<Rightarrow> 'd poll_server \<Rightarrow> (int \<times> 'd poll_server) option" where
  "log_write F bs st = do {
     (r, pos, d) \<leftarrow> f_write F bs (ps_pos st) (ps_file st);
     Some (r, st\<lparr>ps_pos := pos, ps_file := d\<rparr>)
   }"

definition log_lseek :: "'d fileops \<Rightarrow> s64 \<Rightarrow> 'd poll_server \<Rightarrow> (s64 \<times> 'd poll_server) option" where
  "log_lseek F off st = do {
     (r, pos, d) \<leftarrow> f_lseek F off (ps_pos st) (ps_file st);
     Some (r, st\<lparr>ps_pos := pos, ps_file := d\<rparr>)
   }"

text \<open>
  The loop of \<open>dump_file_to_client\<close>: it reads until \<open>bytes_left\<close> is used up or a read gives
  nothing; the result of the client's write is dropped.
\<close>

partial_function (option) dump_loop :: "'d fileops \<Rightarrow> int \<Rightarrow> int \<Rightarrow> 'd poll_server \<Rightarrow> 'd poll_server option" where
  "dump_loop F fd_client bytes_left st =
     (if bytes_left > 0 then do {
        (rn, bs, pos, d) \<leftarrow> f_read F POLL_BUFFSIZE (ps_pos st) (ps_file st);
        let st = st\<lparr>ps_pos := pos, ps_file := d\<rparr>;
        if rn > 0 then do {
          let chunk = take (nat rn) (bs @ replicate (POLL_BUFFSIZE - length bs) 0);
          let n = f_net F fd_client chunk;
          let st = (if n > 0
                    then st\<lparr>ps_sent := (ps_sent st)(fd_client := ps_sent st fd_client @ take (nat n) chunk)\<rparr>
                    else st);
          dump_loop F fd_client (bytes_left - rn) st
        }
        else Some st
      }
      else Some st)"

text \<open>\<open>int rc = lseek(...)\<close> keeps the low 32 bits of the new offset.\<close>

definition poll_dump :: "'d fileops \<Rightarrow> int \<Rightarrow> 'd poll_server \<Rightarrow> 'd poll_server option" where
  "poll_dump F fd_client st = do {
     (r, st) \<leftarrow> log_lseek F 0 st;
     if sint (ucast r :: u32) < 0 then Some st
     else do {
       st \<leftarrow> dump_loop F fd_client (sint (ps_file_size st)) st;
       (_, st) \<leftarrow> log_lseek F 0 st;
       (_, st) \<leftarrow> log_lseek F (scast (ps_file_size st)) st;
       Some st
     }
   }"

definition add_size :: "nat \<Rightarrow> 'd poll_server \<Rightarrow> 'd poll_server option" where
  "add_size n st = do {
     assert_c (sint (ps_file_size st) + int n < 2 ^ 31);
     Some (st\<lparr>ps_file_size := ps_file_size st + word_of_nat n\<rparr>)
   }"

text \<open>The position of the first newline that \<open>strchr\<close> sees.\<close>

definition newline_pos :: "byte list \<Rightarrow> nat option" where
  "newline_pos bs = (if strchr_newline bs then Some (length (takeWhile (\<lambda>b. b \<noteq> newline) bs)) else None)"

lemma newline_pos_less: "newline_pos bs = Some p \<Longrightarrow> p < length bs"
proof -
  assume "newline_pos bs = Some p"
  then have n: "newline \<in> set bs" and p: "p = length (takeWhile (\<lambda>b. b \<noteq> newline) bs)"
    by (auto simp: newline_pos_def strchr_newline_def c_string_def dest: set_takeWhileD split: if_splits)
  have "dropWhile (\<lambda>b. b \<noteq> newline) bs \<noteq> []"
    using n by (simp add: dropWhile_eq_Nil_conv)
  then have "0 < length (dropWhile (\<lambda>b. b \<noteq> newline) bs)"
    by simp
  moreover have "length (takeWhile (\<lambda>b. b \<noteq> newline) bs @ dropWhile (\<lambda>b. b \<noteq> newline) bs) = length bs"
    by (simp only: takeWhile_dropWhile_id)
  ultimately show ?thesis
    unfolding p length_append by linarith
qed

text \<open>
  \<open>process_message\<close>: up to the newline and the dump, then the rest by recursion; without a newline
  everything is written and nothing is sent.
\<close>

function poll_message :: "'d fileops \<Rightarrow> int \<Rightarrow> byte list \<Rightarrow> 'd poll_server \<Rightarrow> 'd poll_server option" where
  "poll_message F clientfd buf st =
     (if length buf = 0 then Some st
      else case newline_pos buf of
        Some partial_pos \<Rightarrow> do {
          (nbytes, st) \<leftarrow> log_write F (take (partial_pos + 1) buf) st;
          if nbytes < 0 then Some st
          else do {
            st \<leftarrow> add_size (partial_pos + 1) st;
            st \<leftarrow> poll_dump F clientfd st;
            if length buf - (partial_pos + 1) > 0
            then poll_message F clientfd (drop (partial_pos + 1) buf) st
            else Some st
          }
        }
      | None \<Rightarrow> do {
          (nbytes, st) \<leftarrow> log_write F buf st;
          if nbytes < 0 then Some st else add_size (length buf) st
        })"
  by pat_completeness auto
termination
  by (relation "measure (\<lambda>(F, c, buf, st). length buf)") auto

declare poll_message.simps [simp del]

section \<open>The poll loop\<close>

text \<open>
  The results of \<open>read(sockfd, buf, MAXLINE)\<close>: an error, 0, or \<open>n > 0\<close> bytes. \<open>buf\<close> has
  \<open>MAXLINE\<close> bytes.
\<close>

datatype poll_read = PReset | PFail | PEOF | PBytes "byte list"

text \<open>
  One return of \<open>poll\<close> and what follows it: the count, whether a failure was \<open>EINTR\<close>, the reported
  events (left unchanged by a failed \<open>poll\<close>), the accepted descriptor, and the result of reading
  each client.
\<close>

record poll_turn =
  pt_nready :: int
  pt_eintr :: bool
  pt_revents :: "bool list"
  pt_connfd :: int
  pt_read :: "nat \<Rightarrow> poll_read"

text \<open>\<open>poll\<close> looks at the first \<open>maxi + 1\<close> slots and reports nothing for a negative descriptor.\<close>

definition set_revents :: "bool list \<Rightarrow> nat \<Rightarrow> pollfd list \<Rightarrow> pollfd list" where
  "set_revents rs maxi cs =
     map2 (\<lambda>i c. if i \<le> maxi then c\<lparr>pfd_revents := 0 \<le> pfd_fd c \<and> i < length rs \<and> rs ! i\<rparr> else c) [0..<length cs] cs"

text \<open>The search for a free slot from \<open>i\<close> on; \<open>OPEN_MAX\<close> when there is none.\<close>

function free_slot :: "pollfd list \<Rightarrow> nat \<Rightarrow> nat option" where
  "free_slot cs i =
     (if i < OPEN_MAX then do {
        c \<leftarrow> array_get cs i;
        if pfd_fd c < 0 then Some i else free_slot cs (i + 1)
      }
      else Some i)"
  by pat_completeness auto
termination
  by (relation "measure (\<lambda>(cs, i). OPEN_MAX - i)") auto

declare free_slot.simps [simp del]

text \<open>
  One client: \<^term>\<open>Inl\<close> leaves the \<open>for\<close> loop, \<^term>\<open>Inr\<close> goes on. \<open>buf[n] = 0\<close> is an access of
  the buffer at \<open>n\<close>.
\<close>

definition close_client :: "nat \<Rightarrow> 'd poll_server \<Rightarrow> 'd poll_server option" where
  "close_client i st = do {
     c \<leftarrow> array_get (ps_client st) i;
     cs \<leftarrow> array_set (ps_client st) i (c\<lparr>pfd_fd := - 1\<rparr>);
     Some (st\<lparr>ps_socks := ps_socks st - {ps_sockfd st}, ps_client := cs\<rparr>)
   }"

definition client_turn ::
  "'d fileops \<Rightarrow> poll_turn \<Rightarrow> nat \<Rightarrow> 'd poll_server \<Rightarrow> ('d poll_server + 'd poll_server) option" where
  "client_turn F t i st = do {
     c \<leftarrow> array_get (ps_client st) i;
     let st = st\<lparr>ps_sockfd := pfd_fd c\<rparr>;
     if ps_sockfd st < 0 then Some (Inr st)
     else if pfd_revents c then
       (if pt_read t i = PFail then Some (Inl st)
        else do {
          st \<leftarrow> (case pt_read t i of
                   PBytes bs \<Rightarrow> do {
                     assert_c (length bs < POLL_MAXLINE);
                     poll_message F (ps_sockfd st) bs st
                   }
                 | _ \<Rightarrow> close_client i st);
          let st = st\<lparr>ps_nready := ps_nready st - 1\<rparr>;
          if ps_nready st \<le> 0 then Some (Inl st) else Some (Inr st)
        })
     else Some (Inr st)
   }"

function clients_loop :: "'d fileops \<Rightarrow> poll_turn \<Rightarrow> nat \<Rightarrow> nat \<Rightarrow> 'd poll_server \<Rightarrow> 'd poll_server option" where
  "clients_loop F t maxi i st =
     (if i \<le> maxi then do {
        r \<leftarrow> client_turn F t i st;
        case r of Inl st \<Rightarrow> Some st | Inr st \<Rightarrow> clients_loop F t maxi (i + 1) st
      }
      else Some st)"
  by pat_completeness auto
termination
  by (relation "measure (\<lambda>(F, t, maxi, i, st). Suc maxi - i)") auto

declare clients_loop.simps [simp del]

datatype poll_exit = PContinue | PBreak

text \<open>The branch that accepts: \<open>PBreak\<close> when all slots are taken, else whether to \<open>continue\<close>.\<close>

definition accept_client :: "poll_turn \<Rightarrow> 'd poll_server \<Rightarrow> (poll_exit \<times> bool \<times> 'd poll_server) option" where
  "accept_client t st = do {
     let st = st\<lparr>ps_connfd := pt_connfd t,
                 ps_socks := (if pt_connfd t < 0 then ps_socks st else insert (pt_connfd t) (ps_socks st))\<rparr>;
     i \<leftarrow> free_slot (ps_client st) 1;
     if i = OPEN_MAX then Some (PBreak, False, st)
     else do {
       c \<leftarrow> array_get (ps_client st) i;
       cs \<leftarrow> array_set (ps_client st) i (c\<lparr>pfd_fd := ps_connfd st\<rparr>);
       let st = st\<lparr>ps_client := cs, ps_maxi := (if i > ps_maxi st then i else ps_maxi st),
                   ps_nready := ps_nready st - 1\<rparr>;
       Some (PContinue, ps_nready st \<le> 0, st)
     }
   }"

definition poll_turn_step :: "'d fileops \<Rightarrow> poll_turn \<Rightarrow> 'd poll_server \<Rightarrow> (poll_exit \<times> 'd poll_server) option" where
  "poll_turn_step F t st = do {
     let st = st\<lparr>ps_nready := pt_nready t,
                 ps_client := (if pt_nready t < 0 then ps_client st
                               else set_revents (pt_revents t) (ps_maxi st) (ps_client st))\<rparr>;
     if ps_sigint st then Some (PBreak, st)
     else if ps_sigterm st then Some (PBreak, st)
     else if ps_nready st = - 1 \<and> \<not> pt_eintr t then Some (PContinue, st)
     else do {
       c0 \<leftarrow> array_get (ps_client st) 0;
       (e, skip, st) \<leftarrow> (if pfd_revents c0 then accept_client t st else Some (PContinue, False, st));
       if e = PBreak then Some (PBreak, st)
       else if skip then Some (PContinue, st)
       else do {
         st \<leftarrow> clients_loop F t (ps_maxi st) 1 st;
         Some (PContinue, st)
       }
     }
   }"

text \<open>The handler of \<open>main.c\<close> passes the two signals on.\<close>

definition aesd_signal_triggered :: "int \<Rightarrow> 'd poll_server \<Rightarrow> 'd poll_server" where
  "aesd_signal_triggered sig st =
     (let st = (if sig = SIGINT then st\<lparr>ps_sigint := True\<rparr> else st)
      in if sig = SIGTERM then st\<lparr>ps_sigterm := True\<rparr> else st)"

definition signal_handler :: "int \<Rightarrow> 'd poll_server \<Rightarrow> 'd poll_server" where
  "signal_handler signo st =
     (if signo = SIGINT \<or> signo = SIGTERM then aesd_signal_triggered signo st else st)"

text \<open>
  \<open>aesd_run\<close> over a sequence of turns and signals. A signal that arrives inside a turn is not looked
  at before the next \<open>poll\<close> returns, so signals between the turns are enough. \<^term>\<open>PContinue\<close>: the
  server still runs when the sequence ends.
\<close>

datatype poll_event = Turn poll_turn | Signal int

fun aesd_run :: "'d fileops \<Rightarrow> poll_event list \<Rightarrow> 'd poll_server \<Rightarrow> (poll_exit \<times> 'd poll_server) option" where
  "aesd_run F [] st = Some (PContinue, st)"
| "aesd_run F (Signal sig # es) st = aesd_run F es (signal_handler sig st)"
| "aesd_run F (Turn t # es) st = do {
     (e, st) \<leftarrow> poll_turn_step F t st;
     if e = PBreak then Some (PBreak, st) else aesd_run F es st
   }"

section \<open>Start and shutdown\<close>

text \<open>
  \<open>aesd_initialize\<close> with the results of \<open>socket\<close> and \<open>bind\<close> and of the calls of \<open>make_daemon\<close>. The
  result of \<open>setsockopt\<close> and of \<open>listen\<close> is not looked at. \<open>SO_REUSEADDR\<close> goes to \<open>sockfd\<close>.
\<close>

definition aesd_initialize ::
  "'d fileops \<Rightarrow> bool \<Rightarrow> int \<Rightarrow> int \<Rightarrow> daemon_calls \<Rightarrow> 'd poll_server \<Rightarrow> 'd poll_server init_result" where
  "aesd_initialize F is_daemon sock rc_bind calls st =
     (let st = st\<lparr>ps_log_fd := f_open F (ps_file st), ps_pos := 0\<rparr>
      in if ps_log_fd st < 0 then InitFalse st
      else let st = st\<lparr>ps_listenfd := sock\<rparr>
      in if ps_listenfd st < 0 then InitFalse st
      else let st = st\<lparr>ps_reuse := insert (ps_sockfd st) (ps_reuse st)\<rparr>
      in if rc_bind < 0 then InitFalse st
      else case (if is_daemon then make_daemon_poll calls (ps_proc st) else Inr (ps_proc st)) of
        Inl status \<Rightarrow> InitExit status
      | Inr p \<Rightarrow> InitTrue (st\<lparr>ps_proc := p, ps_listening := True,
               ps_client := (hd (ps_client st))\<lparr>pfd_fd := ps_listenfd st\<rparr> #
                            map (\<lambda>c. c\<lparr>pfd_fd := - 1\<rparr>) (tl (ps_client st)),
               ps_maxi := 0\<rparr>))"

definition aesd_shutdown :: "'d poll_server \<Rightarrow> 'd poll_server" where
  "aesd_shutdown st = st\<lparr>ps_log_fd := - 1, ps_listening := False, ps_path := False\<rparr>"

text \<open>
  \<open>main\<close> of \<open>server/main.c\<close> with the results of the two calls of \<open>sigaction\<close>. The exit status is \<^term>\<open>None\<close> while the server runs. The state of a process that
  has exited inside \<open>make_daemon\<close> is the one it started with.
\<close>

definition poll_main ::
  "string list \<Rightarrow> int \<Rightarrow> int \<Rightarrow> 'd fileops \<Rightarrow> int \<Rightarrow> int \<Rightarrow> daemon_calls \<Rightarrow> poll_event list \<Rightarrow> 'd poll_server \<Rightarrow>
   (int option \<times> 'd poll_server) option" where
  "poll_main argv rc_int rc_term F sock rc_bind calls es st =
     (if rc_int = - 1 then Some (Some (- 1), st)
      else if rc_term = - 1 then Some (Some 1, st)
      else case aesd_initialize F (wants_daemon argv) sock rc_bind calls st of
        InitExit status \<Rightarrow> Some (Some status, st)
      | InitFalse st \<Rightarrow> Some (Some (- 1), st)
      | InitTrue st \<Rightarrow> do {
          (e, st) \<leftarrow> aesd_run F es st;
          if e = PContinue then Some (None, st) else Some (Some 0, aesd_shutdown st)
        })"

end
