(* ===== verification/PollMessages.thy ===== *)
theory PollMessages
  imports PollServer
begin

text \<open>
  The message path of the poll server: over a log file that behaves like a regular file, a message
  is appended as it is, and its client gets the whole file after each newline. The laws of the file
  are a locale; a regular file held as a byte list is its interpretation.
\<close>

section \<open>What a client is promised\<close>

text \<open>The replies to a message \<open>bs\<close> when the file holds \<open>c\<close>: the file after each newline.\<close>

fun replies :: "byte list \<Rightarrow> byte list \<Rightarrow> byte list" where
  "replies c [] = []"
| "replies c (b # bs) = (if b = newline then c @ [b] else []) @ replies (c @ [b]) bs"

lemma replies_quiet: "newline \<notin> set bs \<Longrightarrow> replies c bs = []"
  by (induction bs arbitrary: c) auto

lemma replies_append: "replies c (as @ bs) = replies c as @ replies (c @ as) bs"
  by (induction as arbitrary: c) auto

lemma replies_line: "newline \<notin> set p \<Longrightarrow> replies c (p @ newline # bs) = c @ p @ [newline] @ replies (c @ p @ [newline]) bs"
  by (simp add: replies_append replies_quiet)

section \<open>The newline that strchr finds\<close>

lemma c_string_append: "0 \<notin> set p \<Longrightarrow> c_string (p @ bs) = p @ c_string bs"
  by (induction p) (auto simp: c_string_def)

lemma c_string_Cons_newline: "c_string (newline # bs) = newline # c_string bs"
  by (simp add: c_string_def newline_def)

lemma newline_pos_None: "newline_pos bs = None \<longleftrightarrow> newline \<notin> set (c_string bs)"
  by (simp add: newline_pos_def strchr_newline_def)

text \<open>The first newline splits the message; no zero byte comes before it.\<close>

lemma newline_pos_split:
  assumes "newline_pos bs = Some n"
  obtains p rest where "bs = p @ newline # rest" "length p = n" "newline \<notin> set p" "0 \<notin> set p"
proof -
  have nl: "newline \<in> set (c_string bs)" and n: "n = length (takeWhile (\<lambda>b. b \<noteq> newline) bs)"
    using assms by (auto simp: newline_pos_def strchr_newline_def split: if_splits)
  obtain p q where pq: "c_string bs = p @ newline # q" "newline \<notin> set p"
    using split_list_first [OF nl] by blast
  have "0 \<notin> set (c_string bs)"
    by (auto simp: c_string_def dest: set_takeWhileD)
  then have z: "0 \<notin> set p"
    using pq by auto
  obtain s where "bs = c_string bs @ s"
    unfolding c_string_def by (metis takeWhile_dropWhile_id)
  then have bs: "bs = p @ newline # (q @ s)"
    using pq by simp
  have "takeWhile (\<lambda>b. b \<noteq> newline) bs = p"
    unfolding bs using pq(2) by (subst takeWhile_append2) auto
  then show thesis
    using that [OF bs _ pq(2) z] n by simp
qed

lemma newline_pos_line: "newline \<notin> set p \<Longrightarrow> 0 \<notin> set p \<Longrightarrow> newline_pos (p @ newline # rest) = Some (length p)"
proof -
  assume p: "newline \<notin> set p" "0 \<notin> set p"
  then have "takeWhile (\<lambda>b. b \<noteq> newline) (p @ newline # rest) = p"
    by (subst takeWhile_append2) auto
  then show ?thesis
    using p by (simp add: newline_pos_def strchr_newline_def c_string_append c_string_Cons_newline)
qed

section \<open>The log file\<close>

text \<open>The log, read by \<open>bytes\<close>, holds \<open>c\<close>, the descriptor is at its end and \<open>file_size\<close> is its length.\<close>

definition log_holds :: "('d \<Rightarrow> byte list) \<Rightarrow> 'd poll_server \<Rightarrow> byte list \<Rightarrow> bool" where
  "log_holds bytes st c \<longleftrightarrow> bytes (ps_file st) = c \<and> unat (ps_pos st) = length c \<and>
     unat (ps_file_size st) = length c \<and> length c < 2 ^ 31"

locale log_file =
  fixes F :: "'d fileops"
    and bytes :: "'d \<Rightarrow> byte list"
  assumes write_end: "unat pos = length (bytes d) \<Longrightarrow> length (bytes d) + length bs < 2 ^ 31 \<Longrightarrow>
      \<exists>d'. f_write F bs pos d = Some (int (length bs), pos + word_of_nat (length bs), d') \<and>
        bytes d' = bytes d @ bs"
    and read_at: "length (bytes d) < 2 ^ 31 \<Longrightarrow>
      \<exists>d'. f_read F n pos d =
          Some (int (min n (length (bytes d) - unat pos)), take n (drop (unat pos) (bytes d)),
            pos + word_of_nat (min n (length (bytes d) - unat pos)), d') \<and> bytes d' = bytes d"
    and seek_set: "0 \<le> sint off \<Longrightarrow> \<exists>d'. f_lseek F off pos d = Some (off, off, d') \<and> bytes d' = bytes d"
    and net_takes: "f_net F fd bs = int (length bs)"
begin

lemma log_lseek_set:
  assumes "0 \<le> sint off"
  shows "\<exists>d'. log_lseek F off st = Some (off, st\<lparr>ps_pos := off, ps_file := d'\<rparr>) \<and> bytes d' = bytes (ps_file st)"
  using seek_set [OF assms, of "ps_pos st" "ps_file st"] by (auto simp: log_lseek_def)

lemma dump_loop_sends:
  assumes "length (bytes (ps_file st)) < 2 ^ 31" "unat (ps_pos st) \<le> length (bytes (ps_file st))"
  shows "\<exists>pos d. dump_loop F fd (int (length (bytes (ps_file st))) - int (unat (ps_pos st))) st =
      Some (st\<lparr>ps_pos := pos, ps_file := d,
        ps_sent := (ps_sent st)(fd := ps_sent st fd @ drop (unat (ps_pos st)) (bytes (ps_file st)))\<rparr>) \<and>
      bytes d = bytes (ps_file st)"
  using assms
proof (induction "length (bytes (ps_file st)) - unat (ps_pos st)" arbitrary: st rule: less_induct)
  case less
  let ?c = "bytes (ps_file st)" and ?o = "unat (ps_pos st)"
  show ?case
  proof (cases "?o = length ?c")
    case True
    have "st = st\<lparr>ps_pos := ps_pos st, ps_file := ps_file st, ps_sent := (ps_sent st)(fd := ps_sent st fd @ [])\<rparr>"
      by simp
    then show ?thesis
      using True by (subst dump_loop.simps) (auto intro!: exI [of _ "ps_pos st"] exI [of _ "ps_file st"])
  next
    case False
    then have lt: "?o < length ?c"
      using less.prems by simp
    define j bs where "j = min POLL_BUFFSIZE (length ?c - ?o)" and "bs = take POLL_BUFFSIZE (drop ?o ?c)"
    obtain d where rd: "f_read F POLL_BUFFSIZE (ps_pos st) (ps_file st) =
        Some (int j, bs, ps_pos st + word_of_nat j, d)" and d: "bytes d = ?c"
      using read_at [OF less.prems(1), of POLL_BUFFSIZE "ps_pos st"] unfolding j_def bs_def by blast
    let ?st = "st\<lparr>ps_pos := ps_pos st + word_of_nat j, ps_file := d,
      ps_sent := (ps_sent st)(fd := ps_sent st fd @ bs)\<rparr>"
    have j: "0 < j" "length bs = j" "?o + j \<le> length ?c"
      using lt by (auto simp: POLL_BUFFSIZE_def j_def bs_def)
    have pos: "unat (ps_pos ?st) = ?o + j"
      using j(3) less.prems by (simp add: unat_plus_no_wrap unat_of_nat_small)
    have "length (bytes (ps_file ?st)) - unat (ps_pos ?st) < length ?c - ?o"
      "length (bytes (ps_file ?st)) < 2 ^ 31" "unat (ps_pos ?st) \<le> length (bytes (ps_file ?st))"
      using j lt d less.prems unfolding pos by auto
    from less.hyps [OF this]
    obtain pos' d' where ih: "dump_loop F fd (int (length ?c) - int (?o + j)) ?st =
        Some (?st\<lparr>ps_pos := pos', ps_file := d',
          ps_sent := (ps_sent ?st)(fd := ps_sent ?st fd @ drop (?o + j) ?c)\<rparr>)" and d': "bytes d' = ?c"
      unfolding pos using d by auto
    have "drop (?o + j) ?c = drop j (drop ?o ?c)"
      by (simp only: drop_drop add.commute)
    moreover have "bs = take j (drop ?o ?c)"
      using take_min_length [of POLL_BUFFSIZE "drop ?o ?c"] unfolding j_def bs_def by (simp only: length_drop)
    ultimately have "bs @ drop (?o + j) ?c = drop ?o ?c"
      by (simp only: append_take_drop_id)
    then have whole: "(ps_sent st fd @ bs) @ drop (?o + j) ?c = ps_sent st fd @ drop ?o ?c"
      by (simp only: append.assoc)
    have "dump_loop F fd (int (length ?c) - int ?o) st = dump_loop F fd (int (length ?c) - int ?o - int j) ?st"
      using lt j by (subst dump_loop.simps) (simp add: rd net_takes Let_def del: of_nat_unat)
    also have "\<dots> = Some (st\<lparr>ps_pos := pos', ps_file := d',
        ps_sent := (ps_sent st)(fd := ps_sent st fd @ drop ?o ?c)\<rparr>)"
      using ih whole by (simp add: diff_diff_eq)
    finally show ?thesis
      using d' by blast
  qed
qed

text \<open>The dump sends the whole file and leaves the descriptor at its end.\<close>

lemma poll_dump_sends:
  assumes st: "log_holds bytes st c"
  shows "\<exists>d. poll_dump F fd st =
      Some (st\<lparr>ps_file := d, ps_sent := (ps_sent st)(fd := ps_sent st fd @ c)\<rparr>) \<and> bytes d = c"
proof -
  have c: "bytes (ps_file st) = c" "unat (ps_pos st) = length c" "length c < 2 ^ 31"
    and size: "unat (ps_file_size st) = length c"
    using st by (simp_all add: log_holds_def)
  have sz: "sint (ps_file_size st) = int (length c)"
    using size c(3) by (simp add: sint_u32 del: of_nat_unat)
  have off: "scast (ps_file_size st) = (word_of_nat (length c) :: s64)"
    using sz by (simp add: scast_eq)
  have pos: "(word_of_nat (length c) :: s64) = ps_pos st"
    using c(2) word_of_nat_unat_u64 [of "ps_pos st"] by simp
  have nonneg: "0 \<le> sint (0 :: s64)" "0 \<le> sint (word_of_nat (length c) :: s64)"
    using c(2,3) unfolding pos by (simp_all add: sint_u64)
  obtain d1 where l1: "log_lseek F 0 st = Some (0, st\<lparr>ps_pos := 0, ps_file := d1\<rparr>)" and d1: "bytes d1 = c"
    using log_lseek_set [OF nonneg(1), of st] c(1) by blast
  obtain pos2 d2 where loop: "dump_loop F fd (int (length c)) (st\<lparr>ps_pos := 0, ps_file := d1\<rparr>) =
      Some (st\<lparr>ps_pos := pos2, ps_file := d2, ps_sent := (ps_sent st)(fd := ps_sent st fd @ c)\<rparr>)"
    and d2: "bytes d2 = c"
    using dump_loop_sends [of "st\<lparr>ps_pos := 0, ps_file := d1\<rparr>" fd] d1 c(3) by auto
  let ?st = "st\<lparr>ps_pos := pos2, ps_file := d2, ps_sent := (ps_sent st)(fd := ps_sent st fd @ c)\<rparr>"
  obtain d3 where l3: "log_lseek F 0 ?st = Some (0, ?st\<lparr>ps_pos := 0, ps_file := d3\<rparr>)" and d3: "bytes d3 = c"
    using log_lseek_set [OF nonneg(1), of ?st] d2 by auto
  obtain d4 where l4: "log_lseek F (ps_pos st) (?st\<lparr>ps_pos := 0, ps_file := d3\<rparr>) =
      Some (ps_pos st, ?st\<lparr>ps_pos := ps_pos st, ps_file := d4\<rparr>)" and d4: "bytes d4 = c"
    using log_lseek_set [OF nonneg(2), of "?st\<lparr>ps_pos := 0, ps_file := d3\<rparr>"] d3 pos by auto
  have "poll_dump F fd st = Some (?st\<lparr>ps_pos := ps_pos st, ps_file := d4\<rparr>)"
    using l3 l4 off pos by (simp add: poll_dump_def l1 loop sz)
  moreover have "?st\<lparr>ps_pos := ps_pos st, ps_file := d4\<rparr> =
      st\<lparr>ps_file := d4, ps_sent := (ps_sent st)(fd := ps_sent st fd @ c)\<rparr>"
    by simp
  ultimately show ?thesis
    using d4 by metis
qed

lemma log_write_appends:
  assumes st: "log_holds bytes st c" and fits: "length c + length bs < 2 ^ 31"
  obtains d where "log_write F bs st =
      Some (int (length bs), st\<lparr>ps_pos := ps_pos st + word_of_nat (length bs), ps_file := d\<rparr>)"
    "bytes d = c @ bs"
    "add_size (length bs) (st\<lparr>ps_pos := ps_pos st + word_of_nat (length bs), ps_file := d\<rparr>) =
      Some (st\<lparr>ps_pos := ps_pos st + word_of_nat (length bs), ps_file := d,
        ps_file_size := ps_file_size st + word_of_nat (length bs)\<rparr>)"
    "log_holds bytes (st\<lparr>ps_pos := ps_pos st + word_of_nat (length bs), ps_file := d,
        ps_file_size := ps_file_size st + word_of_nat (length bs)\<rparr>) (c @ bs)"
proof -
  have h: "bytes (ps_file st) = c" "unat (ps_pos st) = length c" "unat (ps_file_size st) = length c"
    using st by (simp_all add: log_holds_def)
  obtain d where d: "f_write F bs (ps_pos st) (ps_file st) =
      Some (int (length bs), ps_pos st + word_of_nat (length bs), d)" "bytes d = c @ bs"
    using write_end [of "ps_pos st" "ps_file st" bs] h fits by auto
  have "unat (ps_pos st + word_of_nat (length bs)) = length (c @ bs)"
    "unat (ps_file_size st + word_of_nat (length bs)) = length (c @ bs)"
    using h fits by (simp_all add: unat_plus_no_wrap unat_of_nat_small)
  moreover have "sint (ps_file_size st) = int (length c)"
    using h fits by (simp add: sint_u32 del: of_nat_unat)
  ultimately show thesis
    using that [of d] d fits by (auto simp: log_write_def add_size_def log_holds_def)
qed

text \<open>
  A message is appended to the log; its client is sent the file after each newline that stands
  before the first zero byte.
\<close>

lemma poll_message_feeds:
  assumes "log_holds bytes st c" "length c + length bs < 2 ^ 31"
  shows "\<exists>pos d size. poll_message F fd bs st =
      Some (st\<lparr>ps_pos := pos, ps_file := d, ps_file_size := size,
        ps_sent := (ps_sent st)(fd := ps_sent st fd @ replies c (c_string bs))\<rparr>) \<and>
      log_holds bytes (st\<lparr>ps_pos := pos, ps_file := d, ps_file_size := size,
        ps_sent := (ps_sent st)(fd := ps_sent st fd @ replies c (c_string bs))\<rparr>) (c @ bs)"
  using assms
proof (induction "length bs" arbitrary: bs c st rule: less_induct)
  case less
  consider "bs = []" | "bs \<noteq> []" "newline_pos bs = None" | n where "newline_pos bs = Some n"
    by fastforce
  then show ?case
  proof cases
    case 1
    have "poll_message F fd bs st = Some st" "c_string bs = []"
      using 1 by (simp_all add: c_string_def poll_message.simps [of F fd "[]"])
    then show ?thesis
      using less.prems(1) 1
      by (intro exI [of _ "ps_pos st"] exI [of _ "ps_file st"] exI [of _ "ps_file_size st"]) simp
  next
    case 2
    have quiet: "replies c (c_string bs) = []"
      using 2(2) by (intro replies_quiet) (simp add: newline_pos_None)
    obtain d where d: "log_write F bs st =
        Some (int (length bs), st\<lparr>ps_pos := ps_pos st + word_of_nat (length bs), ps_file := d\<rparr>)"
      "add_size (length bs) (st\<lparr>ps_pos := ps_pos st + word_of_nat (length bs), ps_file := d\<rparr>) =
        Some (st\<lparr>ps_pos := ps_pos st + word_of_nat (length bs), ps_file := d,
          ps_file_size := ps_file_size st + word_of_nat (length bs)\<rparr>)"
      "log_holds bytes (st\<lparr>ps_pos := ps_pos st + word_of_nat (length bs), ps_file := d,
          ps_file_size := ps_file_size st + word_of_nat (length bs)\<rparr>) (c @ bs)"
      using log_write_appends [OF less.prems] by blast
    have "poll_message F fd bs st = Some (st\<lparr>ps_pos := ps_pos st + word_of_nat (length bs), ps_file := d,
        ps_file_size := ps_file_size st + word_of_nat (length bs)\<rparr>)"
      using 2 by (subst poll_message.simps) (simp add: d)
    then show ?thesis
      using d(3) unfolding quiet by (auto simp: log_holds_def)
  next
    case (3 n)
    then obtain p rest where bs: "bs = p @ newline # rest" "length p = n"
      and p: "newline \<notin> set p" "0 \<notin> set p"
      by (rule newline_pos_split)
    let ?l = "p @ [newline]"
    have l: "take (n + 1) bs = ?l" "drop (n + 1) bs = rest" "length ?l = n + 1"
      using bs by simp_all
    have fits: "length c + length ?l < 2 ^ 31" "length (c @ ?l) + length rest < 2 ^ 31"
      using less.prems(2) bs by simp_all
    obtain d where d: "log_write F ?l st =
        Some (int (length ?l), st\<lparr>ps_pos := ps_pos st + word_of_nat (length ?l), ps_file := d\<rparr>)"
      "add_size (length ?l) (st\<lparr>ps_pos := ps_pos st + word_of_nat (length ?l), ps_file := d\<rparr>) =
        Some (st\<lparr>ps_pos := ps_pos st + word_of_nat (length ?l), ps_file := d,
          ps_file_size := ps_file_size st + word_of_nat (length ?l)\<rparr>)"
      "log_holds bytes (st\<lparr>ps_pos := ps_pos st + word_of_nat (length ?l), ps_file := d,
          ps_file_size := ps_file_size st + word_of_nat (length ?l)\<rparr>) (c @ ?l)"
      using log_write_appends [OF less.prems(1) fits(1)] by blast
    let ?st1 = "st\<lparr>ps_pos := ps_pos st + word_of_nat (length ?l), ps_file := d,
      ps_file_size := ps_file_size st + word_of_nat (length ?l)\<rparr>"
    obtain e where e: "poll_dump F fd ?st1 =
        Some (?st1\<lparr>ps_file := e, ps_sent := (ps_sent st)(fd := ps_sent st fd @ (c @ ?l))\<rparr>)" "bytes e = c @ ?l"
      using poll_dump_sends [OF d(3), of fd] by auto
    let ?st2 = "?st1\<lparr>ps_file := e, ps_sent := (ps_sent st)(fd := ps_sent st fd @ (c @ ?l))\<rparr>"
    have st2: "log_holds bytes ?st2 (c @ ?l)"
      using d(3) e(2) by (simp add: log_holds_def)
    have body: "poll_message F fd bs st = poll_message F fd rest ?st2"
    proof (cases "rest = []")
      case True
      then show ?thesis
        using bs 3 l d(1,2) e(1) by (subst (1 2) poll_message.simps) simp
    next
      case False
      then show ?thesis
        using bs 3 l d(1,2) e(1) by (subst poll_message.simps) simp
    qed
    have sent: "replies c (c_string bs) = (c @ ?l) @ replies (c @ ?l) (c_string rest)"
      unfolding bs(1) using p by (simp add: c_string_append replies_line c_string_Cons_newline)
    have "length rest < length bs"
      using bs by simp
    from less.hyps [OF this st2 fits(2)]
    show ?thesis
      unfolding body sent using bs(1) by auto
  qed
qed

end

section \<open>A regular file\<close>

text \<open>
  The file as its bytes. A write behind the end leaves a hole of zero bytes; a seek to a negative
  offset fails. All clients take what they are sent.
\<close>

definition regular_file :: "int \<Rightarrow> byte list fileops" where
  "regular_file fd =
     \<lparr>f_open = (\<lambda>_. fd),
      f_write = (\<lambda>bs pos d. Some (int (length bs), pos + word_of_nat (length bs),
        take (unat pos) d @ replicate (unat pos - length d) 0 @ bs @ drop (unat pos + length bs) d)),
      f_read = (\<lambda>n pos d. Some (int (min n (length d - unat pos)), take n (drop (unat pos) d),
        pos + word_of_nat (min n (length d - unat pos)), d)),
      f_lseek = (\<lambda>off pos d. if sint off < 0 then Some (- 1, pos, d) else Some (off, off, d)),
      f_net = (\<lambda>c bs. int (length bs))\<rparr>"

interpretation regular: log_file "regular_file fd" "\<lambda>d. d" for fd
  by unfold_locales (simp_all add: regular_file_def)

end
