(* ===== verification/FileBuild.thy ===== *)
theory FileBuild
  imports ServerThreads ServerMessages PollMessages
begin

text \<open>
  \<open>aesd_server_thrd.c\<close> as it is built without \<open>USE_AESD_CHAR_DEVICE\<close>: the log is the regular file
  \<open>/var/tmp/aesdsocketdata\<close>, and when \<open>poll\<close> times out while there are clients, \<open>timer_handler\<close> writes
  a time stamp to it. The rest of the file is the same in both builds.
\<close>

section \<open>The time stamp\<close>





section \<open>The timer\<close>



section \<open>The log file\<close>







section \<open>Stamps\<close>





section \<open>What the file keeps\<close>


section \<open>Messages and stamps\<close>





end
