(* ===== verification/PeerNames.thy ===== *)
theory PeerNames
  imports ServerThrd PollServer
begin

text \<open>
  \<open>log_remote_peer_name\<close> of both servers: the line that it writes to the system log about a client.
  Nothing else in the servers depends on it.
\<close>

section \<open>The library\<close>

text \<open>
  \<open>getpeername\<close>: for an open socket the address of its peer is stored into the buffer, cut off at the
  length that the caller passes; for a descriptor that is not a socket, or a negative length, it
  fails and stores nothing.
\<close>

definition getpeername :: "int set \<Rightarrow> (int \<Rightarrow> byte list) \<Rightarrow> int \<Rightarrow> u32 \<Rightarrow> byte list \<Rightarrow> byte list" where
  "getpeername socks peer fd len buf =
     (if fd \<notin> socks \<or> sint len < 0 then buf
      else let n = min (unat len) (length (peer fd)) in take n (peer fd) @ drop n buf)"

text \<open>\<open>inet_ntop\<close> with \<open>AF_INET\<close>: four bytes as decimal numbers with dots.\<close>

fun inet_ntop :: "byte list \<Rightarrow> byte list" where
  "inet_ntop [] = []"
| "inet_ntop [b] = print_u (unat b)"
| "inet_ntop (b # bs) = print_u (unat b) @ [46] @ inet_ntop bs"

text \<open>\<open>sin_addr\<close> of a \<open>struct sockaddr_in\<close>: behind the family and the port, two bytes each.\<close>

definition sin_addr :: "byte list \<Rightarrow> byte list" where
  "sin_addr sa = take 4 (drop 4 sa)"

definition peer_line :: "bool \<Rightarrow> byte list \<Rightarrow> byte list" where
  "peer_line is_open ipstr =
     map of_char (if is_open then ''> Accepted connection from '' else ''> Closed connection from '') @ ipstr @ [newline]"

section \<open>The functions\<close>

text \<open>
  The locals \<open>len\<close> and \<open>addr\<close> are not initialised: their values are arguments. The result of
  \<open>getpeername\<close> is not looked at.
\<close>

definition log_remote_peer_name ::
  "(int \<Rightarrow> byte list) \<Rightarrow> u32 \<Rightarrow> byte list \<Rightarrow> int \<Rightarrow> bool \<Rightarrow> 'd server \<Rightarrow> byte list" where
  "log_remote_peer_name peer len addr client_sock is_open st =
     (let addr = getpeername (conns st) peer client_sock len addr;
          ipstr = inet_ntop (sin_addr addr)
      in if is_open then peer_line True ipstr else peer_line False ipstr)"

definition log_remote_peer_name_poll ::
  "(int \<Rightarrow> byte list) \<Rightarrow> u32 \<Rightarrow> byte list \<Rightarrow> int \<Rightarrow> bool \<Rightarrow> 'd poll_server \<Rightarrow> byte list" where
  "log_remote_peer_name_poll peer len addr client_sock is_open st =
     (let addr = getpeername (ps_socks st) peer client_sock len addr;
          ipstr = inet_ntop (sin_addr addr)
      in if is_open then peer_line True ipstr else peer_line False ipstr)"

lemmas peer_defs = log_remote_peer_name_def log_remote_peer_name_poll_def getpeername_def sin_addr_def Let_def

section \<open>Which address the line has\<close>

lemma sin_addr_stored: "8 \<le> n \<Longrightarrow> n \<le> length p \<Longrightarrow> sin_addr (take n p @ drop n addr) = sin_addr p"
  by (auto simp: sin_addr_def drop_take min_def)

text \<open>The peer's, when the uninitialised length happens to reach behind the address.\<close>

lemma accepted_names_peer:
  assumes "c \<in> conns st" "0 \<le> sint len" "8 \<le> unat len" "8 \<le> length (peer c)"
  shows "log_remote_peer_name peer len addr c True st = peer_line True (inet_ntop (sin_addr (peer c)))"
  using assms sin_addr_stored [of "min (unat len) (length (peer c))" "peer c"]
  by (simp add: log_remote_peer_name_def getpeername_def Let_def)

text \<open>What was on the stack, when it happens to be small or negative.\<close>

lemma accepted_names_stack:
  assumes "sint len < 0 \<or> unat len \<le> 4" "length (peer c) = 16"
  shows "log_remote_peer_name peer len addr c True st = peer_line True (inet_ntop (sin_addr addr))"
proof -
  have "drop 4 (take n (peer c) @ drop n addr) = drop 4 addr" if "n \<le> 4" for n
    using that assms(2) by simp
  from this [of "min (unat len) 16"] show ?thesis
    using assms by (auto simp: peer_defs)
qed

text \<open>\<open>connection_handler\<close> has closed the socket before: always what was on the stack.\<close>

theorem closed_names_stack:
  assumes "finish_connection td st = Some st'" "tds st td = Some t"
  shows "log_remote_peer_name peer len addr (td_fd t) False st' = peer_line False (inet_ntop (sin_addr addr))"
  using assms by (auto simp: finish_connection_def peer_defs bind_eq_Some_conv)

text \<open>
  The older server asks for \<open>connfd\<close>, the client that it accepted last: if that one is still connected,
  the line about a closed connection has its address, whoever has left.
\<close>

theorem poll_closed_names_last:
  assumes "close_client i st = Some st'" "ps_connfd st \<in> ps_socks st" "ps_connfd st \<noteq> ps_sockfd st"
    and "0 \<le> sint len" "8 \<le> unat len" "8 \<le> length (peer (ps_connfd st))"
  shows "log_remote_peer_name_poll peer len addr (ps_connfd st') False st' =
    peer_line False (inet_ntop (sin_addr (peer (ps_connfd st))))"
proof -
  let ?p = "peer (ps_connfd st)"
  have st': "ps_connfd st' = ps_connfd st" "ps_socks st' = ps_socks st - {ps_sockfd st}"
    using assms(1) by (auto simp: close_client_def bind_eq_Some_conv)
  then show ?thesis
    using assms(2-6) sin_addr_stored [of "min (unat len) (length ?p)" ?p]
    by (simp add: log_remote_peer_name_poll_def getpeername_def Let_def)
qed

end
