(* ===== verification/PollTable.thy ===== *)
theory PollTable
  imports PollMessages
begin

text \<open>
  The client table of the poll server: its invariant, that every turn of the loop keeps it, and
  that a turn returns while the log has room and no read fills the buffer.
\<close>

section \<open>The invariant\<close>

text \<open>The slots in use; slot 0 is the listening socket.\<close>

definition used_slots :: "pollfd list \<Rightarrow> nat set" where
  "used_slots cs = {i. 1 \<le> i \<and> i < length cs \<and> 0 \<le> pfd_fd (cs ! i)}"

text \<open>
  The table has its size, slot 0 listens, all slots in use are among the first \<open>maxi + 1\<close>, which
  \<open>poll\<close> looks at, no two hold the same socket, and the open sockets are exactly theirs.
\<close>

definition table_ok :: "'d poll_server \<Rightarrow> bool" where
  "table_ok st \<longleftrightarrow>
     length (ps_client st) = OPEN_MAX \<and> ps_maxi st < OPEN_MAX \<and>
     pfd_fd (ps_client st ! 0) = ps_listenfd st \<and>
     (\<forall>i \<in> used_slots (ps_client st). i \<le> ps_maxi st) \<and>
     inj_on (\<lambda>i. pfd_fd (ps_client st ! i)) (used_slots (ps_client st)) \<and>
     ps_socks st = (\<lambda>i. pfd_fd (ps_client st ! i)) ` used_slots (ps_client st)"

lemma table_okD:
  assumes "table_ok st"
  shows "length (ps_client st) = OPEN_MAX" "ps_maxi st < OPEN_MAX"
    "pfd_fd (ps_client st ! 0) = ps_listenfd st"
    "i \<in> used_slots (ps_client st) \<Longrightarrow> i \<le> ps_maxi st"
    "inj_on (\<lambda>i. pfd_fd (ps_client st ! i)) (used_slots (ps_client st))"
    "ps_socks st = (\<lambda>i. pfd_fd (ps_client st ! i)) ` used_slots (ps_client st)"
  using assms by (simp_all add: table_ok_def)

section \<open>Updates of the table\<close>

lemma used_slots_close: "used_slots (cs[i := c\<lparr>pfd_fd := - 1\<rparr>]) = used_slots cs - {i}"
  by (cases "i < length cs")
    (auto simp: used_slots_def nth_list_update list_update_beyond split: if_splits)

lemma used_slots_open:
  "1 \<le> i \<Longrightarrow> i < length cs \<Longrightarrow>
   used_slots (cs[i := c\<lparr>pfd_fd := fd\<rparr>]) = (if 0 \<le> fd then insert i (used_slots cs) else used_slots cs - {i})"
  by (auto simp: used_slots_def nth_list_update split: if_splits)

lemma length_set_revents [simp]: "length (set_revents rs m cs) = length cs"
  by (simp add: set_revents_def)

lemma set_revents_fd [simp]: "i < length cs \<Longrightarrow> pfd_fd (set_revents rs m cs ! i) = pfd_fd (cs ! i)"
  by (simp add: set_revents_def)

lemma used_slots_revents [simp]: "used_slots (set_revents rs m cs) = used_slots cs"
  by (auto simp: used_slots_def)

lemma table_ok_revents:
  assumes "table_ok st"
  shows "table_ok (st\<lparr>ps_nready := n, ps_client := set_revents rs (ps_maxi st) (ps_client st)\<rparr>)"
proof -
  have in_range: "i < length (ps_client st)" if "i \<in> used_slots (ps_client st)" for i
    using that by (simp add: used_slots_def)
  have "0 < length (ps_client st)"
    using assms by (simp add: table_ok_def OPEN_MAX_def)
  moreover have "inj_on (\<lambda>i. pfd_fd (set_revents rs (ps_maxi st) (ps_client st) ! i)) (used_slots (ps_client st)) =
      inj_on (\<lambda>i. pfd_fd (ps_client st ! i)) (used_slots (ps_client st))"
    by (rule inj_on_cong) (simp add: in_range)
  moreover have "(\<lambda>i. pfd_fd (set_revents rs (ps_maxi st) (ps_client st) ! i)) ` used_slots (ps_client st) =
      (\<lambda>i. pfd_fd (ps_client st ! i)) ` used_slots (ps_client st)"
    by (rule image_cong) (simp_all add: in_range)
  ultimately show ?thesis
    using assms by (simp add: table_ok_def)
qed

text \<open>Closing the client of a slot in use.\<close>

lemma table_ok_close:
  assumes ok: "table_ok st" and i: "i \<in> used_slots (ps_client st)"
    and fd: "ps_sockfd st = pfd_fd (ps_client st ! i)"
  shows "\<exists>st'. close_client i st = Some st' \<and> table_ok st' \<and>
    ps_client st' = (ps_client st)[i := (ps_client st ! i)\<lparr>pfd_fd := - 1\<rparr>] \<and>
    ps_socks st' = ps_socks st - {pfd_fd (ps_client st ! i)}"
proof -
  note [simp] = used_slots_close
  let ?f = "\<lambda>j. pfd_fd (ps_client st ! j)"
  have r: "i < length (ps_client st)" "1 \<le> i"
    using i by (simp_all add: used_slots_def)
  let ?cs = "(ps_client st)[i := (ps_client st ! i)\<lparr>pfd_fd := - 1\<rparr>]"
  have same: "pfd_fd (?cs ! j) = ?f j" if "j \<in> used_slots (ps_client st) - {i}" for j
    using that by simp
  have "inj_on (\<lambda>j. pfd_fd (?cs ! j)) (used_slots (ps_client st) - {i}) = inj_on ?f (used_slots (ps_client st) - {i})"
    by (rule inj_on_cong) (simp add: same)
  then have inj: "inj_on (\<lambda>j. pfd_fd (?cs ! j)) (used_slots (ps_client st) - {i})"
    using table_okD(5) [OF ok] by (auto intro: inj_on_diff)
  have "(\<lambda>j. pfd_fd (?cs ! j)) ` (used_slots (ps_client st) - {i}) = ?f ` (used_slots (ps_client st) - {i})"
    by (rule image_cong) (simp_all add: same)
  also have "\<dots> = ps_socks st - {?f i}"
    using i table_okD(5) [OF ok] unfolding table_okD(6) [OF ok]
    by (subst inj_on_image_set_diff [of ?f "used_slots (ps_client st)"]) auto
  finally show ?thesis
    using r fd inj ok by (auto simp: close_client_def table_ok_def)
qed

section \<open>Accepting\<close>

lemma free_slot_spec:
  assumes "length cs = OPEN_MAX" "i \<le> OPEN_MAX"
  shows "\<exists>k. free_slot cs i = Some k \<and> i \<le> k \<and> k \<le> OPEN_MAX \<and>
    (\<forall>j. i \<le> j \<and> j < k \<longrightarrow> 0 \<le> pfd_fd (cs ! j)) \<and> (k < OPEN_MAX \<longrightarrow> pfd_fd (cs ! k) < 0)"
  using assms
proof (induction cs i rule: free_slot.induct)
  case (1 cs i)
  show ?case
  proof (cases "i < OPEN_MAX \<and> 0 \<le> pfd_fd (cs ! i)")
    case True
    then obtain k where k: "free_slot cs (i + 1) = Some k" "i + 1 \<le> k" "k \<le> OPEN_MAX"
      "\<forall>j. i + 1 \<le> j \<and> j < k \<longrightarrow> 0 \<le> pfd_fd (cs ! j)" "k < OPEN_MAX \<longrightarrow> pfd_fd (cs ! k) < 0"
      using 1 by auto
    have "0 \<le> pfd_fd (cs ! j)" if "i \<le> j" "j < k" for j
      using k(4) True that by (cases "j = i") auto
    then show ?thesis
      using k True 1(2) by (subst free_slot.simps) auto
  next
    case False
    then show ?thesis
      using 1(2,3) by (subst free_slot.simps) auto
  qed
qed

text \<open>
  With a free slot the new socket gets the first one, and the invariant is kept; without one the
  loop ends, and the accepted socket stays open outside the table.
\<close>

lemma accept_client_ok:
  assumes ok: "table_ok st" and fresh: "0 \<le> pt_connfd t \<Longrightarrow> pt_connfd t \<notin> ps_socks st"
    and free: "\<exists>i. 1 \<le> i \<and> i < OPEN_MAX \<and> pfd_fd (ps_client st ! i) < 0"
  shows "\<exists>skip st'. accept_client t st = Some (PContinue, skip, st') \<and> table_ok st' \<and>
    ps_socks st' = (if pt_connfd t < 0 then ps_socks st else insert (pt_connfd t) (ps_socks st)) \<and>
    ps_file st' = ps_file st \<and> ps_pos st' = ps_pos st \<and> ps_file_size st' = ps_file_size st \<and>
    ps_sent st' = ps_sent st"
proof -
  let ?cs = "ps_client st" and ?fd = "pt_connfd t"
  let ?f = "\<lambda>j. pfd_fd (?cs ! j)"
  have len: "length ?cs = OPEN_MAX"
    using ok by (rule table_okD)
  then obtain k where k: "free_slot ?cs 1 = Some k" "1 \<le> k" "k \<le> OPEN_MAX"
    "\<forall>j. 1 \<le> j \<and> j < k \<longrightarrow> 0 \<le> ?f j" "k < OPEN_MAX \<longrightarrow> ?f k < 0"
    using free_slot_spec [of ?cs 1] by (auto simp: OPEN_MAX_def)
  have lt: "k < OPEN_MAX"
    using free k(3,4) by (metis le_neq_implies_less not_less)
  let ?cs' = "?cs[k := (?cs ! k)\<lparr>pfd_fd := ?fd\<rparr>]"
  have notin: "k \<notin> used_slots ?cs"
    using k(5) lt by (simp add: used_slots_def)
  have used: "used_slots ?cs' = (if 0 \<le> ?fd then insert k (used_slots ?cs) else used_slots ?cs)"
    using notin k(2) lt len by (simp add: used_slots_open)
  have same: "pfd_fd (?cs' ! j) = ?f j" if "j \<in> used_slots ?cs" for j
    using that notin by (metis nth_list_update_neq)
  have at: "pfd_fd (?cs' ! k) = ?fd"
    using lt len by simp
  have img: "(\<lambda>j. pfd_fd (?cs' ! j)) ` used_slots ?cs = ps_socks st"
    unfolding table_okD(6) [OF ok] by (rule image_cong) (simp_all add: same)
  have inj: "inj_on (\<lambda>j. pfd_fd (?cs' ! j)) (used_slots ?cs)"
    using table_okD(5) [OF ok] by (subst inj_on_cong [of _ _ ?f]) (simp_all add: same)
  have inj': "inj_on (\<lambda>j. pfd_fd (?cs' ! j)) (used_slots ?cs')"
    using inj fresh img at notin unfolding used by (auto simp: inj_on_insert)
  have img': "(\<lambda>j. pfd_fd (?cs' ! j)) ` used_slots ?cs' =
      (if ?fd < 0 then ps_socks st else insert ?fd (ps_socks st))"
    using img at unfolding used by auto
  let ?m = "if k > ps_maxi st then k else ps_maxi st"
  have le: "\<forall>i \<in> used_slots ?cs'. i \<le> ?m"
    using table_okD(4) [OF ok] unfolding used by (auto simp: not_less intro: order.trans less_imp_le)
  define st' where "st' = st\<lparr>ps_connfd := ?fd,
    ps_socks := (if ?fd < 0 then ps_socks st else insert ?fd (ps_socks st)),
    ps_client := ?cs', ps_maxi := ?m, ps_nready := ps_nready st - 1\<rparr>"
  have acc: "accept_client t st = Some (PContinue, ps_nready st' \<le> 0, st')"
    using k(1) lt len by (simp add: accept_client_def st'_def Let_def)
  have "0 < k" "k < length ?cs"
    using k(2) lt len by simp_all
  then have "table_ok st'"
    using table_okD(1-3) [OF ok] lt le inj' img' by (simp add: table_ok_def st'_def)
  then show ?thesis
    using acc by (auto simp: st'_def)
qed

lemma accept_client_full:
  assumes "length (ps_client st) = OPEN_MAX" "\<forall>i. 1 \<le> i \<and> i < OPEN_MAX \<longrightarrow> 0 \<le> pfd_fd (ps_client st ! i)"
  shows "accept_client t st = Some (PBreak, False, st\<lparr>ps_connfd := pt_connfd t,
    ps_socks := (if pt_connfd t < 0 then ps_socks st else insert (pt_connfd t) (ps_socks st))\<rparr>)"
proof -
  obtain k where k: "free_slot (ps_client st) 1 = Some k" "1 \<le> k" "k \<le> OPEN_MAX"
    "k < OPEN_MAX \<longrightarrow> pfd_fd (ps_client st ! k) < 0"
    using free_slot_spec [of "ps_client st" 1] assms(1) by (auto simp: OPEN_MAX_def)
  then have "k = OPEN_MAX"
    using assms(2) by (meson le_neq_implies_less not_less)
  then show ?thesis
    using k(1) by (simp add: accept_client_def)
qed

section \<open>A turn of the loop\<close>

lemma table_ok_counters [simp]:
  "table_ok (st\<lparr>ps_sockfd := fd\<rparr>) = table_ok st"
  "table_ok (st\<lparr>ps_nready := n\<rparr>) = table_ok st"
  "table_ok (st\<lparr>ps_pos := pos, ps_file := d, ps_file_size := z, ps_sent := s\<rparr>) = table_ok st"
  by (simp_all add: table_ok_def)

text \<open>No read of the turn fills the buffer.\<close>

definition reads_fit :: "poll_turn \<Rightarrow> bool" where
  "reads_fit t \<longleftrightarrow> (\<forall>i bs. pt_read t i = PBytes bs \<longrightarrow> length bs < POLL_MAXLINE)"

text \<open>A socket that \<open>accept\<close> returns is not one that is open.\<close>

definition accepts_fresh :: "poll_turn \<Rightarrow> 'd poll_server \<Rightarrow> bool" where
  "accepts_fresh t st \<longleftrightarrow> (0 \<le> pt_connfd t \<longrightarrow> pt_connfd t \<notin> ps_socks st)"

definition has_free_slot :: "'d poll_server \<Rightarrow> bool" where
  "has_free_slot st \<longleftrightarrow> (\<exists>i. 1 \<le> i \<and> i < OPEN_MAX \<and> pfd_fd (ps_client st ! i) < 0)"

context log_file
begin

lemma log_holds_counters [simp]:
  "log_holds bytes (st\<lparr>ps_sockfd := fd\<rparr>) c = log_holds bytes st c"
  "log_holds bytes (st\<lparr>ps_nready := n\<rparr>) c = log_holds bytes st c"
  "log_holds bytes (st\<lparr>ps_nready := n, ps_client := cs\<rparr>) c = log_holds bytes st c"
  by (simp_all add: log_holds_def)

lemma client_turn_ok:
  assumes ok: "table_ok st" and i: "1 \<le> i" "i \<le> ps_maxi st" and log: "log_holds bytes st c"
    and reads: "reads_fit t" and room: "length c + POLL_MAXLINE \<le> 2 ^ 31"
  shows "\<exists>st' ms. (client_turn F t i st = Some (Inl st') \<or> client_turn F t i st = Some (Inr st')) \<and>
    table_ok st' \<and> ps_maxi st' = ps_maxi st \<and> log_holds bytes st' (c @ ms) \<and> length ms < POLL_MAXLINE"
proof -
  let ?p = "ps_client st ! i"
  let ?st = "st\<lparr>ps_sockfd := pfd_fd ?p\<rparr>"
  have len: "i < length (ps_client st)"
    using i table_okD(1,2) [OF ok] by simp
  consider "pfd_fd ?p < 0 \<or> \<not> pfd_revents ?p \<or> pt_read t i = PFail"
    | bs where "0 \<le> pfd_fd ?p" "pfd_revents ?p" "pt_read t i = PBytes bs"
    | "0 \<le> pfd_fd ?p" "pfd_revents ?p" "pt_read t i = PReset \<or> pt_read t i = PEOF"
    by (metis not_less poll_read.exhaust)
  then show ?thesis
  proof cases
    case 1
    then have "client_turn F t i st = Some (Inl ?st) \<or> client_turn F t i st = Some (Inr ?st)"
      using len by (auto simp: client_turn_def Let_def)
    then show ?thesis
      using ok log by (intro exI [of _ ?st] exI [of _ "[]"]) (simp add: POLL_MAXLINE_def)
  next
    case (2 bs)
    have small: "length bs < POLL_MAXLINE"
      using reads 2(3) by (simp add: reads_fit_def)
    then have fits: "length c + length bs < 2 ^ 31"
      using room by simp
    have "log_holds bytes ?st c"
      using log by simp
    from poll_message_feeds [OF this fits, of "pfd_fd ?p"]
    obtain pos d z s where run: "poll_message F (pfd_fd ?p) bs ?st =
        Some (?st\<lparr>ps_pos := pos, ps_file := d, ps_file_size := z, ps_sent := s\<rparr>)"
      and holds: "log_holds bytes (?st\<lparr>ps_pos := pos, ps_file := d, ps_file_size := z, ps_sent := s\<rparr>) (c @ bs)"
      by blast
    let ?st' = "?st\<lparr>ps_pos := pos, ps_file := d, ps_file_size := z, ps_sent := s\<rparr>"
    let ?st'' = "?st'\<lparr>ps_nready := ps_nready st - 1\<rparr>"
    have "client_turn F t i st = Some (Inl ?st'') \<or> client_turn F t i st = Some (Inr ?st'')"
      using 2 len run small by (simp add: client_turn_def Let_def)
    moreover have "log_holds bytes ?st'' (c @ bs)"
      using holds by (simp add: log_holds_def)
    moreover have "table_ok ?st''"
      using ok by (simp add: table_ok_def)
    ultimately show ?thesis
      using small by (intro exI [of _ ?st''] exI [of _ bs]) simp
  next
    case 3
    have "i \<in> used_slots (ps_client st)"
      using 3(1) i(1) len by (simp add: used_slots_def)
    then obtain st' where close: "close_client i ?st = Some st'" "table_ok st'"
      using table_ok_close [of ?st i] ok by auto
    let ?st' = "st'\<lparr>ps_nready := ps_nready st' - 1\<rparr>"
    have frame: "ps_maxi st' = ps_maxi st" "log_holds bytes st' c"
      using close(1) len log by (auto simp: close_client_def log_holds_def)
    have "client_turn F t i st = Some (Inl ?st') \<or> client_turn F t i st = Some (Inr ?st')"
      using 3 len close(1) by (auto simp: client_turn_def Let_def split: if_splits)
    then show ?thesis
      using close(2) frame by (intro exI [of _ ?st'] exI [of _ "[]"]) (simp add: POLL_MAXLINE_def)
  qed
qed

lemma clients_loop_ok:
  assumes "table_ok st" "1 \<le> i" "m = ps_maxi st" "log_holds bytes st c" "reads_fit t"
    "length c + (Suc m - i) * POLL_MAXLINE \<le> 2 ^ 31"
  shows "\<exists>st' ms. clients_loop F t m i st = Some st' \<and> table_ok st' \<and> log_holds bytes st' (c @ ms) \<and>
    length ms \<le> (Suc m - i) * POLL_MAXLINE"
  using assms
proof (induction "Suc m - i" arbitrary: i st c)
  case 0
  then show ?case
    by (subst clients_loop.simps) (auto intro!: exI [of _ "[]"])
next
  case (Suc n)
  have le: "i \<le> m" and n: "Suc m - i = Suc n" "Suc m - (i + 1) = n"
    using Suc.hyps(2) by simp_all
  have "length c + POLL_MAXLINE \<le> 2 ^ 31"
    using Suc.prems(6) unfolding n(1) by simp
  from client_turn_ok [OF Suc.prems(1,2) _ Suc.prems(4,5) this] le Suc.prems(3)
  obtain st1 ms where st1: "client_turn F t i st = Some (Inl st1) \<or> client_turn F t i st = Some (Inr st1)"
    "table_ok st1" "ps_maxi st1 = ps_maxi st" "log_holds bytes st1 (c @ ms)" "length ms < POLL_MAXLINE"
    by blast
  show ?case
  proof (cases "client_turn F t i st = Some (Inl st1)")
    case True
    then show ?thesis
      using st1 le n(1) by (subst clients_loop.simps) (auto intro!: exI [of _ ms])
  next
    case False
    have room: "length (c @ ms) + (Suc m - (i + 1)) * POLL_MAXLINE \<le> 2 ^ 31"
      using Suc.prems(6) st1(5) unfolding n by simp
    have "n = Suc m - (i + 1)" "1 \<le> i + 1" "m = ps_maxi st1"
      using n st1(3) Suc.prems(3) by simp_all
    from Suc.hyps(1) [OF this(1) st1(2) this(2,3) st1(4) Suc.prems(5) room]
    obtain st' ms' where "clients_loop F t m (i + 1) st1 = Some st'" "table_ok st'"
      "log_holds bytes st' (c @ ms @ ms')" "length ms' \<le> n * POLL_MAXLINE"
      unfolding n by auto
    then show ?thesis
      using False st1(1,5) le unfolding n(1)
      by (subst clients_loop.simps) (auto intro!: exI [of _ "ms @ ms'"])
  qed
qed

text \<open>The part of a turn after the guards, when there is a free slot for a client that waits.\<close>

lemma clients_turn_ok:
  assumes ok: "table_ok st" and log: "log_holds bytes st c" and reads: "reads_fit t"
    and accept: "pfd_revents (ps_client st ! 0) \<Longrightarrow>
      (0 \<le> pt_connfd t \<longrightarrow> pt_connfd t \<notin> ps_socks st) \<and>
      (\<exists>i. 1 \<le> i \<and> i < OPEN_MAX \<and> pfd_fd (ps_client st ! i) < 0)"
    and room: "length c + OPEN_MAX * POLL_MAXLINE \<le> 2 ^ 31"
  shows "\<exists>st' ms. do {
       (e, skip, st) \<leftarrow> (if pfd_revents (ps_client st ! 0) then accept_client t st
                       else Some (PContinue, False, st));
       if e = PBreak then Some (PBreak, st)
       else if skip then Some (PContinue, st)
       else do { st \<leftarrow> clients_loop F t (ps_maxi st) 1 st; Some (PContinue, st) }
     } = Some (PContinue, st') \<and> table_ok st' \<and> log_holds bytes st' (c @ ms) \<and> length ms \<le> OPEN_MAX * POLL_MAXLINE"
proof -
  obtain skip st2 where st2: "(if pfd_revents (ps_client st ! 0) then accept_client t st
      else Some (PContinue, False, st)) = Some (PContinue, skip, st2)" "table_ok st2" "log_holds bytes st2 c"
  proof (cases "pfd_revents (ps_client st ! 0)")
    case True
    then obtain skip st' where "accept_client t st = Some (PContinue, skip, st')" "table_ok st'"
      "ps_file st' = ps_file st" "ps_pos st' = ps_pos st" "ps_file_size st' = ps_file_size st"
      using accept_client_ok [OF ok] accept by metis
    then show thesis
      using that True log by (simp add: log_holds_def)
  next
    case False
    then show thesis
      using that ok log by simp
  qed
  have "Suc (ps_maxi st2) - 1 \<le> OPEN_MAX"
    using table_okD(2) [OF st2(2)] by simp
  then have bound: "(Suc (ps_maxi st2) - 1) * POLL_MAXLINE \<le> OPEN_MAX * POLL_MAXLINE"
    by (rule mult_le_mono1)
  then have "length c + (Suc (ps_maxi st2) - 1) * POLL_MAXLINE \<le> 2 ^ 31"
    using room by linarith
  from clients_loop_ok [OF st2(2) _ refl st2(3) reads this]
  obtain st3 ms where st3: "clients_loop F t (ps_maxi st2) 1 st2 = Some st3" "table_ok st3"
    "log_holds bytes st3 (c @ ms)" "length ms \<le> OPEN_MAX * POLL_MAXLINE"
    using bound by (meson le_refl le_trans)
  show ?thesis
  proof (cases skip)
    case True
    then show ?thesis
      using st2 by (auto intro!: exI [of _ "[]"])
  next
    case False
    then show ?thesis
      using st2 st3 by auto
  qed
qed

text \<open>
  A turn returns; unless a signal is pending or the table is full it goes on, keeps the table and
  only appends to the log.
\<close>

lemma poll_turn_ok:
  assumes ok: "table_ok st" and log: "log_holds bytes st c" and reads: "reads_fit t"
    and fresh: "accepts_fresh t st" and room: "length c + OPEN_MAX * POLL_MAXLINE \<le> 2 ^ 31"
  shows "\<exists>e st' ms. poll_turn_step F t st = Some (e, st') \<and>
    (e = PContinue \<longrightarrow> table_ok st' \<and> log_holds bytes st' (c @ ms) \<and> length ms \<le> OPEN_MAX * POLL_MAXLINE) \<and>
    (e = PBreak \<longrightarrow> ps_sigint st \<or> ps_sigterm st \<or> \<not> has_free_slot st)"
proof (cases "ps_sigint st \<or> ps_sigterm st")
  case True
  then show ?thesis
    by (auto simp: poll_turn_step_def Let_def)
next
  case quiet: False
  define st1 where "st1 = st\<lparr>ps_nready := pt_nready t,
    ps_client := (if pt_nready t < 0 then ps_client st
                  else set_revents (pt_revents t) (ps_maxi st) (ps_client st))\<rparr>"
  have len: "length (ps_client st) = OPEN_MAX"
    using ok by (rule table_okD)
  have ok1: "table_ok st1"
    using ok table_ok_revents [OF ok, where n = "pt_nready t" and rs = "pt_revents t"] unfolding st1_def
    by (cases "pt_nready t < 0") (simp_all add: table_ok_def)
  have log1: "log_holds bytes st1 c" and socks1: "ps_socks st1 = ps_socks st"
    using log by (simp_all add: st1_def log_holds_def)
  have slots1: "(\<exists>i. 1 \<le> i \<and> i < OPEN_MAX \<and> pfd_fd (ps_client st1 ! i) < 0) \<longleftrightarrow> has_free_slot st"
    using len by (auto simp: has_free_slot_def st1_def)
  have quiet1: "\<not> ps_sigint st1" "\<not> ps_sigterm st1"
    using quiet by (simp_all add: st1_def)
  have c0: "array_get (ps_client st1) 0 = Some (ps_client st1 ! 0)"
    using table_okD(1) [OF ok1] by (simp add: OPEN_MAX_def)
  have step: "poll_turn_step F t st =
    (if ps_nready st1 = - 1 \<and> \<not> pt_eintr t then Some (PContinue, st1)
     else do {
       (e, skip, st) \<leftarrow> (if pfd_revents (ps_client st1 ! 0) then accept_client t st1
                       else Some (PContinue, False, st1));
       if e = PBreak then Some (PBreak, st)
       else if skip then Some (PContinue, st)
       else do { st \<leftarrow> clients_loop F t (ps_maxi st) 1 st; Some (PContinue, st) }
     })"
    using quiet1 c0 unfolding poll_turn_step_def st1_def [symmetric] Let_def by simp
  show ?thesis
  proof (cases "pfd_revents (ps_client st1 ! 0) \<and> \<not> has_free_slot st")
    case True
    then have full: "\<forall>i. 1 \<le> i \<and> i < OPEN_MAX \<longrightarrow> 0 \<le> pfd_fd (ps_client st1 ! i)"
      using slots1 by (meson not_less)
    show ?thesis
      using True accept_client_full [OF table_okD(1) [OF ok1] full, of t] ok1 log1 unfolding step
      by (auto intro: exI [of _ "[]"])
  next
    case False
    then show ?thesis
      using clients_turn_ok [OF ok1 log1 reads _ room] fresh socks1 slots1 ok1 log1 unfolding step
      by (fastforce simp: accepts_fresh_def intro: exI [of _ "[]"])
  qed
qed

end

section \<open>Which slots a turn looks at\<close>

lemma set_revents_flag:
  "i < length cs \<Longrightarrow> i \<le> m \<Longrightarrow>
   pfd_revents (set_revents rs m cs ! i) \<longleftrightarrow> 0 \<le> pfd_fd (cs ! i) \<and> i < length rs \<and> rs ! i"
  by (simp add: set_revents_def)

text \<open>The loop passes over slots for which nothing was reported.\<close>

lemma clients_loop_skip:
  assumes "i \<le> k" "k \<le> m" "m < length (ps_client st)"
    and "\<And>j. i \<le> j \<Longrightarrow> j < k \<Longrightarrow> \<not> pfd_revents (ps_client st ! j)"
  shows "\<exists>x. clients_loop F t m i st = clients_loop F t m k (st\<lparr>ps_sockfd := x\<rparr>)"
  using assms
proof (induction "k - i" arbitrary: i st)
  case 0
  then have "i = k"
    by simp
  then show ?case
    by (intro exI [of _ "ps_sockfd st"]) simp
next
  case (Suc n)
  let ?st = "st\<lparr>ps_sockfd := pfd_fd (ps_client st ! i)\<rparr>"
  have i: "i < k" "i < length (ps_client st)" "\<not> pfd_revents (ps_client st ! i)"
    using Suc.hyps(2) Suc.prems by auto
  then have "client_turn F t i st = Some (Inr ?st)"
    by (simp add: client_turn_def Let_def)
  then have "clients_loop F t m i st = clients_loop F t m (i + 1) ?st"
    using i(1) Suc.prems(2) by (subst clients_loop.simps) simp
  moreover obtain x where "clients_loop F t m (i + 1) ?st = clients_loop F t m k (?st\<lparr>ps_sockfd := x\<rparr>)"
  proof -
    have "n = k - (i + 1)"
      using Suc.hyps(2) by simp
    then show thesis
      using that Suc.hyps(1) [of "i + 1" ?st] Suc.prems i(1) by auto
  qed
  ultimately show ?case
    by auto
qed

text \<open>A turn in which only slot \<open>i\<close> is ready is that client's turn.\<close>

lemma poll_turn_single:
  assumes ok: "table_ok st" and quiet: "\<not> ps_sigint st" "\<not> ps_sigterm st"
    and i: "i \<in> used_slots (ps_client st)" and n: "pt_nready t = 1"
    and rs: "i < length (pt_revents t)" "\<And>j. j < length (pt_revents t) \<Longrightarrow> pt_revents t ! j \<longleftrightarrow> j = i"
  shows "\<exists>x. poll_turn_step F t st = do {
      r \<leftarrow> client_turn F t i (st\<lparr>ps_nready := 1, ps_client := set_revents (pt_revents t) (ps_maxi st) (ps_client st),
        ps_sockfd := x\<rparr>);
      case r of Inl st \<Rightarrow> Some (PContinue, st)
      | Inr st' \<Rightarrow> do { st \<leftarrow> clients_loop F t (ps_maxi st) (i + 1) st'; Some (PContinue, st) } }"
proof -
  define st1 where "st1 = st\<lparr>ps_nready := 1, ps_client := set_revents (pt_revents t) (ps_maxi st) (ps_client st)\<rparr>"
  have len: "length (ps_client st) = OPEN_MAX" "ps_maxi st < length (ps_client st)" "0 < length (ps_client st)"
    using table_okD(1,2) [OF ok] by (simp_all add: OPEN_MAX_def)
  have im: "1 \<le> i" "i \<le> ps_maxi st"
    using i table_okD(4) [OF ok i] by (simp_all add: used_slots_def)
  have flag: "\<not> pfd_revents (ps_client st1 ! j)" if "j < i" for j
    using that im len rs(2) [of j] by (auto simp: st1_def set_revents_flag)
  then have c0: "\<not> pfd_revents (ps_client st1 ! 0)"
    using im by simp
  have "poll_turn_step F t st = do { st \<leftarrow> clients_loop F t (ps_maxi st) 1 st1; Some (PContinue, st) }"
    using quiet n c0 len by (simp add: poll_turn_step_def Let_def st1_def)
  moreover obtain x where "clients_loop F t (ps_maxi st) 1 st1 = clients_loop F t (ps_maxi st) i (st1\<lparr>ps_sockfd := x\<rparr>)"
    using clients_loop_skip [where i = 1 and k = i and m = "ps_maxi st" and st = st1 and F = F and t = t] im len flag
    by (auto simp: st1_def)
  moreover have "clients_loop F t (ps_maxi st) i s = do {
      r \<leftarrow> client_turn F t i s;
      case r of Inl st \<Rightarrow> Some st | Inr st' \<Rightarrow> clients_loop F t (ps_maxi st) (i + 1) st' }" for s
    using im by (subst clients_loop.simps) simp
  ultimately show ?thesis
    by (intro exI [of _ x])
      (auto simp: st1_def split: sum.splits Option.bind_splits)
qed

end
