(* ===== verification/PollProperties.thy ===== *)
theory PollProperties
  imports PollTable
begin

text \<open>
  Properties of the poll server, over a regular log file as a byte list
  (\<^term>\<open>regular_file\<close>, which interprets the laws of \<open>PollMessages\<close>).
\<close>

section \<open>Reachable states\<close>

lemma poll_init_table:
  assumes "aesd_initialize F is_daemon sock rc calls (poll_static d) = InitTrue st"
  shows "table_ok st" "ps_file st = d" "ps_pos st = 0" "ps_file_size st = 0" "ps_listening st"
    "ps_listenfd st = sock" "0 \<le> sock" "\<not> ps_sigint st" "\<not> ps_sigterm st" "ps_sent st = (\<lambda>_. [])"
proof -
  obtain p where st: "st = (poll_static d)\<lparr>ps_log_fd := f_open F d, ps_listenfd := sock, ps_reuse := {0},
      ps_proc := p, ps_listening := True,
      ps_client := \<lparr>pfd_fd = sock, pfd_revents = False\<rparr> #
        replicate (OPEN_MAX - 1) \<lparr>pfd_fd = - 1, pfd_revents = False\<rparr>\<rparr>" and sock: "0 \<le> sock"
    using assms by (auto simp: aesd_initialize_def poll_static_def Let_def OPEN_MAX_def not_less
        map_replicate_const numeral_eq_Suc split: if_splits sum.splits)
  have "used_slots (ps_client st) = {}"
    by (auto simp: st used_slots_def nth_Cons')
  then show "table_ok st"
    by (simp add: table_ok_def) (simp add: st poll_static_def OPEN_MAX_def)
qed (use assms in \<open>auto simp: aesd_initialize_def poll_static_def Let_def split: if_splits sum.splits\<close>)

text \<open>
  The states of a server that was started on an empty log: turns whose reads do not fill the
  buffer while the log has room, and signals.
\<close>

definition turn_fits :: "poll_turn \<Rightarrow> byte list poll_server \<Rightarrow> bool" where
  "turn_fits t st \<longleftrightarrow> reads_fit t \<and> accepts_fresh t st \<and>
     length (ps_file st) + OPEN_MAX * POLL_MAXLINE \<le> 2 ^ 31"

inductive polling :: "int \<Rightarrow> byte list poll_server \<Rightarrow> bool" for fd where
  start: "aesd_initialize (regular_file fd) is_daemon sock rc calls (poll_static []) = InitTrue st \<Longrightarrow> polling fd st"
| turn: "polling fd st \<Longrightarrow> turn_fits t st \<Longrightarrow> poll_turn_step (regular_file fd) t st = Some (PContinue, st') \<Longrightarrow>
    polling fd st'"
| signal: "polling fd st \<Longrightarrow> polling fd (signal_handler sig st)"

abbreviation file_log :: "byte list poll_server \<Rightarrow> byte list \<Rightarrow> bool" where
  "file_log \<equiv> log_holds (\<lambda>d. d)"

lemma file_log_file: "file_log st c \<Longrightarrow> ps_file st = c"
  by (simp add: log_holds_def)

lemma signal_handler_keeps:
  "table_ok (signal_handler sig st) = table_ok st" "log_holds b (signal_handler sig st) c = log_holds b st c"
  "ps_file (signal_handler sig st) = ps_file st"
  by (simp_all add: signal_handler_def aesd_signal_triggered_def Let_def table_ok_def log_holds_def)

lemma turn_fits_ok:
  assumes "table_ok st" "file_log st (ps_file st)" "turn_fits t st"
  shows "\<exists>e st' ms. poll_turn_step (regular_file fd) t st = Some (e, st') \<and>
    (e = PContinue \<longrightarrow> table_ok st' \<and> file_log st' (ps_file st @ ms)) \<and>
    (e = PBreak \<longrightarrow> ps_sigint st \<or> ps_sigterm st \<or> \<not> has_free_slot st)"
  using regular.poll_turn_ok [OF assms(1,2), of t fd] assms(3) by (auto simp: turn_fits_def)

lemma polling_ok: "polling fd st \<Longrightarrow> table_ok st \<and> file_log st (ps_file st)"
proof (induction rule: polling.induct)
  case (start is_daemon sock rc calls st)
  then show ?case
    using poll_init_table [OF start] by (simp add: log_holds_def)
next
  case (turn st t st')
  then obtain ms where "table_ok st'" "file_log st' (ps_file st @ ms)"
    using turn_fits_ok [of st t fd] by auto
  then show ?case
    using file_log_file [of st'] by simp
next
  case (signal st sig)
  then show ?case
    by (simp add: signal_handler_keeps)
qed

section \<open>The messages\<close>

text \<open>
  C19 (messages of the poll server): while the log stays below 2 GiB a message is appended to it as
  it is and its client is sent the whole file after each newline that stands before the first zero
  byte; the client table and the other clients' streams do not change.
\<close>

theorem poll_message_replies:
  assumes "ps_file st = c" "unat (ps_pos st) = length c" "unat (ps_file_size st) = length c"
    and "length c + length bs < 2 ^ 31"
  shows "\<exists>st'. poll_message (regular_file lfd) fd bs st = Some st' \<and> ps_file st' = c @ bs \<and>
    unat (ps_pos st') = length (c @ bs) \<and> unat (ps_file_size st') = length (c @ bs) \<and>
    ps_sent st' = (ps_sent st)(fd := ps_sent st fd @ replies c (c_string bs)) \<and>
    ps_client st' = ps_client st \<and> ps_socks st' = ps_socks st \<and> ps_nready st' = ps_nready st"
proof -
  have "file_log st c"
    using assms by (simp add: log_holds_def)
  from regular.poll_message_feeds [OF this assms(4), of lfd fd]
  show ?thesis
    by (auto simp: log_holds_def)
qed

theorem poll_message_replies_witness:
  "\<exists>st'. poll_message (regular_file 4) 7 [104, 10, 105, 10, 106] (poll_static []) = Some st' \<and>
     ps_file st' = [104, 10, 105, 10, 106] \<and> ps_sent st' 7 = [104, 10, 104, 10, 105, 10]"
  using poll_message_replies [of "poll_static []" "[]" "[104, 10, 105, 10, 106]" 4 7]
  by (auto simp: poll_static_def c_string_def newline_def)

section \<open>The client table\<close>


definition demo_poll :: "byte list \<Rightarrow> byte list poll_server" where
  "demo_poll d = (poll_static d)\<lparr>ps_log_fd := 4, ps_listenfd := 3, ps_reuse := {0}, ps_listening := True,
     ps_client := \<lparr>pfd_fd = 3, pfd_revents = False\<rparr> #
       map (\<lambda>c. c\<lparr>pfd_fd := - 1\<rparr>) (replicate (OPEN_MAX - 1) \<lparr>pfd_fd = 0, pfd_revents = False\<rparr>)\<rparr>"

lemma demo_poll_init: "aesd_initialize (regular_file 4) False 3 0 no_fork (poll_static d) = InitTrue (demo_poll d)"
  by (simp add: aesd_initialize_def poll_static_def demo_poll_def regular_file_def OPEN_MAX_def Let_def
      numeral_eq_Suc)

lemma demo_polling: "polling 4 (demo_poll [])"
  by (rule polling.start [OF demo_poll_init])

definition demo_accept :: poll_turn where
  "demo_accept = \<lparr>pt_nready = 1, pt_eintr = False, pt_revents = [True], pt_connfd = 7, pt_read = (\<lambda>_. PEOF)\<rparr>"

lemma demo_accept_fits: "turn_fits demo_accept (demo_poll [])"
  by (simp add: turn_fits_def reads_fit_def accepts_fresh_def demo_accept_def demo_poll_def poll_static_def
      OPEN_MAX_def POLL_MAXLINE_def)


text \<open>
  C22 (a client too many): when all 255 client slots are taken, the next connection ends the loop of
  \<open>aesd_run\<close>, and the server shuts down; the accepted socket is open and in no slot.
\<close>

theorem full_table_stops_server:
  assumes "table_ok st" "\<not> has_free_slot st" "\<not> ps_sigint st" "\<not> ps_sigterm st"
    and "0 < pt_nready t" "0 \<le> ps_listenfd st" "0 < length (pt_revents t)" "pt_revents t ! 0"
    and "0 \<le> pt_connfd t" "pt_connfd t \<notin> ps_socks st"
  shows "\<exists>st'. poll_turn_step F t st = Some (PBreak, st') \<and> pt_connfd t \<in> ps_socks st' \<and>
    (\<forall>i \<in> used_slots (ps_client st'). pfd_fd (ps_client st' ! i) \<noteq> pt_connfd t)"
proof -
  let ?cs = "set_revents (pt_revents t) (ps_maxi st) (ps_client st)"
  let ?st = "st\<lparr>ps_nready := pt_nready t, ps_client := ?cs\<rparr>"
  have len: "length ?cs = OPEN_MAX" "0 < length (ps_client st)"
    using table_okD(1) [OF assms(1)] by (simp_all add: OPEN_MAX_def)
  have c0: "pfd_revents (?cs ! 0)"
    using assms(6-8) len table_okD(3) [OF assms(1)] by (simp add: set_revents_flag)
  have "\<forall>i. 1 \<le> i \<and> i < OPEN_MAX \<longrightarrow> 0 \<le> pfd_fd (ps_client ?st ! i)"
    using assms(2) len by (auto simp: has_free_slot_def not_less)
  from accept_client_full [OF _ this, of t] len(1)
  have acc: "accept_client t ?st = Some (PBreak, False, ?st\<lparr>ps_connfd := pt_connfd t,
      ps_socks := insert (pt_connfd t) (ps_socks st)\<rparr>)"
    using assms(9) by simp
  have "pfd_fd (?cs ! i) \<noteq> pt_connfd t" if "i \<in> used_slots ?cs" for i
  proof -
    have "i \<in> used_slots (ps_client st)" "i < length (ps_client st)"
      using that by (auto simp: used_slots_def)
    then have "pfd_fd (?cs ! i) \<in> ps_socks st"
      unfolding table_okD(6) [OF assms(1)] by auto
    then show ?thesis
      using assms(10) by metis
  qed
  moreover have "poll_turn_step F t st = Some (PBreak, ?st\<lparr>ps_connfd := pt_connfd t,
      ps_socks := insert (pt_connfd t) (ps_socks st)\<rparr>)"
    using assms(3-5) len c0 acc by (simp add: poll_turn_step_def Let_def)
  ultimately show ?thesis
    by simp
qed

definition full_poll :: "byte list poll_server" where
  "full_poll = (demo_poll [])\<lparr>ps_client := \<lparr>pfd_fd = 3, pfd_revents = False\<rparr> #
       map (\<lambda>i. \<lparr>pfd_fd = int i + 10, pfd_revents = False\<rparr>) [0..<OPEN_MAX - 1],
     ps_maxi := OPEN_MAX - 1, ps_socks := (\<lambda>i. int i + 9) ` {1..<OPEN_MAX}\<rparr>"

lemma full_poll_slot:
  "i < OPEN_MAX \<Longrightarrow> pfd_fd (ps_client full_poll ! i) = (if i = 0 then 3 else int i + 9)"
  by (auto simp: full_poll_def nth_Cons')

lemma full_poll_length: "length (ps_client full_poll) = OPEN_MAX"
  by (simp add: full_poll_def OPEN_MAX_def)

lemma full_poll_used: "used_slots (ps_client full_poll) = {1..<OPEN_MAX}"
  unfolding used_slots_def full_poll_length by (auto simp: full_poll_slot)

lemma full_poll_ok: "table_ok full_poll"
proof -
  have "(\<lambda>i. pfd_fd (ps_client full_poll ! i)) ` {1..<OPEN_MAX} = (\<lambda>i. int i + 9) ` {1..<OPEN_MAX}"
    by (rule image_cong) (simp_all add: full_poll_slot)
  moreover have "inj_on (\<lambda>i. pfd_fd (ps_client full_poll ! i)) {1..<OPEN_MAX}"
    by (rule inj_onI) (simp add: full_poll_slot)
  moreover have "ps_maxi full_poll = OPEN_MAX - 1" "ps_listenfd full_poll = 3"
    "ps_socks full_poll = (\<lambda>i. int i + 9) ` {1..<OPEN_MAX}"
    by (simp_all add: full_poll_def demo_poll_def)
  moreover have "pfd_fd (ps_client full_poll ! 0) = 3" "0 < OPEN_MAX"
    by (simp_all add: full_poll_slot OPEN_MAX_def)
  ultimately show ?thesis
    unfolding table_ok_def full_poll_used full_poll_length by auto
qed

theorem full_table_stops_server_witness:
  "\<exists>st'. poll_turn_step (regular_file 4) demo_accept full_poll = Some (PBreak, st') \<and> 7 \<in> ps_socks st'"
proof -
  have "\<not> has_free_slot full_poll"
    by (auto simp: has_free_slot_def full_poll_slot)
  moreover have "\<not> ps_sigint full_poll" "\<not> ps_sigterm full_poll" "0 \<le> ps_listenfd full_poll" "7 \<notin> ps_socks full_poll"
    by (auto simp: full_poll_def demo_poll_def poll_static_def)
  moreover have "0 < pt_nready demo_accept" "0 < length (pt_revents demo_accept)" "pt_revents demo_accept ! 0"
    "pt_connfd demo_accept = 7"
    by (simp_all add: demo_accept_def)
  ultimately show ?thesis
    using full_table_stops_server [OF full_poll_ok, of demo_accept "regular_file 4"] by auto
qed









section \<open>Start and end\<close>




text \<open>
  Starting the poll server: \<open>main\<close> reaches the loop exactly when both handlers are installed,
  the log opens, \<open>socket\<close> and \<open>bind\<close> succeed and, with \<open>-d\<close>, this process is the one that both
  forks leave running; then it listens, detached if asked to be. In all other cases it exits and
  does not listen. \<open>SO_REUSEADDR\<close> is set on descriptor 0 and not on the listening socket.
\<close>

theorem poll_main_starts:
  "\<exists>r st. poll_main argv rc_int rc_term F sock rc calls [] (poll_static d) = Some (r, st) \<and>
     (r = None \<longleftrightarrow> rc_int \<noteq> - 1 \<and> rc_term \<noteq> - 1 \<and> 0 \<le> f_open F d \<and> 0 \<le> sock \<and> 0 \<le> rc \<and>
        (wants_daemon argv \<longrightarrow> c_fork1 calls = 0 \<and> 0 \<le> c_setsid calls \<and> c_fork2 calls = 0)) \<and>
     (ps_listening st \<longleftrightarrow> r = None) \<and>
     (r = None \<longrightarrow> ps_reuse st = {0} \<and> ps_listenfd st = sock \<and> std_open (ps_proc st) = (\<not> wants_daemon argv))"
proof -
  have daemon: "make_daemon_poll calls p = (if c_fork1 calls = 0 \<and> 0 \<le> c_setsid calls \<and> c_fork2 calls = 0
      then Inr (p\<lparr>session_leader := False, file_mask := 0, at_root := at_root p \<or> 0 \<le> c_chdir calls, std_open := False\<rparr>)
      else Inl (if 0 < c_fork1 calls \<or> 0 \<le> c_fork1 calls \<and> 0 \<le> c_setsid calls \<and> 0 < c_fork2 calls
                then EXIT_SUCCESS else EXIT_FAILURE))" for p
    by (cases p) (auto simp: make_daemon_poll_def Let_def)
  show ?thesis
    by (auto simp: poll_main_def aesd_initialize_def daemon poll_static_def fresh_process_def Let_def
        split: if_splits init_result.splits sum.splits)
qed

theorem poll_main_starts_witness:
  "\<exists>st. poll_main [''aesdsocket'', ''-d''] 0 0 (regular_file 4) 3 0 no_fork [] (poll_static []) = Some (None, st) \<and>
     ps_listening st \<and> ps_listenfd st \<notin> ps_reuse st"
  using poll_main_starts [of "[''aesdsocket'', ''-d'']" 0 0 "regular_file 4" 3 0 no_fork "[]"]
  by (auto simp: no_fork_def regular_file_def)

lemma aesd_run_append:
  "aesd_run F (es @ fs) st = aesd_run F es st \<bind> (\<lambda>(e, st). if e = PBreak then Some (PBreak, st) else aesd_run F fs st)"
proof (induction es arbitrary: st)
  case (Cons ev es)
  then show ?case
    by (cases ev) (auto split: Option.bind_splits)
qed simp

text \<open>
  C25 (stopping the poll server): whatever has happened before, after \<open>SIGINT\<close> or \<open>SIGTERM\<close> the next
  return of \<open>poll\<close> ends the process with status 0, without serving anyone, the log and the
  listening socket closed and the log file removed.
\<close>

theorem signal_stops_server:
  assumes "poll_main argv rc_int rc_term F sock rc calls es st = Some (None, st1)" "sig \<in> {SIGINT, SIGTERM}"
  shows "\<exists>st'. poll_main argv rc_int rc_term F sock rc calls (es @ [Signal sig, Turn t]) st = Some (Some 0, st') \<and>
    ps_sent st' = ps_sent st1 \<and> ps_file st' = ps_file st1 \<and>
    \<not> ps_listening st' \<and> \<not> ps_path st' \<and> ps_log_fd st' = - 1"
proof -
  obtain st0 where st0: "aesd_initialize F (wants_daemon argv) sock rc calls st = InitTrue st0"
    "aesd_run F es st0 = Some (PContinue, st1)" "rc_int \<noteq> - 1" "rc_term \<noteq> - 1"
    using assms(1) by (auto simp: poll_main_def split: if_splits init_result.splits Option.bind_splits)
  let ?st = "signal_handler sig st1"
  have "ps_sigint ?st \<or> ps_sigterm ?st" "ps_sent ?st = ps_sent st1" "ps_file ?st = ps_file st1"
    using assms(2) by (auto simp: signal_handler_def aesd_signal_triggered_def Let_def)
  then show ?thesis
    using st0 by (auto simp: poll_main_def aesd_run_append poll_turn_step_def aesd_shutdown_def Let_def)
qed

theorem signal_stops_server_witness:
  "\<exists>st'. poll_main [''aesdsocket''] 0 0 (regular_file 4) 3 0 no_fork [Turn demo_accept, Signal SIGTERM, Turn demo_accept]
       (poll_static []) = Some (Some 0, st') \<and> \<not> ps_listening st'"
proof -
  have "has_free_slot (demo_poll [])" "\<not> ps_sigint (demo_poll [])" "\<not> ps_sigterm (demo_poll [])"
    by (auto simp: has_free_slot_def demo_poll_def poll_static_def OPEN_MAX_def intro!: exI [of _ 1])
  then obtain st' where "poll_turn_step (regular_file 4) demo_accept (demo_poll []) = Some (PContinue, st')"
    using turn_fits_ok [OF _ _ demo_accept_fits, of 4] polling_ok [OF demo_polling] by (metis poll_exit.exhaust)
  then have "poll_main [''aesdsocket''] 0 0 (regular_file 4) 3 0 no_fork [Turn demo_accept] (poll_static []) = Some (None, st')"
    by (simp add: poll_main_def wants_daemon_def demo_poll_init)
  from signal_stops_server [OF this, of SIGTERM demo_accept] show ?thesis
    by auto
qed

end
