(* ===== verification/QueueMem.thy ===== *)
theory QueueMem
  imports Prelude
begin

text \<open>
  The memory that the other list families of \<open>slist/queue.h\<close> work on (LIST, STAILQ, TAILQ): heads
  and elements, of which only the link fields matter. A \<open>struct type **\<close> is the address of a
  "next" field: of the first-element field of a head, or of the next field of an element. The
  facts are about the functions that the fields make up, so that the families share them.
\<close>

section \<open>Heads, elements, cells\<close>

datatype cell = HeadCell addr | ElemCell addr

record head =
  q_first :: ptr

record tail_head = head +
  q_last :: cell

record entry =
  e_next :: ptr

record dentry = entry +
  e_prev :: cell

text \<open>Heads are variables, elements have to be allocated.\<close>

record ('h, 'e) qmem =
  heads :: "addr \<Rightarrow> 'h"
  elems :: "addr \<rightharpoonup> 'e"

section \<open>Fields\<close>

definition nxt :: "('h head_scheme, 'e entry_scheme) qmem \<Rightarrow> cell \<Rightarrow> ptr" where
  "nxt m c = (case c of HeadCell h \<Rightarrow> q_first (heads m h) | ElemCell a \<Rightarrow> e_next (the (elems m a)))"

definition prv :: "('h, 'e dentry_scheme) qmem \<Rightarrow> addr \<Rightarrow> cell" where
  "prv m a = e_prev (the (elems m a))"

definition lst :: "('h tail_head_scheme, 'e) qmem \<Rightarrow> addr \<Rightarrow> cell" where
  "lst m h = q_last (heads m h)"

definition valid :: "('h, 'e) qmem \<Rightarrow> cell \<Rightarrow> bool" where
  "valid m c = (case c of HeadCell h \<Rightarrow> True | ElemCell a \<Rightarrow> elems m a \<noteq> None)"

definition set_nxt :: "cell \<Rightarrow> ptr \<Rightarrow> ('h head_scheme, 'e entry_scheme) qmem \<Rightarrow> ('h head_scheme, 'e entry_scheme) qmem" where
  "set_nxt c p m =
     (case c of
        HeadCell h \<Rightarrow> m\<lparr>heads := (heads m)(h := (heads m h)\<lparr>q_first := p\<rparr>)\<rparr>
      | ElemCell a \<Rightarrow> m\<lparr>elems := (elems m)(a \<mapsto> (the (elems m a))\<lparr>e_next := p\<rparr>)\<rparr>)"

definition set_prv :: "addr \<Rightarrow> cell \<Rightarrow> ('h, 'e dentry_scheme) qmem \<Rightarrow> ('h, 'e dentry_scheme) qmem" where
  "set_prv a c m = m\<lparr>elems := (elems m)(a \<mapsto> (the (elems m a))\<lparr>e_prev := c\<rparr>)\<rparr>"

definition set_lst :: "addr \<Rightarrow> cell \<Rightarrow> ('h tail_head_scheme, 'e) qmem \<Rightarrow> ('h tail_head_scheme, 'e) qmem" where
  "set_lst h c m = m\<lparr>heads := (heads m)(h := (heads m h)\<lparr>q_last := c\<rparr>)\<rparr>"

text \<open>Access in C: an element that is not allocated is undefined. \<open>*c\<close> is \<open>load c\<close>.\<close>

definition load :: "cell \<Rightarrow> ('h head_scheme, 'e entry_scheme) qmem \<Rightarrow> ptr option" where
  "load c m = (if valid m c then Some (nxt m c) else None)"

definition store :: "cell \<Rightarrow> ptr \<Rightarrow> ('h head_scheme, 'e entry_scheme) qmem \<Rightarrow> ('h head_scheme, 'e entry_scheme) qmem option" where
  "store c p m = (if valid m c then Some (set_nxt c p m) else None)"

definition load_prev :: "addr \<Rightarrow> ('h, 'e dentry_scheme) qmem \<Rightarrow> cell option" where
  "load_prev a m = (if valid m (ElemCell a) then Some (prv m a) else None)"

definition store_prev :: "addr \<Rightarrow> cell \<Rightarrow> ('h, 'e dentry_scheme) qmem \<Rightarrow> ('h, 'e dentry_scheme) qmem option" where
  "store_prev a c m = (if valid m (ElemCell a) then Some (set_prv a c m) else None)"

lemma nxt_simps [simp]:
  "nxt (set_nxt c p m) = (nxt m)(c := p)"
  "nxt (set_prv a d m') = nxt m'"
  "nxt (set_lst h d m'') = nxt m''"
  by (auto simp: nxt_def set_nxt_def set_prv_def set_lst_def fun_eq_iff split: cell.splits)

lemma prv_simps [simp]:
  "prv (set_prv a d m) = (prv m)(a := d)"
  "prv (set_nxt c p m') = prv m'"
  "prv (set_lst h d m'') = prv m''"
  by (auto simp: prv_def set_nxt_def set_prv_def set_lst_def fun_eq_iff split: cell.splits)

lemma lst_simps [simp]:
  "lst (set_lst h d m) = (lst m)(h := d)"
  "lst (set_nxt c p m') = lst m'"
  "lst (set_prv a d m'') = lst m''"
  by (auto simp: lst_def set_nxt_def set_prv_def set_lst_def fun_eq_iff split: cell.splits)

lemma valid_simps [simp]:
  "valid m (HeadCell h)"
  "valid m1 d \<Longrightarrow> valid (set_nxt c p m1) d"
  "valid m2 d \<Longrightarrow> valid (set_prv a c m2) d"
  "valid (set_lst h c m3) d = valid m3 d"
  by (auto simp: valid_def set_nxt_def set_prv_def set_lst_def split: cell.splits)

lemma access_simps [simp]:
  "valid m c \<Longrightarrow> load c m = Some (nxt m c)"
  "valid m c \<Longrightarrow> store c p m = Some (set_nxt c p m)"
  "valid m' (ElemCell a) \<Longrightarrow> load_prev a m' = Some (prv m' a)"
  "valid m' (ElemCell a) \<Longrightarrow> store_prev a d m' = Some (set_prv a d m')"
  by (simp_all add: load_def store_def load_prev_def store_prev_def)

lemma load_elem_cong: "elems m' a = elems m a \<Longrightarrow> load (ElemCell a) m' = load (ElemCell a) m"
  by (simp add: load_def valid_def nxt_def)

section \<open>Chains\<close>

text \<open>
  From cell \<open>c\<close> on the next fields \<open>f\<close> run through \<open>xs\<close>; \<open>i\<close> is the pointer to an element. The back
  pointers \<open>g\<close> of \<open>xs\<close> name the cells before them. \<open>last_cell\<close> is the cell at the end.
\<close>

fun links :: "(addr \<Rightarrow> 'p) \<Rightarrow> (cell \<Rightarrow> 'p) \<Rightarrow> cell \<Rightarrow> addr list \<Rightarrow> bool" where
  "links i f c [] \<longleftrightarrow> True"
| "links i f c (x # xs) \<longleftrightarrow> f c = i x \<and> links i f (ElemCell x) xs"

fun backs :: "(addr \<Rightarrow> cell) \<Rightarrow> cell \<Rightarrow> addr list \<Rightarrow> bool" where
  "backs g c [] \<longleftrightarrow> True"
| "backs g c (x # xs) \<longleftrightarrow> g x = c \<and> backs g (ElemCell x) xs"

definition last_cell :: "cell \<Rightarrow> addr list \<Rightarrow> cell" where
  "last_cell c xs = (if xs = [] then c else ElemCell (last xs))"

lemma last_cell_simps [simp]:
  "last_cell c [] = c" "last_cell c (xs @ [x]) = ElemCell x" "last_cell c (x # xs) = last_cell (ElemCell x) xs"
  "last_cell c (xs @ y # ys) = last_cell (ElemCell y) ys"
  by (simp_all add: last_cell_def)

lemma last_cell_cases: "last_cell c xs = c \<or> last_cell c xs \<in> ElemCell ` set xs"
  by (simp add: last_cell_def)

lemma last_cell_neq [simp]: "a \<notin> set xs \<Longrightarrow> c \<noteq> ElemCell a \<Longrightarrow> last_cell c xs \<noteq> ElemCell a"
  using last_cell_cases [of c xs] by auto

lemma last_cell_neq' [simp]: "a \<notin> set xs \<Longrightarrow> c \<noteq> ElemCell a \<Longrightarrow> ElemCell a \<noteq> last_cell c xs"
  using last_cell_neq by metis

lemma last_cell_head [simp]: "h \<noteq> h' \<Longrightarrow> last_cell (HeadCell h) xs \<noteq> HeadCell h'"
  using last_cell_cases [of "HeadCell h" xs] by auto

lemma last_cell_elem [simp]: "last_cell (ElemCell a) xs \<noteq> HeadCell h" "HeadCell h \<noteq> last_cell (ElemCell a) xs"
  using last_cell_cases [of "ElemCell a" xs] by auto

lemma last_cell_valid: "valid m c \<Longrightarrow> \<forall>x \<in> set xs. valid m (ElemCell x) \<Longrightarrow> valid m (last_cell c xs)"
  using last_cell_cases [of c xs] by auto

lemma links_append [simp]:
  "links i f c (xs @ x # ys) \<longleftrightarrow> links i f c xs \<and> f (last_cell c xs) = i x \<and> links i f (ElemCell x) ys"
  by (induction xs arbitrary: c) auto

lemma backs_append [simp]: "backs g c (xs @ ys) \<longleftrightarrow> backs g c xs \<and> backs g (last_cell c xs) ys"
  by (induction xs arbitrary: c) auto

lemma links_upd [simp]: "d \<noteq> c \<Longrightarrow> d \<notin> ElemCell ` set xs \<Longrightarrow> links i (f(d := q)) c xs = links i f c xs"
  by (induction xs arbitrary: c) auto

lemma backs_upd [simp]: "a \<notin> set xs \<Longrightarrow> backs (g(a := d)) c xs = backs g c xs"
  by (induction xs arbitrary: c) auto

text \<open>Storing at the end does not change the links.\<close>

lemma links_end [simp]:
  "distinct xs \<Longrightarrow> c \<notin> ElemCell ` set xs \<Longrightarrow> links i (f(last_cell c xs := q)) c xs = links i f c xs"
proof (induction xs arbitrary: c)
  case (Cons x xs)
  then have "c \<noteq> last_cell (ElemCell x) xs"
    using last_cell_cases [of "ElemCell x" xs] by auto
  then show ?case
    using Cons by auto
qed simp

lemma cell_image [simp]: "HeadCell h \<notin> ElemCell ` A" "ElemCell a \<in> ElemCell ` A \<longleftrightarrow> a \<in> A"
  by auto

lemma last_cell_notin [simp]:
  "set xs \<inter> set ys = {} \<Longrightarrow> c \<notin> ElemCell ` set ys \<Longrightarrow> last_cell c xs \<notin> ElemCell ` set ys"
  using last_cell_cases [of c xs] by auto

lemma last_cell_apart [simp]:
  "a \<notin> set xs \<Longrightarrow> set xs \<inter> set ys = {} \<Longrightarrow> last_cell (ElemCell a) ys \<noteq> last_cell (HeadCell h) xs"
  using last_cell_cases [of "ElemCell a" ys] last_cell_cases [of "HeadCell h" xs] by auto

text \<open>What an operation on some heads and elements leaves alone.\<close>

definition same_outside :: "addr set \<Rightarrow> addr set \<Rightarrow> ('h, 'e) qmem \<Rightarrow> ('h, 'e) qmem \<Rightarrow> bool" where
  "same_outside hs as m m' \<longleftrightarrow>
     (\<forall>h. h \<notin> hs \<longrightarrow> heads m' h = heads m h) \<and> (\<forall>a. a \<notin> as \<longrightarrow> elems m' a = elems m a) \<and>
     dom (elems m') = dom (elems m)"

lemma same_outside_refl [simp]: "same_outside hs as m m"
  by (simp add: same_outside_def)

lemma same_outside_set [simp]:
  "same_outside hs as m m1 \<Longrightarrow> h \<in> hs \<Longrightarrow> same_outside hs as m (set_nxt (HeadCell h) p m1)"
  "same_outside hs as m m1 \<Longrightarrow> a \<in> as \<Longrightarrow> valid m (ElemCell a) \<Longrightarrow> same_outside hs as m (set_nxt (ElemCell a) p m1)"
  "same_outside hs as m2 m3 \<Longrightarrow> a \<in> as \<Longrightarrow> valid m2 (ElemCell a) \<Longrightarrow> same_outside hs as m2 (set_prv a c m3)"
  "same_outside hs as m4 m5 \<Longrightarrow> h \<in> hs \<Longrightarrow> same_outside hs as m4 (set_lst h c m5)"
  by (auto simp: same_outside_def set_nxt_def set_prv_def set_lst_def valid_def)

lemma same_outside_cell [simp]:
  "same_outside hs as m m1 \<Longrightarrow> c \<in> HeadCell ` hs \<union> ElemCell ` as \<Longrightarrow> valid m c \<Longrightarrow> same_outside hs as m (set_nxt c p m1)"
  by (cases c) auto

lemma same_outside_last [simp]:
  "same_outside hs as m m1 \<Longrightarrow> h \<in> hs \<Longrightarrow> (\<forall>x \<in> set us. x \<in> as) \<Longrightarrow> valid m (last_cell (HeadCell h) us) \<Longrightarrow>
   same_outside hs as m (set_nxt (last_cell (HeadCell h) us) p m1)"
  using last_cell_cases [of "HeadCell h" us] by (intro same_outside_cell) auto

lemma same_outside_nxt:
  "same_outside hs as m m' \<Longrightarrow> c \<notin> HeadCell ` hs \<union> ElemCell ` as \<Longrightarrow> nxt m' c = nxt m c"
  by (cases c) (auto simp: same_outside_def nxt_def)

lemma links_cong:
  "f' c = f c \<Longrightarrow> (\<And>x. x \<in> set xs \<Longrightarrow> f' (ElemCell x) = f (ElemCell x)) \<Longrightarrow> links i f' c xs = links i f c xs"
  by (induction xs arbitrary: c) auto

lemma backs_cong: "(\<And>x. x \<in> set xs \<Longrightarrow> g' x = g x) \<Longrightarrow> backs g' c xs = backs g c xs"
  by (induction xs arbitrary: c) auto

end
