(* ===== verification/QueueFamily.thy ===== *)
theory QueueFamily
  imports QueueMem
begin

text \<open>
  What the list families of \<open>slist/queue.h\<close> promise: operations on lists of elements, one list per
  head. A family shows that its macros keep every head's list as the abstract operation says; the
  locale has what that needs about the lists that an operation does not touch.
\<close>

section \<open>Operations\<close>

text \<open>
  The operations in the table of the file. Where a macro has no head argument the operation names
  the head whose list the element is on.
\<close>

datatype queue_op =
    Init addr
  | InsertHead addr addr
  | InsertTail addr addr
  | InsertBefore addr addr addr
  | InsertAfter addr addr addr
  | RemoveHead addr
  | RemoveHeadUntil addr addr
  | RemoveAfter addr addr
  | Remove addr addr
  | Replace addr addr addr
  | Concat addr addr
  | Swap addr addr

text \<open>The lists of the initialised heads.\<close>

type_synonym queues = "addr \<rightharpoonup> addr list"

abbreviation list_of :: "queues \<Rightarrow> addr \<Rightarrow> addr list" where
  "list_of ls h \<equiv> the (ls h)"

fun insert_before :: "addr \<Rightarrow> addr \<Rightarrow> addr list \<Rightarrow> addr list" where
  "insert_before a e [] = []"
| "insert_before a e (x # xs) = (if x = a then e # x # xs else x # insert_before a e xs)"

fun insert_after :: "addr \<Rightarrow> addr \<Rightarrow> addr list \<Rightarrow> addr list" where
  "insert_after a e [] = []"
| "insert_after a e (x # xs) = (if x = a then x # e # xs else x # insert_after a e xs)"

fun remove_after :: "addr \<Rightarrow> addr list \<Rightarrow> addr list" where
  "remove_after a [] = []"
| "remove_after a (x # xs) = (if x = a then x # tl xs else x # remove_after a xs)"

fun replace :: "addr \<Rightarrow> addr \<Rightarrow> addr list \<Rightarrow> addr list" where
  "replace a e [] = []"
| "replace a e (x # xs) = (if x = a then e # xs else x # replace a e xs)"

fun op_spec :: "queue_op \<Rightarrow> queues \<Rightarrow> queues" where
  "op_spec (Init h) ls = ls(h \<mapsto> [])"
| "op_spec (InsertHead h e) ls = ls(h \<mapsto> e # list_of ls h)"
| "op_spec (InsertTail h e) ls = ls(h \<mapsto> list_of ls h @ [e])"
| "op_spec (InsertBefore h a e) ls = ls(h \<mapsto> insert_before a e (list_of ls h))"
| "op_spec (InsertAfter h a e) ls = ls(h \<mapsto> insert_after a e (list_of ls h))"
| "op_spec (RemoveHead h) ls = ls(h \<mapsto> tl (list_of ls h))"
| "op_spec (RemoveHeadUntil h a) ls = ls(h \<mapsto> tl (dropWhile (\<lambda>x. x \<noteq> a) (list_of ls h)))"
| "op_spec (RemoveAfter h a) ls = ls(h \<mapsto> remove_after a (list_of ls h))"
| "op_spec (Remove h a) ls = ls(h \<mapsto> remove1 a (list_of ls h))"
| "op_spec (Replace h a e) ls = ls(h \<mapsto> replace a e (list_of ls h))"
| "op_spec (Concat h1 h2) ls = ls(h1 \<mapsto> list_of ls h1 @ list_of ls h2, h2 \<mapsto> [])"
| "op_spec (Swap h1 h2) ls = ls(h1 \<mapsto> list_of ls h2, h2 \<mapsto> list_of ls h1)"

text \<open>An element that is allocated and on none of the lists.\<close>

definition fresh :: "addr set \<Rightarrow> queues \<Rightarrow> addr \<Rightarrow> bool" where
  "fresh A ls e \<longleftrightarrow> e \<in> A \<and> (\<forall>xs \<in> ran ls. e \<notin> set xs)"

text \<open>What the caller has to see to; \<open>A\<close> are the allocated elements.\<close>

fun op_pre :: "addr set \<Rightarrow> queue_op \<Rightarrow> queues \<Rightarrow> bool" where
  "op_pre A (Init h) ls \<longleftrightarrow> True"
| "op_pre A (InsertHead h e) ls \<longleftrightarrow> h \<in> dom ls \<and> fresh A ls e"
| "op_pre A (InsertTail h e) ls \<longleftrightarrow> h \<in> dom ls \<and> fresh A ls e"
| "op_pre A (InsertBefore h a e) ls \<longleftrightarrow> h \<in> dom ls \<and> a \<in> set (list_of ls h) \<and> fresh A ls e"
| "op_pre A (InsertAfter h a e) ls \<longleftrightarrow> h \<in> dom ls \<and> a \<in> set (list_of ls h) \<and> fresh A ls e"
| "op_pre A (RemoveHead h) ls \<longleftrightarrow> h \<in> dom ls \<and> list_of ls h \<noteq> []"
| "op_pre A (RemoveHeadUntil h a) ls \<longleftrightarrow> h \<in> dom ls \<and> a \<in> set (list_of ls h)"
| "op_pre A (RemoveAfter h a) ls \<longleftrightarrow> h \<in> dom ls \<and> a \<in> set (butlast (list_of ls h))"
| "op_pre A (Remove h a) ls \<longleftrightarrow> h \<in> dom ls \<and> a \<in> set (list_of ls h)"
| "op_pre A (Replace h a e) ls \<longleftrightarrow> h \<in> dom ls \<and> a \<in> set (list_of ls h) \<and> fresh A ls e"
| "op_pre A (Concat h1 h2) ls \<longleftrightarrow> h1 \<in> dom ls \<and> h2 \<in> dom ls \<and> h1 \<noteq> h2"
| "op_pre A (Swap h1 h2) ls \<longleftrightarrow> h1 \<in> dom ls \<and> h2 \<in> dom ls \<and> h1 \<noteq> h2"

text \<open>A sequence of operations; \<open>has\<close> says which of them the family has.\<close>

fun ops_pre :: "addr set \<Rightarrow> (queue_op \<Rightarrow> bool) \<Rightarrow> queue_op list \<Rightarrow> queues \<Rightarrow> bool" where
  "ops_pre A has [] ls \<longleftrightarrow> True"
| "ops_pre A has (op # ops) ls \<longleftrightarrow> has op \<and> op_pre A op ls \<and> ops_pre A has ops (op_spec op ls)"

fun run_ops :: "(queue_op \<Rightarrow> 's \<Rightarrow> 's option) \<Rightarrow> queue_op list \<Rightarrow> 's \<Rightarrow> 's option" where
  "run_ops exec [] m = Some m"
| "run_ops exec (op # ops) m = do { m \<leftarrow> exec op m; run_ops exec ops m }"

definition ops_spec :: "queue_op list \<Rightarrow> queues \<Rightarrow> queues" where
  "ops_spec ops ls = fold op_spec ops ls"

section \<open>Facts about the list operations\<close>

lemma insert_before_split [simp]: "a \<notin> set us \<Longrightarrow> insert_before a e (us @ a # vs) = us @ e # a # vs"
  by (induction us) auto

lemma insert_after_split [simp]: "a \<notin> set us \<Longrightarrow> insert_after a e (us @ a # vs) = us @ a # e # vs"
  by (induction us) auto

lemma remove_after_split [simp]: "a \<notin> set us \<Longrightarrow> remove_after a (us @ a # vs) = us @ a # tl vs"
  by (induction us) auto

lemma replace_split [simp]: "a \<notin> set us \<Longrightarrow> replace a e (us @ a # vs) = us @ e # vs"
  by (induction us) auto

lemma remove1_split [simp]: "a \<notin> set us \<Longrightarrow> remove1 a (us @ a # vs) = us @ vs"
  by (induction us) auto

lemma dropWhile_split [simp]: "a \<notin> set us \<Longrightarrow> dropWhile (\<lambda>x. x \<noteq> a) (us @ a # vs) = a # vs"
  by (induction us) auto

lemma split_at:
  assumes "x \<in> set xs"
  obtains us vs where "xs = us @ x # vs" "x \<notin> set us"
  using split_list_first [OF assms] by blast

section \<open>Loops\<close>

text \<open>
  The loops over a list: \<open>next\<close> reads the pointer to go on with, after the body or, in the safe loop,
  before it.
\<close>

partial_function (option) foreach ::
  "('s \<Rightarrow> addr \<Rightarrow> ptr option) \<Rightarrow> (addr \<Rightarrow> 's \<Rightarrow> 's option) \<Rightarrow> ptr \<Rightarrow> 's \<Rightarrow> 's option" where
  "foreach nextp body var s =
     (case var of
        None \<Rightarrow> Some s
      | Some a \<Rightarrow> do { s \<leftarrow> body a s; n \<leftarrow> nextp s a; foreach nextp body n s })"

partial_function (option) foreach_safe ::
  "('s \<Rightarrow> addr \<Rightarrow> ptr option) \<Rightarrow> (addr \<Rightarrow> 's \<Rightarrow> 's option) \<Rightarrow> ptr \<Rightarrow> 's \<Rightarrow> 's option" where
  "foreach_safe nextp body var s =
     (case var of
        None \<Rightarrow> Some s
      | Some a \<Rightarrow> do { n \<leftarrow> nextp s a; s \<leftarrow> body a s; foreach_safe nextp body n s })"

text \<open>The body for each element in turn; and the elements that \<open>next\<close> leads through.\<close>

fun each :: "(addr \<Rightarrow> 's \<Rightarrow> 's option) \<Rightarrow> addr list \<Rightarrow> 's \<Rightarrow> 's option" where
  "each body [] s = Some s"
| "each body (x # xs) s = do { s \<leftarrow> body x s; each body xs s }"

fun path :: "(addr \<Rightarrow> ptr option) \<Rightarrow> ptr \<Rightarrow> addr list \<Rightarrow> bool" where
  "path nx p [] \<longleftrightarrow> p = NULL"
| "path nx p (x # xs) \<longleftrightarrow> p = Some x \<and> (\<exists>n. nx x = Some n \<and> path nx n xs)"

lemma path_cong: "path nx p xs \<Longrightarrow> (\<And>x. x \<in> set xs \<Longrightarrow> nx' x = nx x) \<Longrightarrow> path nx' p xs"
  by (induction xs arbitrary: p) auto

lemma foreach_each:
  assumes body: "\<And>a s s'. body a s = Some s' \<Longrightarrow> nextp s' = nextp s"
  shows "path (nextp s) p xs \<Longrightarrow> foreach nextp body p s = each body xs s"
proof (induction xs arbitrary: p s)
  case Nil
  then show ?case
    by (subst foreach.simps) simp
next
  case (Cons x xs)
  then obtain n where n: "p = Some x" "nextp s x = Some n" "path (nextp s) n xs"
    by auto
  show ?case
  proof (cases "body x s")
    case None
    then show ?thesis
      using n by (subst foreach.simps) simp
  next
    case (Some s')
    then show ?thesis
      using n Cons.IH [of s' n] body [OF Some] by (subst foreach.simps) simp
  qed
qed

lemma foreach_safe_each:
  assumes body: "\<And>a s s' b. body a s = Some s' \<Longrightarrow> b \<noteq> a \<Longrightarrow> nextp s' b = nextp s b"
  shows "distinct xs \<Longrightarrow> path (nextp s) p xs \<Longrightarrow> foreach_safe nextp body p s = each body xs s"
proof (induction xs arbitrary: p s)
  case Nil
  then show ?case
    by (subst foreach_safe.simps) simp
next
  case (Cons x xs)
  then obtain n where n: "p = Some x" "nextp s x = Some n" "path (nextp s) n xs"
    by auto
  show ?case
  proof (cases "body x s")
    case None
    then show ?thesis
      using n by (subst foreach_safe.simps) simp
  next
    case (Some s')
    have "path (nextp s') n xs"
      using n(3)
    proof (rule path_cong)
      fix y
      assume "y \<in> set xs"
      then have "y \<noteq> x"
        using Cons.prems(1) by auto
      then show "nextp s' y = nextp s y"
        by (rule body [OF Some])
    qed
    then show ?thesis
      using n Some Cons.IH [of s' n] Cons.prems(1) by (subst foreach_safe.simps) simp
  qed
qed

lemma links_path:
  "links Some (nxt m) c xs \<Longrightarrow> nxt m (last_cell c xs) = NULL \<Longrightarrow> \<forall>x \<in> set xs. valid m (ElemCell x) \<Longrightarrow>
   path (\<lambda>a. load (ElemCell a) m) (nxt m c) xs"
  by (induction xs arbitrary: c) auto

section \<open>Lists that an operation does not touch\<close>

text \<open>\<open>rep m h xs\<close>: head \<open>h\<close> has the list \<open>xs\<close>. The lists of different heads share no element.\<close>

definition queues_ok :: "(('h, 'e) qmem \<Rightarrow> addr \<Rightarrow> addr list \<Rightarrow> bool) \<Rightarrow> ('h, 'e) qmem \<Rightarrow> queues \<Rightarrow> bool" where
  "queues_ok rep m ls \<longleftrightarrow> (\<forall>h xs. ls h = Some xs \<longrightarrow> rep m h xs) \<and>
     (\<forall>h h' xs ys. ls h = Some xs \<longrightarrow> ls h' = Some ys \<longrightarrow> h \<noteq> h' \<longrightarrow> set xs \<inter> set ys = {})"

lemma freshD: "fresh A ls e \<Longrightarrow> ls h = Some xs \<Longrightarrow> e \<notin> set xs" "fresh A ls e \<Longrightarrow> e \<in> A"
  by (auto simp: fresh_def ran_def)

lemma same_outside_valid: "same_outside hs as m m' \<Longrightarrow> valid m' c = valid m c"
  by (cases c) (auto simp: same_outside_def valid_def)

lemma same_outside_prv: "same_outside hs as m m' \<Longrightarrow> a \<notin> as \<Longrightarrow> prv m' a = prv m a"
  by (simp add: same_outside_def prv_def)

lemma same_outside_lst: "same_outside hs as m m' \<Longrightarrow> h \<notin> hs \<Longrightarrow> lst m' h = lst m h"
  by (simp add: same_outside_def lst_def)

lemma same_outside_dom: "same_outside hs as m m' \<Longrightarrow> dom (elems m') = dom (elems m)"
  by (simp add: same_outside_def)

lemma same_outside_links:
  assumes "same_outside hs as m m'" "h \<notin> hs" "set xs \<inter> as = {}"
  shows "links Some (nxt m') (HeadCell h) xs = links Some (nxt m) (HeadCell h) xs"
    "nxt m' (last_cell (HeadCell h) xs) = nxt m (last_cell (HeadCell h) xs)"
proof -
  have "HeadCell h \<notin> HeadCell ` hs \<union> ElemCell ` as" "\<And>x. x \<in> set xs \<Longrightarrow> ElemCell x \<notin> HeadCell ` hs \<union> ElemCell ` as"
    using assms(2,3) by auto
  note eq = this [THEN same_outside_nxt [OF assms(1)]]
  show "links Some (nxt m') (HeadCell h) xs = links Some (nxt m) (HeadCell h) xs"
    by (rule links_cong) (use eq in auto)
  show "nxt m' (last_cell (HeadCell h) xs) = nxt m (last_cell (HeadCell h) xs)"
    using eq last_cell_cases [of "HeadCell h" xs] by auto
qed

lemma fresh_valid: "fresh (dom (elems m)) ls e \<Longrightarrow> valid m (ElemCell e)"
  by (auto simp: fresh_def valid_def)

locale queue_rep =
  fixes rep :: "('h, 'e) qmem \<Rightarrow> addr \<Rightarrow> addr list \<Rightarrow> bool"
  assumes frame: "rep m h xs \<Longrightarrow> same_outside hs as m m' \<Longrightarrow> h \<notin> hs \<Longrightarrow> set xs \<inter> as = {} \<Longrightarrow> rep m' h xs"
begin

text \<open>The heads \<open>hs\<close> get new lists, made of elements \<open>as\<close> that no other head's list has.\<close>

lemma heads_update:
  assumes "queues_ok rep m ls" "same_outside hs as m m'"
    and new: "\<And>h. h \<in> hs \<Longrightarrow> \<exists>xs. ls' h = Some xs \<and> rep m' h xs \<and> set xs \<subseteq> as"
    and old: "\<And>h. h \<notin> hs \<Longrightarrow> ls' h = ls h" "\<And>h xs. ls h = Some xs \<Longrightarrow> h \<notin> hs \<Longrightarrow> set xs \<inter> as = {}"
    and disj: "\<And>h h' xs ys. h \<in> hs \<Longrightarrow> h' \<in> hs \<Longrightarrow> h \<noteq> h' \<Longrightarrow> ls' h = Some xs \<Longrightarrow> ls' h' = Some ys \<Longrightarrow> set xs \<inter> set ys = {}"
  shows "queues_ok rep m' ls'"
  unfolding queues_ok_def
proof (intro conjI allI impI)
  fix h xs
  assume h: "ls' h = Some xs"
  show "rep m' h xs"
  proof (cases "h \<in> hs")
    case True
    then show ?thesis
      using new [OF True] h by auto
  next
    case False
    then have "ls h = Some xs" "set xs \<inter> as = {}"
      using h old(1) [OF False] old(2) [of h xs] by auto
    then show ?thesis
      using frame [OF _ assms(2) False] assms(1) unfolding queues_ok_def by blast
  qed
next
  fix h h' xs ys
  assume l: "ls' h = Some xs" "ls' h' = Some ys" and n: "h \<noteq> h'"
  have apart: "set xs \<inter> set ys = {}" if "h \<in> hs" "h' \<notin> hs" "ls' h = Some xs" "ls' h' = Some ys" for h h' xs ys
  proof -
    have "set xs \<subseteq> as" "set ys \<inter> as = {}"
      using new [OF that(1)] old(1) [OF that(2)] old(2) [of h' ys] that by auto
    then show ?thesis
      by blast
  qed
  show "set xs \<inter> set ys = {}"
  proof (cases "h \<in> hs"; cases "h' \<in> hs")
    assume "h \<in> hs" "h' \<in> hs"
    then show ?thesis
      using disj l n by blast
  next
    assume "h \<in> hs" "h' \<notin> hs"
    then show ?thesis
      using apart l by blast
  next
    assume "h \<notin> hs" "h' \<in> hs"
    then show ?thesis
      using apart l by blast
  next
    assume "h \<notin> hs" "h' \<notin> hs"
    then show ?thesis
      using old(1) l n assms(1) unfolding queues_ok_def by metis
  qed
qed

text \<open>One head, with at most one element coming in; then two heads.\<close>

lemma one_head:
  assumes ok: "queues_ok rep m ls" and h: "ls h = Some xs"
    and same: "same_outside {h} (insert e (set xs)) m m'" and rep: "rep m' h ys"
    and sub: "set ys \<subseteq> insert e (set xs)" and e: "e \<in> set xs \<or> fresh A ls e"
  shows "queues_ok rep m' (ls(h \<mapsto> ys))"
proof (rule heads_update [OF ok same])
  fix h' zs
  assume z: "ls h' = Some zs" "h' \<notin> {h}"
  then have "set zs \<inter> set xs = {}"
    using ok h unfolding queues_ok_def by blast
  then show "set zs \<inter> insert e (set xs) = {}"
    using e freshD(1) [of A ls e h' zs] z(1) by blast
qed (use rep sub in auto)

lemma remove_head:
  assumes "queues_ok rep m ls" "ls h = Some xs" "same_outside {h} (set xs) m m'" "rep m' h ys" "set ys \<subseteq> set xs" "xs \<noteq> []"
  shows "queues_ok rep m' (ls(h \<mapsto> ys))"
proof -
  obtain x where "x \<in> set xs"
    using assms(6) by (cases xs) auto
  then show ?thesis
    using one_head [OF assms(1,2), of x m' ys] assms(3-5) by (auto simp: insert_absorb)
qed

lemma init_head:
  assumes "queues_ok rep m ls" "same_outside {h} {} m m'" "rep m' h []"
  shows "queues_ok rep m' (ls(h \<mapsto> []))"
  by (rule heads_update [OF assms(1,2)]) (use assms(3) in auto)

lemma two_heads:
  assumes ok: "queues_ok rep m ls" and h: "ls h1 = Some xs" "ls h2 = Some ys" "h1 \<noteq> h2"
    and same: "same_outside {h1, h2} (set xs \<union> set ys) m m'"
    and rep: "rep m' h1 xs'" "rep m' h2 ys'" and sub: "set xs' \<subseteq> set xs \<union> set ys" "set ys' \<subseteq> set xs \<union> set ys"
    and disj: "set xs' \<inter> set ys' = {}"
  shows "queues_ok rep m' (ls(h1 \<mapsto> xs', h2 \<mapsto> ys'))"
proof (rule heads_update [OF ok same])
  fix h' zs
  assume z: "ls h' = Some zs" "h' \<notin> {h1, h2}"
  then show "set zs \<inter> (set xs \<union> set ys) = {}"
    using ok h unfolding queues_ok_def by blast
qed (use rep sub disj h(3) in \<open>auto split: if_splits\<close>)

text \<open>The steps of a family's proof: an operation that inserts, one that only removes, one on two heads.\<close>

lemma insert_step:
  assumes ok: "queues_ok rep m ls" and h: "h \<in> dom ls" and e: "fresh (dom (elems m)) ls e"
    and step: "\<And>xs. ls h = Some xs \<Longrightarrow> rep m h xs \<Longrightarrow> e \<notin> set xs \<Longrightarrow> valid m (ElemCell e) \<Longrightarrow>
      \<exists>m'. r = Some m' \<and> rep m' h (F xs) \<and> same_outside {h} (insert e (set xs)) m m' \<and> set (F xs) \<subseteq> insert e (set xs)"
  shows "\<exists>m'. r = Some m' \<and> queues_ok rep m' (ls(h \<mapsto> F (list_of ls h))) \<and> dom (elems m') = dom (elems m)"
proof -
  obtain xs where xs: "ls h = Some xs" "rep m h xs"
    using ok h by (auto simp: queues_ok_def)
  obtain m' where m': "r = Some m'" "rep m' h (F xs)" "same_outside {h} (insert e (set xs)) m m'"
    "set (F xs) \<subseteq> insert e (set xs)"
    using step [OF xs freshD(1) [OF e xs(1)] fresh_valid [OF e]] by blast
  show ?thesis
    using m'(1) one_head [OF ok xs(1) m'(3,2,4)] e same_outside_dom [OF m'(3)] xs(1) by auto
qed

lemma remove_step:
  assumes ok: "queues_ok rep m ls" and h: "h \<in> dom ls" "list_of ls h \<noteq> []"
    and step: "\<And>xs. ls h = Some xs \<Longrightarrow> rep m h xs \<Longrightarrow>
      \<exists>m'. r = Some m' \<and> rep m' h (F xs) \<and> same_outside {h} (set xs) m m' \<and> set (F xs) \<subseteq> set xs"
  shows "\<exists>m'. r = Some m' \<and> queues_ok rep m' (ls(h \<mapsto> F (list_of ls h))) \<and> dom (elems m') = dom (elems m)"
proof -
  obtain xs where xs: "ls h = Some xs" "rep m h xs"
    using ok h by (auto simp: queues_ok_def)
  obtain m' where m': "r = Some m'" "rep m' h (F xs)" "same_outside {h} (set xs) m m'" "set (F xs) \<subseteq> set xs"
    using step [OF xs] by blast
  show ?thesis
    using m'(1) remove_head [OF ok xs(1) m'(3,2,4)] h same_outside_dom [OF m'(3)] xs(1) by auto
qed

lemma two_step:
  assumes ok: "queues_ok rep m ls" and h: "h1 \<in> dom ls" "h2 \<in> dom ls" "h1 \<noteq> h2"
    and step: "\<And>xs ys. rep m h1 xs \<Longrightarrow> rep m h2 ys \<Longrightarrow> set xs \<inter> set ys = {} \<Longrightarrow>
      \<exists>m'. r = Some m' \<and> rep m' h1 (F xs ys) \<and> rep m' h2 (G xs ys) \<and> same_outside {h1, h2} (set xs \<union> set ys) m m' \<and>
        set (F xs ys) \<union> set (G xs ys) \<subseteq> set xs \<union> set ys \<and> set (F xs ys) \<inter> set (G xs ys) = {}"
  shows "\<exists>m'. r = Some m' \<and>
    queues_ok rep m' (ls(h1 \<mapsto> F (list_of ls h1) (list_of ls h2), h2 \<mapsto> G (list_of ls h1) (list_of ls h2))) \<and>
    dom (elems m') = dom (elems m)"
proof -
  obtain xs ys where xs: "ls h1 = Some xs" "rep m h1 xs" and ys: "ls h2 = Some ys" "rep m h2 ys"
    and disj: "set xs \<inter> set ys = {}"
    using ok h unfolding queues_ok_def by blast
  obtain m' where m': "r = Some m'" "rep m' h1 (F xs ys)" "rep m' h2 (G xs ys)"
    "same_outside {h1, h2} (set xs \<union> set ys) m m'" "set (F xs ys) \<subseteq> set xs \<union> set ys"
    "set (G xs ys) \<subseteq> set xs \<union> set ys" "set (F xs ys) \<inter> set (G xs ys) = {}"
    using step [OF xs(2) ys(2) disj] by blast
  show ?thesis
    using m'(1) two_heads [OF ok xs(1) ys(1) h(3) m'(4,2,3,5-7)] same_outside_dom [OF m'(4)] xs(1) ys(1) by auto
qed

lemma init_step:
  assumes "queues_ok rep m ls" "\<exists>m'. r = Some m' \<and> rep m' h [] \<and> same_outside {h} {} m m'"
  shows "\<exists>m'. r = Some m' \<and> queues_ok rep m' (ls(h \<mapsto> [])) \<and> dom (elems m') = dom (elems m)"
  using init_head [OF assms(1)] assms(2) same_outside_dom by blast

end

section \<open>The contract of a family\<close>

text \<open>Every operation that the family has does to the lists what it should.\<close>

locale queue_family = queue_rep rep
  for rep :: "('h, 'e) qmem \<Rightarrow> addr \<Rightarrow> addr list \<Rightarrow> bool" +
  fixes exec :: "queue_op \<Rightarrow> ('h, 'e) qmem \<Rightarrow> ('h, 'e) qmem option"
    and has :: "queue_op \<Rightarrow> bool"
  assumes refines: "has op \<Longrightarrow> op_pre (dom (elems m)) op ls \<Longrightarrow> queues_ok rep m ls \<Longrightarrow>
      \<exists>m'. exec op m = Some m' \<and> queues_ok rep m' (op_spec op ls) \<and> dom (elems m') = dom (elems m)"
begin

text \<open>So does every sequence of them.\<close>

lemma ops_refine:
  "ops_pre (dom (elems m)) has ops ls \<Longrightarrow> queues_ok rep m ls \<Longrightarrow>
   \<exists>m'. run_ops exec ops m = Some m' \<and> queues_ok rep m' (ops_spec ops ls) \<and> dom (elems m') = dom (elems m)"
proof (induction ops arbitrary: m ls)
  case (Cons op ops)
  then obtain m1 where m1: "exec op m = Some m1" "queues_ok rep m1 (op_spec op ls)" "dom (elems m1) = dom (elems m)"
    using refines by fastforce
  then show ?case
    using Cons.IH [of m1 "op_spec op ls"] Cons.prems(1) by (auto simp: ops_spec_def)
qed (simp add: ops_spec_def)

end

end
