(* ===== verification/ListQueue.thy ===== *)
theory ListQueue
  imports QueueFamily
begin

text \<open>
  The LIST macros of \<open>slist/queue.h\<close>: doubly-linked lists whose head is one pointer and whose back
  pointers are addresses of next fields, and the proof that they keep the contract of a family.
\<close>

type_synonym list_mem = "(head, dentry) qmem"

section \<open>The macros\<close>

text \<open>The store through the back pointer of an element that may be \<open>NULL\<close>.\<close>

definition store_prev_of :: "ptr \<Rightarrow> cell \<Rightarrow> ('h, 'e dentry_scheme) qmem \<Rightarrow> ('h, 'e dentry_scheme) qmem option" where
  "store_prev_of p c m = (case p of None \<Rightarrow> Some m | Some b \<Rightarrow> store_prev b c m)"

definition LIST_INIT :: "addr \<Rightarrow> list_mem \<Rightarrow> list_mem option" where
  "LIST_INIT h m = store (HeadCell h) NULL m"

text \<open>A head that is initialised statically is the one that \<open>LIST_INIT\<close> makes.\<close>

definition LIST_HEAD_INITIALIZER :: "addr \<Rightarrow> head" where
  "LIST_HEAD_INITIALIZER h = \<lparr>q_first = NULL\<rparr>"

lemma LIST_static: "LIST_INIT h m = Some (m\<lparr>heads := (heads m)(h := LIST_HEAD_INITIALIZER h)\<rparr>)"
  by (cases "heads m h") (simp add: LIST_INIT_def LIST_HEAD_INITIALIZER_def set_nxt_def)

definition LIST_INSERT_HEAD :: "addr \<Rightarrow> addr \<Rightarrow> list_mem \<Rightarrow> list_mem option" where
  "LIST_INSERT_HEAD h elm m = do {
     first \<leftarrow> load (HeadCell h) m;
     m \<leftarrow> store (ElemCell elm) first m;
     m \<leftarrow> store_prev_of first (ElemCell elm) m;
     m \<leftarrow> store (HeadCell h) (Some elm) m;
     store_prev elm (HeadCell h) m
   }"

definition LIST_INSERT_BEFORE :: "addr \<Rightarrow> addr \<Rightarrow> list_mem \<Rightarrow> list_mem option" where
  "LIST_INSERT_BEFORE listelm elm m = do {
     c \<leftarrow> load_prev listelm m;
     m \<leftarrow> store_prev elm c m;
     m \<leftarrow> store (ElemCell elm) (Some listelm) m;
     c \<leftarrow> load_prev listelm m;
     m \<leftarrow> store c (Some elm) m;
     store_prev listelm (ElemCell elm) m
   }"

definition LIST_INSERT_AFTER :: "addr \<Rightarrow> addr \<Rightarrow> list_mem \<Rightarrow> list_mem option" where
  "LIST_INSERT_AFTER listelm elm m = do {
     n \<leftarrow> load (ElemCell listelm) m;
     m \<leftarrow> store (ElemCell elm) n m;
     m \<leftarrow> store_prev_of n (ElemCell elm) m;
     m \<leftarrow> store (ElemCell listelm) (Some elm) m;
     store_prev elm (ElemCell listelm) m
   }"

definition LIST_REMOVE :: "addr \<Rightarrow> list_mem \<Rightarrow> list_mem option" where
  "LIST_REMOVE elm m = do {
     n \<leftarrow> load (ElemCell elm) m;
     c \<leftarrow> load_prev elm m;
     m \<leftarrow> store_prev_of n c m;
     store c n m
   }"

definition LIST_REPLACE :: "addr \<Rightarrow> addr \<Rightarrow> list_mem \<Rightarrow> list_mem option" where
  "LIST_REPLACE elm elm2 m = do {
     n \<leftarrow> load (ElemCell elm) m;
     m \<leftarrow> store (ElemCell elm2) n m;
     m \<leftarrow> store_prev_of n (ElemCell elm2) m;
     c \<leftarrow> load_prev elm m;
     m \<leftarrow> store_prev elm2 c m;
     store c (Some elm2) m
   }"

definition LIST_SWAP :: "addr \<Rightarrow> addr \<Rightarrow> list_mem \<Rightarrow> list_mem option" where
  "LIST_SWAP h1 h2 m = do {
     swap_tmp \<leftarrow> load (HeadCell h1) m;
     first2 \<leftarrow> load (HeadCell h2) m;
     m \<leftarrow> store (HeadCell h1) first2 m;
     m \<leftarrow> store (HeadCell h2) swap_tmp m;
     swap_tmp \<leftarrow> load (HeadCell h1) m;
     m \<leftarrow> store_prev_of swap_tmp (HeadCell h1) m;
     swap_tmp \<leftarrow> load (HeadCell h2) m;
     store_prev_of swap_tmp (HeadCell h2) m
   }"

definition LIST_FIRST :: "addr \<Rightarrow> list_mem \<Rightarrow> ptr" where
  "LIST_FIRST h m = nxt m (HeadCell h)"

definition LIST_NEXT :: "addr \<Rightarrow> list_mem \<Rightarrow> ptr option" where
  "LIST_NEXT elm m = load (ElemCell elm) m"

text \<open>\<open>__containerof\<close> of the address of a next field is the element; of another head it is undefined.\<close>

definition LIST_PREV :: "addr \<Rightarrow> addr \<Rightarrow> list_mem \<Rightarrow> ptr option" where
  "LIST_PREV elm h m = do {
     c \<leftarrow> load_prev elm m;
     if c = HeadCell h then Some NULL
     else case c of ElemCell a \<Rightarrow> Some (Some a) | HeadCell _ \<Rightarrow> None
   }"

definition LIST_EMPTY :: "addr \<Rightarrow> list_mem \<Rightarrow> bool" where
  "LIST_EMPTY h m \<longleftrightarrow> LIST_FIRST h m = NULL"

section \<open>The lists of the heads\<close>

definition listq :: "list_mem \<Rightarrow> addr \<Rightarrow> addr list \<Rightarrow> bool" where
  "listq m h xs \<longleftrightarrow> distinct xs \<and> (\<forall>x \<in> set xs. valid m (ElemCell x)) \<and>
     links Some (nxt m) (HeadCell h) xs \<and> nxt m (last_cell (HeadCell h) xs) = NULL \<and> backs (prv m) (HeadCell h) xs"

lemma listq_split:
  "listq m h (us @ a # vs) \<longleftrightarrow> distinct (us @ a # vs) \<and> (\<forall>x \<in> set (us @ a # vs). valid m (ElemCell x)) \<and>
     links Some (nxt m) (HeadCell h) us \<and> nxt m (last_cell (HeadCell h) us) = Some a \<and>
     links Some (nxt m) (ElemCell a) vs \<and> nxt m (last_cell (ElemCell a) vs) = NULL \<and>
     backs (prv m) (HeadCell h) us \<and> prv m a = last_cell (HeadCell h) us \<and> backs (prv m) (ElemCell a) vs"
  by (auto simp: listq_def)

lemma listq_validD: "listq m h xs \<Longrightarrow> x \<in> set xs \<Longrightarrow> valid m (ElemCell x)"
  by (simp add: listq_def)

lemma listq_last_valid: "listq m h (us @ vs) \<Longrightarrow> valid m (last_cell (HeadCell h) us)"
  by (rule last_cell_valid) (auto simp: listq_def)

text \<open>One lemma per macro; the list is split at the element that the macro gets.\<close>

lemma LIST_INIT_listq:
  "\<exists>m'. LIST_INIT h m = Some m' \<and> listq m' h [] \<and> same_outside {h} {} m m'"
  by (simp add: LIST_INIT_def listq_def)

lemma LIST_INSERT_HEAD_listq:
  assumes "listq m h xs" "valid m (ElemCell e)" "e \<notin> set xs"
  shows "\<exists>m'. LIST_INSERT_HEAD h e m = Some m' \<and> listq m' h (e # xs) \<and> same_outside {h} (insert e (set xs)) m m'"
proof (cases xs)
  case Nil
  then show ?thesis
    using assms by (auto simp: LIST_INSERT_HEAD_def listq_def store_prev_of_def)
next
  case (Cons b ys)
  then show ?thesis
    using assms by (auto simp: LIST_INSERT_HEAD_def listq_def store_prev_of_def)
qed

lemma LIST_INSERT_BEFORE_listq:
  assumes "listq m h (us @ a # vs)" "valid m (ElemCell e)" "e \<notin> set (us @ a # vs)"
  shows "\<exists>m'. LIST_INSERT_BEFORE a e m = Some m' \<and> listq m' h (us @ e # a # vs) \<and>
    same_outside {h} (insert e (set (us @ a # vs))) m m'"
  using assms listq_last_valid [OF assms(1)]
  by (auto simp: LIST_INSERT_BEFORE_def listq_split)

lemma LIST_INSERT_AFTER_listq:
  assumes "listq m h (us @ a # vs)" "valid m (ElemCell e)" "e \<notin> set (us @ a # vs)"
  shows "\<exists>m'. LIST_INSERT_AFTER a e m = Some m' \<and> listq m' h (us @ a # e # vs) \<and>
    same_outside {h} (insert e (set (us @ a # vs))) m m'"
proof (cases vs)
  case Nil
  then show ?thesis
    using assms by (auto simp: LIST_INSERT_AFTER_def listq_split store_prev_of_def)
next
  case (Cons b ys)
  then show ?thesis
    using assms by (auto simp: LIST_INSERT_AFTER_def listq_split store_prev_of_def)
qed

lemma LIST_REMOVE_listq:
  assumes "listq m h (us @ a # vs)"
  shows "\<exists>m'. LIST_REMOVE a m = Some m' \<and> listq m' h (us @ vs) \<and> same_outside {h} (set (us @ a # vs)) m m'"
proof (cases vs)
  case Nil
  then show ?thesis
    using assms listq_last_valid [OF assms]
    by (auto simp: LIST_REMOVE_def listq_def store_prev_of_def)
next
  case (Cons b ys)
  then show ?thesis
    using assms listq_last_valid [OF assms]
    by (auto simp: LIST_REMOVE_def listq_def store_prev_of_def)
qed

lemma LIST_REPLACE_listq:
  assumes "listq m h (us @ a # vs)" "valid m (ElemCell e)" "e \<notin> set (us @ a # vs)"
  shows "\<exists>m'. LIST_REPLACE a e m = Some m' \<and> listq m' h (us @ e # vs) \<and>
    same_outside {h} (insert e (set (us @ a # vs))) m m'"
proof (cases vs)
  case Nil
  then show ?thesis
    using assms listq_last_valid [OF assms(1)]
    by (auto simp: LIST_REPLACE_def listq_split store_prev_of_def)
next
  case (Cons b ys)
  then show ?thesis
    using assms listq_last_valid [OF assms(1)]
    by (auto simp: LIST_REPLACE_def listq_split store_prev_of_def)
qed

lemma LIST_SWAP_listq:
  assumes "listq m h1 xs" "listq m h2 ys" "set xs \<inter> set ys = {}" "h1 \<noteq> h2"
  shows "\<exists>m'. LIST_SWAP h1 h2 m = Some m' \<and> listq m' h1 ys \<and> listq m' h2 xs \<and>
    same_outside {h1, h2} (set xs \<union> set ys) m m'"
  using assms
  by (cases xs; cases ys) (auto simp: LIST_SWAP_def listq_def store_prev_of_def)

section \<open>The contract\<close>

text \<open>The operations of the LIST column, on the heads they are used with.\<close>

fun LIST_has :: "queue_op \<Rightarrow> bool" where
  "LIST_has (InsertTail h e) = False"
| "LIST_has (RemoveHead h) = False"
| "LIST_has (RemoveHeadUntil h e) = False"
| "LIST_has (RemoveAfter h e) = False"
| "LIST_has (Concat h h') = False"
| "LIST_has op = True"

fun LIST_exec :: "queue_op \<Rightarrow> list_mem \<Rightarrow> list_mem option" where
  "LIST_exec (Init h) m = LIST_INIT h m"
| "LIST_exec (InsertHead h e) m = LIST_INSERT_HEAD h e m"
| "LIST_exec (InsertBefore h a e) m = LIST_INSERT_BEFORE a e m"
| "LIST_exec (InsertAfter h a e) m = LIST_INSERT_AFTER a e m"
| "LIST_exec (Remove h a) m = LIST_REMOVE a m"
| "LIST_exec (Replace h a e) m = LIST_REPLACE a e m"
| "LIST_exec (Swap h1 h2) m = LIST_SWAP h1 h2 m"
| "LIST_exec op m = None"

lemma listq_frame:
  assumes "listq m h xs" "same_outside hs as m m'" "h \<notin> hs" "set xs \<inter> as = {}"
  shows "listq m' h xs"
proof -
  have "backs (prv m') (HeadCell h) xs = backs (prv m) (HeadCell h) xs"
    using assms(4) by (intro backs_cong same_outside_prv [OF assms(2)]) auto
  then show ?thesis
    using assms(1) same_outside_links [OF assms(2-4)] same_outside_valid [OF assms(2)] by (simp add: listq_def)
qed

interpretation list_rep: queue_rep listq
  by unfold_locales (rule listq_frame)

lemma LIST_refines:
  assumes "LIST_has op" "op_pre (dom (elems m)) op ls" and ok: "queues_ok listq m ls"
  shows "\<exists>m'. LIST_exec op m = Some m' \<and> queues_ok listq m' (op_spec op ls) \<and> dom (elems m') = dom (elems m)"
proof (cases op)
  case (Init h)
  then show ?thesis
    using list_rep.init_step [OF ok LIST_INIT_listq] by simp
next
  case (InsertHead h e)
  then show ?thesis
    using assms(2) LIST_INSERT_HEAD_listq by (auto intro!: list_rep.insert_step [OF ok])
next
  case (InsertBefore h a e)
  then obtain us vs where "list_of ls h = us @ a # vs" "a \<notin> set us"
    using assms(2) split_at [of a "list_of ls h"] by auto
  then show ?thesis
    using assms(2) InsertBefore LIST_INSERT_BEFORE_listq [of m h us a vs e] by (auto intro!: list_rep.insert_step [OF ok])
next
  case (InsertAfter h a e)
  then obtain us vs where "list_of ls h = us @ a # vs" "a \<notin> set us"
    using assms(2) split_at [of a "list_of ls h"] by auto
  then show ?thesis
    using assms(2) InsertAfter LIST_INSERT_AFTER_listq [of m h us a vs e] by (auto intro!: list_rep.insert_step [OF ok])
next
  case (Remove h a)
  then obtain us vs where "list_of ls h = us @ a # vs" "a \<notin> set us"
    using assms(2) split_at [of a "list_of ls h"] by auto
  then show ?thesis
    using assms(2) Remove LIST_REMOVE_listq [of m h us a vs] by (auto intro!: list_rep.remove_step [OF ok])
next
  case (Replace h a e)
  then obtain us vs where "list_of ls h = us @ a # vs" "a \<notin> set us"
    using assms(2) split_at [of a "list_of ls h"] by auto
  then show ?thesis
    using assms(2) Replace LIST_REPLACE_listq [of m h us a vs e] by (auto intro!: list_rep.insert_step [OF ok])
next
  case (Swap h1 h2)
  then show ?thesis
    using assms(2) LIST_SWAP_listq [of m h1 _ h2] by (auto intro!: list_rep.two_step [OF ok] simp: Int_commute)
qed (use assms in auto)

interpretation list_family: queue_family listq LIST_exec LIST_has
  by unfold_locales (rule LIST_refines)

section \<open>Access and iteration\<close>

lemma LIST_access:
  assumes "listq m h (us @ a # vs)"
  shows "LIST_NEXT a m = Some (case vs of [] \<Rightarrow> NULL | b # _ \<Rightarrow> Some b)"
    "LIST_PREV a h m = Some (if us = [] then NULL else Some (last us))"
  using assms last_cell_cases [of "HeadCell h" us]
  by (auto simp: listq_split LIST_NEXT_def LIST_PREV_def last_cell_def split: list.splits)

definition LIST_FOREACH :: "('s \<Rightarrow> list_mem) \<Rightarrow> (addr \<Rightarrow> 's \<Rightarrow> 's option) \<Rightarrow> addr \<Rightarrow> 's \<Rightarrow> 's option" where
  "LIST_FOREACH mem body h s = foreach (\<lambda>s a. LIST_NEXT a (mem s)) body (LIST_FIRST h (mem s)) s"

definition LIST_FOREACH_SAFE :: "('s \<Rightarrow> list_mem) \<Rightarrow> (addr \<Rightarrow> 's \<Rightarrow> 's option) \<Rightarrow> addr \<Rightarrow> 's \<Rightarrow> 's option" where
  "LIST_FOREACH_SAFE mem body h s = foreach_safe (\<lambda>s a. LIST_NEXT a (mem s)) body (LIST_FIRST h (mem s)) s"

lemma LIST_FOREACH_each:
  assumes "listq (mem s) h xs" "\<And>a s s'. body a s = Some s' \<Longrightarrow> mem s' = mem s"
  shows "LIST_FOREACH mem body h s = each body xs s"
  unfolding LIST_FOREACH_def LIST_NEXT_def LIST_FIRST_def
  by (rule foreach_each) (use assms links_path in \<open>auto simp: listq_def\<close>)

text \<open>The body of the safe loop may change the element it is at, for example free it.\<close>

lemma LIST_FOREACH_SAFE_each:
  assumes "listq (mem s) h xs"
    and "\<And>a s s' b. body a s = Some s' \<Longrightarrow> b \<noteq> a \<Longrightarrow> elems (mem s') b = elems (mem s) b"
  shows "LIST_FOREACH_SAFE mem body h s = each body xs s"
  unfolding LIST_FOREACH_SAFE_def LIST_NEXT_def LIST_FIRST_def
  by (rule foreach_safe_each) (use assms links_path in \<open>auto simp: listq_def intro: load_elem_cong\<close>)

end
