(* ===== verification/TailQueue.thy ===== *)
theory TailQueue
  imports QueueFamily
begin

text \<open>
  The TAILQ macros of \<open>slist/queue.h\<close>: doubly-linked lists whose head also keeps the address of the
  last next field, and the proof that they keep the contract of a family.
\<close>

type_synonym tail_mem = "(tail_head, dentry) qmem"

section \<open>The macros\<close>

definition TAILQ_INIT :: "addr \<Rightarrow> tail_mem \<Rightarrow> tail_mem option" where
  "TAILQ_INIT h m = do {
     m \<leftarrow> store (HeadCell h) NULL m;
     Some (set_lst h (HeadCell h) m)
   }"

text \<open>A head that is initialised statically is the one that \<open>TAILQ_INIT\<close> makes.\<close>

definition TAILQ_HEAD_INITIALIZER :: "addr \<Rightarrow> tail_head" where
  "TAILQ_HEAD_INITIALIZER h = \<lparr>q_first = NULL, q_last = HeadCell h\<rparr>"

lemma TAILQ_static: "TAILQ_INIT h m = Some (m\<lparr>heads := (heads m)(h := TAILQ_HEAD_INITIALIZER h)\<rparr>)"
  by (cases "heads m h") (simp add: TAILQ_INIT_def TAILQ_HEAD_INITIALIZER_def set_nxt_def set_lst_def)

text \<open>The store to the back pointer of the element \<open>n\<close>, or to the head's last pointer at the end.\<close>

definition store_back :: "addr \<Rightarrow> ptr \<Rightarrow> cell \<Rightarrow> tail_mem \<Rightarrow> tail_mem option" where
  "store_back h n c m = (case n of None \<Rightarrow> Some (set_lst h c m) | Some b \<Rightarrow> store_prev b c m)"

definition TAILQ_INSERT_HEAD :: "addr \<Rightarrow> addr \<Rightarrow> tail_mem \<Rightarrow> tail_mem option" where
  "TAILQ_INSERT_HEAD h elm m = do {
     n \<leftarrow> load (HeadCell h) m;
     m \<leftarrow> store (ElemCell elm) n m;
     m \<leftarrow> store_back h n (ElemCell elm) m;
     m \<leftarrow> store (HeadCell h) (Some elm) m;
     store_prev elm (HeadCell h) m
   }"

definition TAILQ_INSERT_BEFORE :: "addr \<Rightarrow> addr \<Rightarrow> tail_mem \<Rightarrow> tail_mem option" where
  "TAILQ_INSERT_BEFORE listelm elm m = do {
     c \<leftarrow> load_prev listelm m;
     m \<leftarrow> store_prev elm c m;
     m \<leftarrow> store (ElemCell elm) (Some listelm) m;
     c \<leftarrow> load_prev listelm m;
     m \<leftarrow> store c (Some elm) m;
     store_prev listelm (ElemCell elm) m
   }"

definition TAILQ_INSERT_AFTER :: "addr \<Rightarrow> addr \<Rightarrow> addr \<Rightarrow> tail_mem \<Rightarrow> tail_mem option" where
  "TAILQ_INSERT_AFTER h listelm elm m = do {
     n \<leftarrow> load (ElemCell listelm) m;
     m \<leftarrow> store (ElemCell elm) n m;
     m \<leftarrow> store_back h n (ElemCell elm) m;
     m \<leftarrow> store (ElemCell listelm) (Some elm) m;
     store_prev elm (ElemCell listelm) m
   }"

definition TAILQ_INSERT_TAIL :: "addr \<Rightarrow> addr \<Rightarrow> tail_mem \<Rightarrow> tail_mem option" where
  "TAILQ_INSERT_TAIL h elm m = do {
     m \<leftarrow> store (ElemCell elm) NULL m;
     m \<leftarrow> store_prev elm (lst m h) m;
     m \<leftarrow> store (lst m h) (Some elm) m;
     Some (set_lst h (ElemCell elm) m)
   }"

definition TAILQ_CONCAT :: "addr \<Rightarrow> addr \<Rightarrow> tail_mem \<Rightarrow> tail_mem option" where
  "TAILQ_CONCAT h1 h2 m =
     (case nxt m (HeadCell h2) of
        None \<Rightarrow> Some m
      | Some first2 \<Rightarrow> do {
          m \<leftarrow> store (lst m h1) (Some first2) m;
          m \<leftarrow> store_prev first2 (lst m h1) m;
          let m = set_lst h1 (lst m h2) m;
          TAILQ_INIT h2 m
        })"

definition TAILQ_REMOVE :: "addr \<Rightarrow> addr \<Rightarrow> tail_mem \<Rightarrow> tail_mem option" where
  "TAILQ_REMOVE h elm m = do {
     n \<leftarrow> load (ElemCell elm) m;
     c \<leftarrow> load_prev elm m;
     m \<leftarrow> store_back h n c m;
     store c n m
   }"

definition TAILQ_REPLACE :: "addr \<Rightarrow> addr \<Rightarrow> addr \<Rightarrow> tail_mem \<Rightarrow> tail_mem option" where
  "TAILQ_REPLACE h elm elm2 m = do {
     n \<leftarrow> load (ElemCell elm) m;
     m \<leftarrow> store (ElemCell elm2) n m;
     m \<leftarrow> store_back h n (ElemCell elm2) m;
     c \<leftarrow> load_prev elm m;
     m \<leftarrow> store_prev elm2 c m;
     store c (Some elm2) m
   }"

text \<open>\<open>TAILQ_SWAP\<close> gives each head the other's pointers, then mends what points back to the head.\<close>

definition mend_head :: "addr \<Rightarrow> tail_mem \<Rightarrow> tail_mem option" where
  "mend_head h m =
     (case nxt m (HeadCell h) of
        None \<Rightarrow> Some (set_lst h (HeadCell h) m)
      | Some first \<Rightarrow> store_prev first (HeadCell h) m)"

definition TAILQ_SWAP :: "addr \<Rightarrow> addr \<Rightarrow> tail_mem \<Rightarrow> tail_mem option" where
  "TAILQ_SWAP h1 h2 m = do {
     let swap_first = nxt m (HeadCell h1);
     let swap_last = lst m h1;
     m \<leftarrow> store (HeadCell h1) (nxt m (HeadCell h2)) m;
     let m = set_lst h1 (lst m h2) m;
     m \<leftarrow> store (HeadCell h2) swap_first m;
     let m = set_lst h2 swap_last m;
     m \<leftarrow> mend_head h1 m;
     mend_head h2 m
   }"

definition TAILQ_FIRST :: "addr \<Rightarrow> tail_mem \<Rightarrow> ptr" where
  "TAILQ_FIRST h m = nxt m (HeadCell h)"

definition TAILQ_NEXT :: "addr \<Rightarrow> tail_mem \<Rightarrow> ptr option" where
  "TAILQ_NEXT elm m = load (ElemCell elm) m"

definition TAILQ_EMPTY :: "addr \<Rightarrow> tail_mem \<Rightarrow> bool" where
  "TAILQ_EMPTY h m \<longleftrightarrow> TAILQ_FIRST h m = NULL"

text \<open>
  \<open>TAILQ_LAST\<close> and \<open>TAILQ_PREV\<close> read the cell \<open>c\<close> as a head: the word behind the first pointer of a
  head is its last pointer, the one behind a next field is the back pointer of the same element.
\<close>

definition second_word :: "cell \<Rightarrow> tail_mem \<Rightarrow> cell option" where
  "second_word c m = (case c of HeadCell h \<Rightarrow> Some (lst m h) | ElemCell a \<Rightarrow> load_prev a m)"

definition TAILQ_LAST :: "addr \<Rightarrow> tail_mem \<Rightarrow> ptr option" where
  "TAILQ_LAST h m = do { c \<leftarrow> second_word (lst m h) m; load c m }"

definition TAILQ_PREV :: "addr \<Rightarrow> tail_mem \<Rightarrow> ptr option" where
  "TAILQ_PREV elm m = do { c \<leftarrow> load_prev elm m; c \<leftarrow> second_word c m; load c m }"

definition TAILQ_FOREACH :: "('s \<Rightarrow> tail_mem) \<Rightarrow> (addr \<Rightarrow> 's \<Rightarrow> 's option) \<Rightarrow> addr \<Rightarrow> 's \<Rightarrow> 's option" where
  "TAILQ_FOREACH mem body h s = foreach (\<lambda>s a. TAILQ_NEXT a (mem s)) body (TAILQ_FIRST h (mem s)) s"

definition TAILQ_FOREACH_SAFE :: "('s \<Rightarrow> tail_mem) \<Rightarrow> (addr \<Rightarrow> 's \<Rightarrow> 's option) \<Rightarrow> addr \<Rightarrow> 's \<Rightarrow> 's option" where
  "TAILQ_FOREACH_SAFE mem body h s = foreach_safe (\<lambda>s a. TAILQ_NEXT a (mem s)) body (TAILQ_FIRST h (mem s)) s"

definition TAILQ_FOREACH_REVERSE :: "('s \<Rightarrow> tail_mem) \<Rightarrow> (addr \<Rightarrow> 's \<Rightarrow> 's option) \<Rightarrow> addr \<Rightarrow> 's \<Rightarrow> 's option" where
  "TAILQ_FOREACH_REVERSE mem body h s = do {
     last \<leftarrow> TAILQ_LAST h (mem s);
     foreach (\<lambda>s a. TAILQ_PREV a (mem s)) body last s
   }"

definition TAILQ_FOREACH_REVERSE_SAFE :: "('s \<Rightarrow> tail_mem) \<Rightarrow> (addr \<Rightarrow> 's \<Rightarrow> 's option) \<Rightarrow> addr \<Rightarrow> 's \<Rightarrow> 's option" where
  "TAILQ_FOREACH_REVERSE_SAFE mem body h s = do {
     last \<leftarrow> TAILQ_LAST h (mem s);
     foreach_safe (\<lambda>s a. TAILQ_PREV a (mem s)) body last s
   }"

section \<open>The lists of the heads\<close>

definition tailq :: "tail_mem \<Rightarrow> addr \<Rightarrow> addr list \<Rightarrow> bool" where
  "tailq m h xs \<longleftrightarrow> distinct xs \<and> (\<forall>x \<in> set xs. valid m (ElemCell x)) \<and>
     links Some (nxt m) (HeadCell h) xs \<and> nxt m (last_cell (HeadCell h) xs) = NULL \<and>
     backs (prv m) (HeadCell h) xs \<and> lst m h = last_cell (HeadCell h) xs"

lemma tailq_split:
  "tailq m h (us @ a # vs) \<longleftrightarrow> distinct (us @ a # vs) \<and> (\<forall>x \<in> set (us @ a # vs). valid m (ElemCell x)) \<and>
     links Some (nxt m) (HeadCell h) us \<and> nxt m (last_cell (HeadCell h) us) = Some a \<and>
     links Some (nxt m) (ElemCell a) vs \<and> nxt m (last_cell (ElemCell a) vs) = NULL \<and>
     backs (prv m) (HeadCell h) us \<and> prv m a = last_cell (HeadCell h) us \<and> backs (prv m) (ElemCell a) vs \<and>
     lst m h = last_cell (ElemCell a) vs"
  by (auto simp: tailq_def)

lemma tailq_last_valid: "tailq m h (us @ vs) \<Longrightarrow> valid m (last_cell (HeadCell h) us)"
  by (rule last_cell_valid) (auto simp: tailq_def)

text \<open>One lemma per macro; the list is split at the element that the macro gets.\<close>

lemma TAILQ_INIT_tailq:
  "\<exists>m'. TAILQ_INIT h m = Some m' \<and> tailq m' h [] \<and> same_outside {h} {} m m'"
  by (simp add: TAILQ_INIT_def tailq_def)

lemma TAILQ_INSERT_HEAD_tailq:
  assumes "tailq m h xs" "valid m (ElemCell e)" "e \<notin> set xs"
  shows "\<exists>m'. TAILQ_INSERT_HEAD h e m = Some m' \<and> tailq m' h (e # xs) \<and> same_outside {h} (insert e (set xs)) m m'"
  using assms by (cases xs) (auto simp: TAILQ_INSERT_HEAD_def tailq_def store_back_def)

lemma TAILQ_INSERT_BEFORE_tailq:
  assumes "tailq m h (us @ a # vs)" "valid m (ElemCell e)" "e \<notin> set (us @ a # vs)"
  shows "\<exists>m'. TAILQ_INSERT_BEFORE a e m = Some m' \<and> tailq m' h (us @ e # a # vs) \<and>
    same_outside {h} (insert e (set (us @ a # vs))) m m'"
  using assms tailq_last_valid [OF assms(1)] by (auto simp: TAILQ_INSERT_BEFORE_def tailq_split)

lemma TAILQ_INSERT_AFTER_tailq:
  assumes "tailq m h (us @ a # vs)" "valid m (ElemCell e)" "e \<notin> set (us @ a # vs)"
  shows "\<exists>m'. TAILQ_INSERT_AFTER h a e m = Some m' \<and> tailq m' h (us @ a # e # vs) \<and>
    same_outside {h} (insert e (set (us @ a # vs))) m m'"
  using assms by (cases vs) (auto simp: TAILQ_INSERT_AFTER_def tailq_split store_back_def)

lemma TAILQ_INSERT_TAIL_tailq:
  assumes "tailq m h xs" "valid m (ElemCell e)" "e \<notin> set xs"
  shows "\<exists>m'. TAILQ_INSERT_TAIL h e m = Some m' \<and> tailq m' h (xs @ [e]) \<and> same_outside {h} (insert e (set xs)) m m'"
  using assms tailq_last_valid [of m h xs "[]"] by (auto simp: TAILQ_INSERT_TAIL_def tailq_def)

lemma TAILQ_REMOVE_tailq:
  assumes "tailq m h (us @ a # vs)"
  shows "\<exists>m'. TAILQ_REMOVE h a m = Some m' \<and> tailq m' h (us @ vs) \<and> same_outside {h} (set (us @ a # vs)) m m'"
  using assms tailq_last_valid [OF assms] by (cases vs) (auto simp: TAILQ_REMOVE_def tailq_def store_back_def)

lemma TAILQ_REPLACE_tailq:
  assumes "tailq m h (us @ a # vs)" "valid m (ElemCell e)" "e \<notin> set (us @ a # vs)"
  shows "\<exists>m'. TAILQ_REPLACE h a e m = Some m' \<and> tailq m' h (us @ e # vs) \<and>
    same_outside {h} (insert e (set (us @ a # vs))) m m'"
  using assms tailq_last_valid [OF assms(1)] by (cases vs) (auto simp: TAILQ_REPLACE_def tailq_split store_back_def)

lemma TAILQ_CONCAT_tailq:
  assumes "tailq m h1 xs" "tailq m h2 ys" "set xs \<inter> set ys = {}" "h1 \<noteq> h2"
  shows "\<exists>m'. TAILQ_CONCAT h1 h2 m = Some m' \<and> tailq m' h1 (xs @ ys) \<and> tailq m' h2 [] \<and>
    same_outside {h1, h2} (set xs \<union> set ys) m m'"
  using assms tailq_last_valid [of m h1 xs "[]"]
  by (cases ys) (auto simp: TAILQ_CONCAT_def TAILQ_INIT_def tailq_def Let_def)

lemma TAILQ_SWAP_tailq:
  assumes "tailq m h1 xs" "tailq m h2 ys" "set xs \<inter> set ys = {}" "h1 \<noteq> h2"
  shows "\<exists>m'. TAILQ_SWAP h1 h2 m = Some m' \<and> tailq m' h1 ys \<and> tailq m' h2 xs \<and>
    same_outside {h1, h2} (set xs \<union> set ys) m m'"
  using assms by (cases xs; cases ys) (auto simp: TAILQ_SWAP_def mend_head_def tailq_def Let_def)

section \<open>The contract\<close>

fun TAILQ_has :: "queue_op \<Rightarrow> bool" where
  "TAILQ_has (RemoveHead h) = False"
| "TAILQ_has (RemoveHeadUntil h e) = False"
| "TAILQ_has (RemoveAfter h e) = False"
| "TAILQ_has op = True"

fun TAILQ_exec :: "queue_op \<Rightarrow> tail_mem \<Rightarrow> tail_mem option" where
  "TAILQ_exec (Init h) m = TAILQ_INIT h m"
| "TAILQ_exec (InsertHead h e) m = TAILQ_INSERT_HEAD h e m"
| "TAILQ_exec (InsertTail h e) m = TAILQ_INSERT_TAIL h e m"
| "TAILQ_exec (InsertBefore h a e) m = TAILQ_INSERT_BEFORE a e m"
| "TAILQ_exec (InsertAfter h a e) m = TAILQ_INSERT_AFTER h a e m"
| "TAILQ_exec (Remove h a) m = TAILQ_REMOVE h a m"
| "TAILQ_exec (Replace h a e) m = TAILQ_REPLACE h a e m"
| "TAILQ_exec (Concat h1 h2) m = TAILQ_CONCAT h1 h2 m"
| "TAILQ_exec (Swap h1 h2) m = TAILQ_SWAP h1 h2 m"
| "TAILQ_exec op m = None"

lemma tailq_frame:
  assumes "tailq m h xs" "same_outside hs as m m'" "h \<notin> hs" "set xs \<inter> as = {}"
  shows "tailq m' h xs"
proof -
  have "backs (prv m') (HeadCell h) xs = backs (prv m) (HeadCell h) xs"
    using assms(4) by (intro backs_cong same_outside_prv [OF assms(2)]) auto
  then show ?thesis
    using assms(1) same_outside_links [OF assms(2-4)] same_outside_valid [OF assms(2)]
      same_outside_lst [OF assms(2,3)] by (simp add: tailq_def)
qed

interpretation tail_rep: queue_rep tailq
  by unfold_locales (rule tailq_frame)

lemma TAILQ_refines:
  assumes "TAILQ_has op" "op_pre (dom (elems m)) op ls" and ok: "queues_ok tailq m ls"
  shows "\<exists>m'. TAILQ_exec op m = Some m' \<and> queues_ok tailq m' (op_spec op ls) \<and> dom (elems m') = dom (elems m)"
proof (cases op)
  case (Init h)
  then show ?thesis
    using tail_rep.init_step [OF ok TAILQ_INIT_tailq] by simp
next
  case (InsertHead h e)
  then show ?thesis
    using assms(2) TAILQ_INSERT_HEAD_tailq by (auto intro!: tail_rep.insert_step [OF ok])
next
  case (InsertTail h e)
  then show ?thesis
    using assms(2) TAILQ_INSERT_TAIL_tailq by (auto intro!: tail_rep.insert_step [OF ok])
next
  case (InsertBefore h a e)
  then obtain us vs where "list_of ls h = us @ a # vs" "a \<notin> set us"
    using assms(2) split_at [of a "list_of ls h"] by auto
  then show ?thesis
    using assms(2) InsertBefore TAILQ_INSERT_BEFORE_tailq [of m h us a vs e]
    by (auto intro!: tail_rep.insert_step [OF ok])
next
  case (InsertAfter h a e)
  then obtain us vs where "list_of ls h = us @ a # vs" "a \<notin> set us"
    using assms(2) split_at [of a "list_of ls h"] by auto
  then show ?thesis
    using assms(2) InsertAfter TAILQ_INSERT_AFTER_tailq [of m h us a vs e]
    by (auto intro!: tail_rep.insert_step [OF ok])
next
  case (Remove h a)
  then obtain us vs where "list_of ls h = us @ a # vs" "a \<notin> set us"
    using assms(2) split_at [of a "list_of ls h"] by auto
  then show ?thesis
    using assms(2) Remove TAILQ_REMOVE_tailq [of m h us a vs] by (auto intro!: tail_rep.remove_step [OF ok])
next
  case (Replace h a e)
  then obtain us vs where "list_of ls h = us @ a # vs" "a \<notin> set us"
    using assms(2) split_at [of a "list_of ls h"] by auto
  then show ?thesis
    using assms(2) Replace TAILQ_REPLACE_tailq [of m h us a vs e] by (auto intro!: tail_rep.insert_step [OF ok])
next
  case (Concat h1 h2)
  then show ?thesis
    using assms(2) TAILQ_CONCAT_tailq [of m h1 _ h2]
    by (auto intro!: tail_rep.two_step [OF ok, where F = "\<lambda>xs ys. xs @ ys" and G = "\<lambda>xs ys. []"])
next
  case (Swap h1 h2)
  then show ?thesis
    using assms(2) TAILQ_SWAP_tailq [of m h1 _ h2] by (auto intro!: tail_rep.two_step [OF ok] simp: Int_commute)
qed (use assms in auto)

interpretation tail_family: queue_family tailq TAILQ_exec TAILQ_has
  by unfold_locales (rule TAILQ_refines)

section \<open>Access and iteration\<close>

lemma tailq_LAST:
  assumes "tailq m h xs"
  shows "TAILQ_LAST h m = Some (if xs = [] then NULL else Some (last xs))"
proof (cases xs rule: rev_cases)
  case Nil
  then show ?thesis
    using assms by (simp add: tailq_def TAILQ_LAST_def second_word_def)
next
  case (snoc us a)
  then show ?thesis
    using assms tailq_last_valid [of m h us "[a]"] by (auto simp: tailq_split TAILQ_LAST_def second_word_def)
qed

lemma tailq_PREV:
  assumes "tailq m h (us @ a # vs)"
  shows "TAILQ_PREV a m = Some (if us = [] then NULL else Some (last us))"
proof (cases us rule: rev_cases)
  case Nil
  have "valid m (last_cell (ElemCell a) vs)"
    using assms by (intro last_cell_valid) (auto simp: tailq_def)
  then show ?thesis
    using assms Nil by (simp add: tailq_def TAILQ_PREV_def second_word_def)
next
  case (snoc ws b)
  then show ?thesis
    using assms tailq_last_valid [of m h ws "b # a # vs"] by (auto simp: tailq_def TAILQ_PREV_def second_word_def)
qed

lemma tailq_reverse_path:
  "tailq m h (us @ vs) \<Longrightarrow> path (\<lambda>a. TAILQ_PREV a m) (if us = [] then NULL else Some (last us)) (rev us)"
proof (induction us arbitrary: vs rule: rev_induct)
  case (snoc a us)
  then have "tailq m h (us @ a # vs)"
    by simp
  from tailq_PREV [OF this] snoc.IH [OF this] show ?case
    by simp
qed simp

lemma TAILQ_FOREACH_each:
  assumes "tailq (mem s) h xs" "\<And>a s s'. body a s = Some s' \<Longrightarrow> mem s' = mem s"
  shows "TAILQ_FOREACH mem body h s = each body xs s"
  unfolding TAILQ_FOREACH_def TAILQ_NEXT_def TAILQ_FIRST_def
  by (rule foreach_each) (use assms links_path in \<open>auto simp: tailq_def\<close>)

lemma TAILQ_FOREACH_SAFE_each:
  assumes "tailq (mem s) h xs"
    and "\<And>a s s' b. body a s = Some s' \<Longrightarrow> b \<noteq> a \<Longrightarrow> elems (mem s') b = elems (mem s) b"
  shows "TAILQ_FOREACH_SAFE mem body h s = each body xs s"
  unfolding TAILQ_FOREACH_SAFE_def TAILQ_NEXT_def TAILQ_FIRST_def
  by (rule foreach_safe_each) (use assms links_path in \<open>auto simp: tailq_def intro: load_elem_cong\<close>)

lemma TAILQ_FOREACH_REVERSE_each:
  assumes "tailq (mem s) h xs" "\<And>a s s'. body a s = Some s' \<Longrightarrow> mem s' = mem s"
  shows "TAILQ_FOREACH_REVERSE mem body h s = each body (rev xs) s"
    "TAILQ_FOREACH_REVERSE_SAFE mem body h s = each body (rev xs) s"
proof -
  have path: "path (\<lambda>a. TAILQ_PREV a (mem s)) (if xs = [] then NULL else Some (last xs)) (rev xs)"
    using tailq_reverse_path [of "mem s" h xs "[]"] assms(1) by simp
  have dist: "distinct (rev xs)"
    using assms(1) by (simp add: tailq_def)
  show "TAILQ_FOREACH_REVERSE mem body h s = each body (rev xs) s"
    using foreach_each [where nextp = "\<lambda>s a. TAILQ_PREV a (mem s)" and body = body, OF _ path] assms(2)
    by (simp add: TAILQ_FOREACH_REVERSE_def tailq_LAST [OF assms(1)])
  show "TAILQ_FOREACH_REVERSE_SAFE mem body h s = each body (rev xs) s"
    using foreach_safe_each [where nextp = "\<lambda>s a. TAILQ_PREV a (mem s)" and body = body, OF _ dist path] assms(2)
    by (simp add: TAILQ_FOREACH_REVERSE_SAFE_def tailq_LAST [OF assms(1)])
qed

end
