(* ===== verification/SimpleTailQueue.thy ===== *)
theory SimpleTailQueue
  imports QueueFamily
begin

text \<open>
  The STAILQ macros of \<open>slist/queue.h\<close>: singly-linked lists whose head also keeps the address of the
  last next field, and the proof that they keep the contract of a family.
\<close>

type_synonym stail_mem = "(tail_head, entry) qmem"

section \<open>The macros\<close>

definition STAILQ_INIT :: "addr \<Rightarrow> stail_mem \<Rightarrow> stail_mem option" where
  "STAILQ_INIT h m = do {
     m \<leftarrow> store (HeadCell h) NULL m;
     Some (set_lst h (HeadCell h) m)
   }"

text \<open>A head that is initialised statically is the one that \<open>STAILQ_INIT\<close> makes.\<close>

definition STAILQ_HEAD_INITIALIZER :: "addr \<Rightarrow> tail_head" where
  "STAILQ_HEAD_INITIALIZER h = \<lparr>q_first = NULL, q_last = HeadCell h\<rparr>"

lemma STAILQ_static: "STAILQ_INIT h m = Some (m\<lparr>heads := (heads m)(h := STAILQ_HEAD_INITIALIZER h)\<rparr>)"
  by (cases "heads m h") (simp add: STAILQ_INIT_def STAILQ_HEAD_INITIALIZER_def set_nxt_def set_lst_def)

text \<open>The macros store a next pointer \<open>n\<close> and then, if it is \<open>NULL\<close>, the head's last pointer.\<close>

definition set_last_if_end :: "addr \<Rightarrow> ptr \<Rightarrow> cell \<Rightarrow> stail_mem \<Rightarrow> stail_mem" where
  "set_last_if_end h n c m = (if n = NULL then set_lst h c m else m)"

definition STAILQ_INSERT_HEAD :: "addr \<Rightarrow> addr \<Rightarrow> stail_mem \<Rightarrow> stail_mem option" where
  "STAILQ_INSERT_HEAD h elm m = do {
     n \<leftarrow> load (HeadCell h) m;
     m \<leftarrow> store (ElemCell elm) n m;
     store (HeadCell h) (Some elm) (set_last_if_end h n (ElemCell elm) m)
   }"

definition STAILQ_INSERT_AFTER :: "addr \<Rightarrow> addr \<Rightarrow> addr \<Rightarrow> stail_mem \<Rightarrow> stail_mem option" where
  "STAILQ_INSERT_AFTER h listelm elm m = do {
     n \<leftarrow> load (ElemCell listelm) m;
     m \<leftarrow> store (ElemCell elm) n m;
     store (ElemCell listelm) (Some elm) (set_last_if_end h n (ElemCell elm) m)
   }"

definition STAILQ_INSERT_TAIL :: "addr \<Rightarrow> addr \<Rightarrow> stail_mem \<Rightarrow> stail_mem option" where
  "STAILQ_INSERT_TAIL h elm m = do {
     m \<leftarrow> store (ElemCell elm) NULL m;
     m \<leftarrow> store (lst m h) (Some elm) m;
     Some (set_lst h (ElemCell elm) m)
   }"

definition STAILQ_FIRST :: "addr \<Rightarrow> stail_mem \<Rightarrow> ptr" where
  "STAILQ_FIRST h m = nxt m (HeadCell h)"

definition STAILQ_EMPTY :: "addr \<Rightarrow> stail_mem \<Rightarrow> bool" where
  "STAILQ_EMPTY h m \<longleftrightarrow> STAILQ_FIRST h m = NULL"

definition STAILQ_NEXT :: "addr \<Rightarrow> stail_mem \<Rightarrow> ptr option" where
  "STAILQ_NEXT elm m = load (ElemCell elm) m"

definition STAILQ_CONCAT :: "addr \<Rightarrow> addr \<Rightarrow> stail_mem \<Rightarrow> stail_mem option" where
  "STAILQ_CONCAT h1 h2 m =
     (if STAILQ_EMPTY h2 m then Some m
      else do {
        m \<leftarrow> store (lst m h1) (STAILQ_FIRST h2 m) m;
        let m = set_lst h1 (lst m h2) m;
        STAILQ_INIT h2 m
      })"

text \<open>To remove from an empty list follows \<open>NULL\<close>.\<close>

definition STAILQ_REMOVE_HEAD :: "addr \<Rightarrow> stail_mem \<Rightarrow> stail_mem option" where
  "STAILQ_REMOVE_HEAD h m = do {
     first \<leftarrow> STAILQ_FIRST h m;
     n \<leftarrow> load (ElemCell first) m;
     m \<leftarrow> store (HeadCell h) n m;
     Some (set_last_if_end h n (HeadCell h) m)
   }"

definition STAILQ_REMOVE_HEAD_UNTIL :: "addr \<Rightarrow> addr \<Rightarrow> stail_mem \<Rightarrow> stail_mem option" where
  "STAILQ_REMOVE_HEAD_UNTIL h elm m = do {
     n \<leftarrow> STAILQ_NEXT elm m;
     m \<leftarrow> store (HeadCell h) n m;
     Some (set_last_if_end h n (HeadCell h) m)
   }"

definition STAILQ_REMOVE_AFTER :: "addr \<Rightarrow> addr \<Rightarrow> stail_mem \<Rightarrow> stail_mem option" where
  "STAILQ_REMOVE_AFTER h elm m = do {
     n \<leftarrow> STAILQ_NEXT elm m;
     b \<leftarrow> n;
     n \<leftarrow> STAILQ_NEXT b m;
     m \<leftarrow> store (ElemCell elm) n m;
     Some (set_last_if_end h n (ElemCell elm) m)
   }"

text \<open>The search of \<open>STAILQ_REMOVE\<close> for the element before \<open>elm\<close>.\<close>

partial_function (option) stailq_before :: "addr \<Rightarrow> ptr \<Rightarrow> stail_mem \<Rightarrow> addr option" where
  "stailq_before elm curelm m = do {
     a \<leftarrow> curelm;
     n \<leftarrow> STAILQ_NEXT a m;
     if n \<noteq> Some elm then stailq_before elm n m else Some a
   }"

definition STAILQ_REMOVE :: "addr \<Rightarrow> addr \<Rightarrow> stail_mem \<Rightarrow> stail_mem option" where
  "STAILQ_REMOVE h elm m =
     (if STAILQ_FIRST h m = Some elm then STAILQ_REMOVE_HEAD h m
      else do {
        curelm \<leftarrow> stailq_before elm (STAILQ_FIRST h m) m;
        n \<leftarrow> STAILQ_NEXT curelm m;
        b \<leftarrow> n;
        n \<leftarrow> STAILQ_NEXT b m;
        m \<leftarrow> store (ElemCell curelm) n m;
        Some (set_last_if_end h n (ElemCell curelm) m)
      })"

definition STAILQ_SWAP :: "addr \<Rightarrow> addr \<Rightarrow> stail_mem \<Rightarrow> stail_mem option" where
  "STAILQ_SWAP h1 h2 m = do {
     let swap_first = STAILQ_FIRST h1 m;
     let swap_last = lst m h1;
     m \<leftarrow> store (HeadCell h1) (STAILQ_FIRST h2 m) m;
     let m = set_lst h1 (lst m h2) m;
     m \<leftarrow> store (HeadCell h2) swap_first m;
     let m = set_lst h2 swap_last m;
     let m = (if STAILQ_EMPTY h1 m then set_lst h1 (HeadCell h1) m else m);
     Some (if STAILQ_EMPTY h2 m then set_lst h2 (HeadCell h2) m else m)
   }"

text \<open>The element whose next field the last pointer is the address of.\<close>

definition STAILQ_LAST :: "addr \<Rightarrow> stail_mem \<Rightarrow> ptr option" where
  "STAILQ_LAST h m =
     (if STAILQ_EMPTY h m then Some NULL
      else case lst m h of ElemCell a \<Rightarrow> Some (Some a) | HeadCell _ \<Rightarrow> None)"

definition STAILQ_FOREACH :: "('s \<Rightarrow> stail_mem) \<Rightarrow> (addr \<Rightarrow> 's \<Rightarrow> 's option) \<Rightarrow> addr \<Rightarrow> 's \<Rightarrow> 's option" where
  "STAILQ_FOREACH mem body h s = foreach (\<lambda>s a. STAILQ_NEXT a (mem s)) body (STAILQ_FIRST h (mem s)) s"

definition STAILQ_FOREACH_SAFE :: "('s \<Rightarrow> stail_mem) \<Rightarrow> (addr \<Rightarrow> 's \<Rightarrow> 's option) \<Rightarrow> addr \<Rightarrow> 's \<Rightarrow> 's option" where
  "STAILQ_FOREACH_SAFE mem body h s = foreach_safe (\<lambda>s a. STAILQ_NEXT a (mem s)) body (STAILQ_FIRST h (mem s)) s"

lemmas stailq_defs = STAILQ_FIRST_def STAILQ_EMPTY_def STAILQ_NEXT_def set_last_if_end_def Let_def

section \<open>The lists of the heads\<close>

definition stailq :: "stail_mem \<Rightarrow> addr \<Rightarrow> addr list \<Rightarrow> bool" where
  "stailq m h xs \<longleftrightarrow> distinct xs \<and> (\<forall>x \<in> set xs. valid m (ElemCell x)) \<and>
     links Some (nxt m) (HeadCell h) xs \<and> nxt m (last_cell (HeadCell h) xs) = NULL \<and>
     lst m h = last_cell (HeadCell h) xs"

lemma stailq_last_valid: "stailq m h (us @ vs) \<Longrightarrow> valid m (last_cell (HeadCell h) us)"
  by (rule last_cell_valid) (auto simp: stailq_def)

lemma STAILQ_INIT_stailq:
  "\<exists>m'. STAILQ_INIT h m = Some m' \<and> stailq m' h [] \<and> same_outside {h} {} m m'"
  by (simp add: STAILQ_INIT_def stailq_def)

lemma STAILQ_INSERT_HEAD_stailq:
  assumes "stailq m h xs" "valid m (ElemCell e)" "e \<notin> set xs"
  shows "\<exists>m'. STAILQ_INSERT_HEAD h e m = Some m' \<and> stailq m' h (e # xs) \<and> same_outside {h} (insert e (set xs)) m m'"
  using assms by (cases xs) (auto simp: STAILQ_INSERT_HEAD_def stailq_def stailq_defs)

lemma STAILQ_INSERT_AFTER_stailq:
  assumes "stailq m h (us @ a # vs)" "valid m (ElemCell e)" "e \<notin> set (us @ a # vs)"
  shows "\<exists>m'. STAILQ_INSERT_AFTER h a e m = Some m' \<and> stailq m' h (us @ a # e # vs) \<and>
    same_outside {h} (insert e (set (us @ a # vs))) m m'"
  using assms by (cases vs) (auto simp: STAILQ_INSERT_AFTER_def stailq_def stailq_defs)

lemma STAILQ_INSERT_TAIL_stailq:
  assumes "stailq m h xs" "valid m (ElemCell e)" "e \<notin> set xs"
  shows "\<exists>m'. STAILQ_INSERT_TAIL h e m = Some m' \<and> stailq m' h (xs @ [e]) \<and> same_outside {h} (insert e (set xs)) m m'"
  using assms stailq_last_valid [of m h xs "[]"] by (auto simp: STAILQ_INSERT_TAIL_def stailq_def)

lemma STAILQ_CONCAT_stailq:
  assumes "stailq m h1 xs" "stailq m h2 ys" "set xs \<inter> set ys = {}" "h1 \<noteq> h2"
  shows "\<exists>m'. STAILQ_CONCAT h1 h2 m = Some m' \<and> stailq m' h1 (xs @ ys) \<and> stailq m' h2 [] \<and>
    same_outside {h1, h2} (set xs \<union> set ys) m m'"
  using assms stailq_last_valid [of m h1 xs "[]"]
  by (cases ys) (auto simp: STAILQ_CONCAT_def STAILQ_INIT_def stailq_def stailq_defs)

lemma STAILQ_REMOVE_HEAD_stailq:
  assumes "stailq m h (a # vs)"
  shows "\<exists>m'. STAILQ_REMOVE_HEAD h m = Some m' \<and> stailq m' h vs \<and> same_outside {h} (set (a # vs)) m m'"
  using assms by (cases vs) (auto simp: STAILQ_REMOVE_HEAD_def stailq_def stailq_defs)

lemma STAILQ_REMOVE_HEAD_UNTIL_stailq:
  assumes "stailq m h (us @ a # vs)"
  shows "\<exists>m'. STAILQ_REMOVE_HEAD_UNTIL h a m = Some m' \<and> stailq m' h vs \<and> same_outside {h} (set (us @ a # vs)) m m'"
  using assms by (cases vs) (auto simp: STAILQ_REMOVE_HEAD_UNTIL_def stailq_def stailq_defs)

lemma STAILQ_REMOVE_AFTER_stailq:
  assumes "stailq m h (us @ a # b # vs)"
  shows "\<exists>m'. STAILQ_REMOVE_AFTER h a m = Some m' \<and> stailq m' h (us @ a # vs) \<and>
    same_outside {h} (set (us @ a # b # vs)) m m'"
  using assms by (cases vs) (auto simp: STAILQ_REMOVE_AFTER_def stailq_def stailq_defs)

lemma stailq_before_finds:
  "links Some (nxt m) c (us @ a # b # vs) \<Longrightarrow> distinct (us @ a # b # vs) \<Longrightarrow>
   \<forall>x \<in> set (us @ a # b # vs). valid m (ElemCell x) \<Longrightarrow> stailq_before b (nxt m c) m = Some a"
proof (induction us arbitrary: c)
  case Nil
  then show ?case
    by (subst stailq_before.simps) (simp add: STAILQ_NEXT_def)
next
  case (Cons u us)
  have "nxt m (ElemCell u) \<noteq> Some b"
    using Cons.prems by (cases us) auto
  moreover have "stailq_before b (nxt m (ElemCell u)) m = Some a"
    using Cons.IH [of "ElemCell u"] Cons.prems by simp
  ultimately show ?case
    using Cons.prems by (subst stailq_before.simps) (simp add: STAILQ_NEXT_def)
qed

lemma STAILQ_REMOVE_stailq:
  assumes "stailq m h (us @ a # vs)"
  shows "\<exists>m'. STAILQ_REMOVE h a m = Some m' \<and> stailq m' h (us @ vs) \<and> same_outside {h} (set (us @ a # vs)) m m'"
proof (cases us rule: rev_cases)
  case Nil
  then show ?thesis
    using assms STAILQ_REMOVE_HEAD_stailq [of m h a vs] by (auto simp: STAILQ_REMOVE_def stailq_def stailq_defs)
next
  case (snoc ws b)
  have "stailq_before a (nxt m (HeadCell h)) m = Some b"
    using stailq_before_finds [of m "HeadCell h" ws b a vs] assms snoc by (auto simp: stailq_def)
  moreover have "nxt m (HeadCell h) \<noteq> Some a"
    using assms snoc by (cases ws) (auto simp: stailq_def)
  ultimately have "STAILQ_REMOVE h a m = STAILQ_REMOVE_AFTER h b m"
    by (simp add: STAILQ_REMOVE_def STAILQ_REMOVE_AFTER_def STAILQ_FIRST_def)
  then show ?thesis
    using STAILQ_REMOVE_AFTER_stailq [of m h ws b a vs] assms snoc by simp
qed

lemma STAILQ_SWAP_stailq:
  assumes "stailq m h1 xs" "stailq m h2 ys" "set xs \<inter> set ys = {}" "h1 \<noteq> h2"
  shows "\<exists>m'. STAILQ_SWAP h1 h2 m = Some m' \<and> stailq m' h1 ys \<and> stailq m' h2 xs \<and>
    same_outside {h1, h2} (set xs \<union> set ys) m m'"
  using assms by (cases xs; cases ys) (auto simp: STAILQ_SWAP_def stailq_def stailq_defs)

section \<open>The contract\<close>

fun STAILQ_has :: "queue_op \<Rightarrow> bool" where
  "STAILQ_has (InsertBefore h a e) = False"
| "STAILQ_has (Replace h a e) = False"
| "STAILQ_has op = True"

fun STAILQ_exec :: "queue_op \<Rightarrow> stail_mem \<Rightarrow> stail_mem option" where
  "STAILQ_exec (Init h) m = STAILQ_INIT h m"
| "STAILQ_exec (InsertHead h e) m = STAILQ_INSERT_HEAD h e m"
| "STAILQ_exec (InsertTail h e) m = STAILQ_INSERT_TAIL h e m"
| "STAILQ_exec (InsertAfter h a e) m = STAILQ_INSERT_AFTER h a e m"
| "STAILQ_exec (RemoveHead h) m = STAILQ_REMOVE_HEAD h m"
| "STAILQ_exec (RemoveHeadUntil h a) m = STAILQ_REMOVE_HEAD_UNTIL h a m"
| "STAILQ_exec (RemoveAfter h a) m = STAILQ_REMOVE_AFTER h a m"
| "STAILQ_exec (Remove h a) m = STAILQ_REMOVE h a m"
| "STAILQ_exec (Concat h1 h2) m = STAILQ_CONCAT h1 h2 m"
| "STAILQ_exec (Swap h1 h2) m = STAILQ_SWAP h1 h2 m"
| "STAILQ_exec op m = None"

lemma stailq_frame:
  assumes "stailq m h xs" "same_outside hs as m m'" "h \<notin> hs" "set xs \<inter> as = {}"
  shows "stailq m' h xs"
  using assms(1) same_outside_links [OF assms(2-4)] same_outside_valid [OF assms(2)] same_outside_lst [OF assms(2,3)]
  by (simp add: stailq_def)

interpretation stail_rep: queue_rep stailq
  by unfold_locales (rule stailq_frame)

lemma STAILQ_refines:
  assumes "STAILQ_has op" "op_pre (dom (elems m)) op ls" and ok: "queues_ok stailq m ls"
  shows "\<exists>m'. STAILQ_exec op m = Some m' \<and> queues_ok stailq m' (op_spec op ls) \<and> dom (elems m') = dom (elems m)"
proof (cases op)
  case (Init h)
  then show ?thesis
    using stail_rep.init_step [OF ok STAILQ_INIT_stailq] by simp
next
  case (InsertHead h e)
  then show ?thesis
    using assms(2) STAILQ_INSERT_HEAD_stailq by (auto intro!: stail_rep.insert_step [OF ok])
next
  case (InsertTail h e)
  then show ?thesis
    using assms(2) STAILQ_INSERT_TAIL_stailq by (auto intro!: stail_rep.insert_step [OF ok])
next
  case (InsertAfter h a e)
  then obtain us vs where "list_of ls h = us @ a # vs" "a \<notin> set us"
    using assms(2) split_at [of a "list_of ls h"] by auto
  then show ?thesis
    using assms(2) InsertAfter STAILQ_INSERT_AFTER_stailq [of m h us a vs e]
    by (auto intro!: stail_rep.insert_step [OF ok])
next
  case (RemoveHead h)
  then obtain a vs where "list_of ls h = a # vs"
    using assms(2) by (cases "list_of ls h") auto
  then show ?thesis
    using assms(2) RemoveHead STAILQ_REMOVE_HEAD_stailq [of m h a vs] by (auto intro!: stail_rep.remove_step [OF ok])
next
  case (RemoveHeadUntil h a)
  then obtain us vs where "list_of ls h = us @ a # vs" "a \<notin> set us"
    using assms(2) split_at [of a "list_of ls h"] by auto
  then show ?thesis
    using assms(2) RemoveHeadUntil STAILQ_REMOVE_HEAD_UNTIL_stailq [of m h us a vs]
    by (auto intro!: stail_rep.remove_step [OF ok])
next
  case (RemoveAfter h a)
  then have mem: "a \<in> set (butlast (list_of ls h))"
    using assms(2) by simp
  then obtain us ws where us: "butlast (list_of ls h) = us @ a # ws" "a \<notin> set us"
    by (rule split_at)
  then have "list_of ls h = us @ a # ws @ [last (list_of ls h)]"
    using mem append_butlast_last_id [of "list_of ls h"] by (metis append.assoc append_Cons butlast.simps(1) empty_iff empty_set)
  then obtain b vs where "list_of ls h = us @ a # b # vs"
    by (cases ws) auto
  then show ?thesis
    using us(2) assms(2) RemoveAfter STAILQ_REMOVE_AFTER_stailq [of m h us a b vs]
    by (auto intro!: stail_rep.remove_step [OF ok])
next
  case (Remove h a)
  then obtain us vs where "list_of ls h = us @ a # vs" "a \<notin> set us"
    using assms(2) split_at [of a "list_of ls h"] by auto
  then show ?thesis
    using assms(2) Remove STAILQ_REMOVE_stailq [of m h us a vs] by (auto intro!: stail_rep.remove_step [OF ok])
next
  case (Concat h1 h2)
  then show ?thesis
    using assms(2) STAILQ_CONCAT_stailq [of m h1 _ h2]
    by (auto intro!: stail_rep.two_step [OF ok, where F = "\<lambda>xs ys. xs @ ys" and G = "\<lambda>xs ys. []"])
next
  case (Swap h1 h2)
  then show ?thesis
    using assms(2) STAILQ_SWAP_stailq [of m h1 _ h2] by (auto intro!: stail_rep.two_step [OF ok] simp: Int_commute)
qed (use assms in auto)

interpretation stail_family: queue_family stailq STAILQ_exec STAILQ_has
  by unfold_locales (rule STAILQ_refines)

section \<open>Access and iteration\<close>

lemma stailq_LAST: "stailq m h xs \<Longrightarrow> STAILQ_LAST h m = Some (if xs = [] then NULL else Some (last xs))"
  by (cases xs) (auto simp: stailq_def STAILQ_LAST_def stailq_defs last_cell_def)

lemma STAILQ_FOREACH_each:
  assumes "stailq (mem s) h xs" "\<And>a s s'. body a s = Some s' \<Longrightarrow> mem s' = mem s"
  shows "STAILQ_FOREACH mem body h s = each body xs s"
  unfolding STAILQ_FOREACH_def STAILQ_NEXT_def STAILQ_FIRST_def
  by (rule foreach_each) (use assms links_path in \<open>auto simp: stailq_def\<close>)

lemma STAILQ_FOREACH_SAFE_each:
  assumes "stailq (mem s) h xs"
    and "\<And>a s s' b. body a s = Some s' \<Longrightarrow> b \<noteq> a \<Longrightarrow> elems (mem s') b = elems (mem s) b"
  shows "STAILQ_FOREACH_SAFE mem body h s = each body xs s"
  unfolding STAILQ_FOREACH_SAFE_def STAILQ_NEXT_def STAILQ_FIRST_def
  by (rule foreach_safe_each) (use assms links_path in \<open>auto simp: stailq_def intro: load_elem_cong\<close>)

end
