(* ===== verification/CircleQueue.thy ===== *)
theory CircleQueue
  imports QueueFamily
begin

text \<open>
  The CIRCLEQ macros of \<open>slist/queue.h\<close>: doubly-linked circular lists through the head, whose
  pointers are to an element or, as \<open>void *\<close>, to the head, and the proof that they keep the
  contract of a family. \<open>CIRCLEQ_REPLACE\<close> and \<open>CIRCLEQ_FOREACH_REVERSE_SAFE\<close> do not compile for
  any argument and have no model.
\<close>

section \<open>Memory\<close>

record circ_head =
  cqh_first :: cell
  cqh_last :: cell

record circ_entry =
  cqe_next :: cell
  cqe_prev :: cell

type_synonym circ_mem = "(circ_head, circ_entry) qmem"

definition circ_next :: "circ_mem \<Rightarrow> cell \<Rightarrow> cell" where
  "circ_next m c = (case c of HeadCell h \<Rightarrow> cqh_first (heads m h) | ElemCell a \<Rightarrow> cqe_next (the (elems m a)))"

definition circ_prev :: "circ_mem \<Rightarrow> addr \<Rightarrow> cell" where
  "circ_prev m a = cqe_prev (the (elems m a))"

definition circ_last :: "circ_mem \<Rightarrow> addr \<Rightarrow> cell" where
  "circ_last m h = cqh_last (heads m h)"

definition set_circ_next :: "cell \<Rightarrow> cell \<Rightarrow> circ_mem \<Rightarrow> circ_mem" where
  "set_circ_next c p m =
     (case c of
        HeadCell h \<Rightarrow> m\<lparr>heads := (heads m)(h := (heads m h)\<lparr>cqh_first := p\<rparr>)\<rparr>
      | ElemCell a \<Rightarrow> m\<lparr>elems := (elems m)(a \<mapsto> (the (elems m a))\<lparr>cqe_next := p\<rparr>)\<rparr>)"

definition set_circ_prev :: "addr \<Rightarrow> cell \<Rightarrow> circ_mem \<Rightarrow> circ_mem" where
  "set_circ_prev a p m = m\<lparr>elems := (elems m)(a \<mapsto> (the (elems m a))\<lparr>cqe_prev := p\<rparr>)\<rparr>"

definition set_circ_last :: "addr \<Rightarrow> cell \<Rightarrow> circ_mem \<Rightarrow> circ_mem" where
  "set_circ_last h p m = m\<lparr>heads := (heads m)(h := (heads m h)\<lparr>cqh_last := p\<rparr>)\<rparr>"

lemma circ_simps [simp]:
  "circ_next (set_circ_next c p m) = (circ_next m)(c := p)"
  "circ_next (set_circ_prev a p m) = circ_next m"
  "circ_next (set_circ_last h p m) = circ_next m"
  "circ_prev (set_circ_next c p m) = circ_prev m"
  "circ_prev (set_circ_prev a p m) = (circ_prev m)(a := p)"
  "circ_prev (set_circ_last h p m) = circ_prev m"
  "circ_last (set_circ_next c p m) = circ_last m"
  "circ_last (set_circ_prev a p m) = circ_last m"
  "circ_last (set_circ_last h p m) = (circ_last m)(h := p)"
  by (auto simp: circ_next_def circ_prev_def circ_last_def set_circ_next_def set_circ_prev_def set_circ_last_def
      fun_eq_iff split: cell.splits)

lemma circ_valid_simps [simp]:
  "valid m d \<Longrightarrow> valid (set_circ_next c p m) d"
  "valid m d \<Longrightarrow> valid (set_circ_prev a p m) d"
  "valid (set_circ_last h p m) d = valid m d"
  by (auto simp: valid_def set_circ_next_def set_circ_prev_def set_circ_last_def split: cell.splits)

lemma circ_outside [simp]:
  "same_outside hs as m m1 \<Longrightarrow> h \<in> hs \<Longrightarrow> same_outside hs as m (set_circ_next (HeadCell h) p m1)"
  "same_outside hs as m m1 \<Longrightarrow> a \<in> as \<Longrightarrow> valid m (ElemCell a) \<Longrightarrow> same_outside hs as m (set_circ_next (ElemCell a) p m1)"
  "same_outside hs as m m1 \<Longrightarrow> a \<in> as \<Longrightarrow> valid m (ElemCell a) \<Longrightarrow> same_outside hs as m (set_circ_prev a p m1)"
  "same_outside hs as m m1 \<Longrightarrow> h \<in> hs \<Longrightarrow> same_outside hs as m (set_circ_last h p m1)"
  by (auto simp: same_outside_def set_circ_next_def set_circ_prev_def set_circ_last_def valid_def)

lemma circ_outside_last [simp]:
  "same_outside hs as m m1 \<Longrightarrow> h \<in> hs \<Longrightarrow> (\<forall>x \<in> set us. x \<in> as \<and> valid m (ElemCell x)) \<Longrightarrow>
   same_outside hs as m (set_circ_next (last_cell (HeadCell h) us) p m1)"
  using last_cell_cases [of "HeadCell h" us] by auto

section \<open>The macros\<close>

text \<open>Access to an element's fields; a pointer to a head is no element.\<close>

definition get_next :: "addr \<Rightarrow> circ_mem \<Rightarrow> cell option" where
  "get_next a m = (if valid m (ElemCell a) then Some (circ_next m (ElemCell a)) else None)"

definition get_prev :: "addr \<Rightarrow> circ_mem \<Rightarrow> cell option" where
  "get_prev a m = (if valid m (ElemCell a) then Some (circ_prev m a) else None)"

definition put_next :: "cell \<Rightarrow> cell \<Rightarrow> circ_mem \<Rightarrow> circ_mem option" where
  "put_next c p m = (case c of
       HeadCell _ \<Rightarrow> None
     | ElemCell a \<Rightarrow> if valid m c then Some (set_circ_next c p m) else None)"

definition put_prev :: "cell \<Rightarrow> cell \<Rightarrow> circ_mem \<Rightarrow> circ_mem option" where
  "put_prev c p m = (case c of
       HeadCell _ \<Rightarrow> None
     | ElemCell a \<Rightarrow> if valid m c then Some (set_circ_prev a p m) else None)"

definition CIRCLEQ_INIT :: "addr \<Rightarrow> circ_mem \<Rightarrow> circ_mem option" where
  "CIRCLEQ_INIT h m = Some (set_circ_last h (HeadCell h) (set_circ_next (HeadCell h) (HeadCell h) m))"

text \<open>A head that is initialised statically is the one that \<open>CIRCLEQ_INIT\<close> makes.\<close>

definition CIRCLEQ_HEAD_INITIALIZER :: "addr \<Rightarrow> circ_head" where
  "CIRCLEQ_HEAD_INITIALIZER h = \<lparr>cqh_first = HeadCell h, cqh_last = HeadCell h\<rparr>"

lemma CIRCLEQ_static: "CIRCLEQ_INIT h m = Some (m\<lparr>heads := (heads m)(h := CIRCLEQ_HEAD_INITIALIZER h)\<rparr>)"
  by (cases "heads m h") (simp add: CIRCLEQ_INIT_def CIRCLEQ_HEAD_INITIALIZER_def set_circ_next_def set_circ_last_def)

definition CIRCLEQ_INSERT_HEAD :: "addr \<Rightarrow> addr \<Rightarrow> circ_mem \<Rightarrow> circ_mem option" where
  "CIRCLEQ_INSERT_HEAD h elm m = do {
     m \<leftarrow> put_next (ElemCell elm) (circ_next m (HeadCell h)) m;
     m \<leftarrow> put_prev (ElemCell elm) (HeadCell h) m;
     m \<leftarrow> (if circ_last m h = HeadCell h then Some (set_circ_last h (ElemCell elm) m)
          else put_prev (circ_next m (HeadCell h)) (ElemCell elm) m);
     Some (set_circ_next (HeadCell h) (ElemCell elm) m)
   }"

definition CIRCLEQ_INSERT_BEFORE :: "addr \<Rightarrow> addr \<Rightarrow> addr \<Rightarrow> circ_mem \<Rightarrow> circ_mem option" where
  "CIRCLEQ_INSERT_BEFORE h listelm elm m = do {
     m \<leftarrow> put_next (ElemCell elm) (ElemCell listelm) m;
     p \<leftarrow> get_prev listelm m;
     m \<leftarrow> put_prev (ElemCell elm) p m;
     p \<leftarrow> get_prev listelm m;
     m \<leftarrow> (if p = HeadCell h then Some (set_circ_next (HeadCell h) (ElemCell elm) m)
          else put_next p (ElemCell elm) m);
     put_prev (ElemCell listelm) (ElemCell elm) m
   }"

definition CIRCLEQ_INSERT_AFTER :: "addr \<Rightarrow> addr \<Rightarrow> addr \<Rightarrow> circ_mem \<Rightarrow> circ_mem option" where
  "CIRCLEQ_INSERT_AFTER h listelm elm m = do {
     n \<leftarrow> get_next listelm m;
     m \<leftarrow> put_next (ElemCell elm) n m;
     m \<leftarrow> put_prev (ElemCell elm) (ElemCell listelm) m;
     n \<leftarrow> get_next listelm m;
     m \<leftarrow> (if n = HeadCell h then Some (set_circ_last h (ElemCell elm) m)
          else put_prev n (ElemCell elm) m);
     put_next (ElemCell listelm) (ElemCell elm) m
   }"

definition CIRCLEQ_INSERT_TAIL :: "addr \<Rightarrow> addr \<Rightarrow> circ_mem \<Rightarrow> circ_mem option" where
  "CIRCLEQ_INSERT_TAIL h elm m = do {
     m \<leftarrow> put_next (ElemCell elm) (HeadCell h) m;
     m \<leftarrow> put_prev (ElemCell elm) (circ_last m h) m;
     m \<leftarrow> (if circ_next m (HeadCell h) = HeadCell h then Some (set_circ_next (HeadCell h) (ElemCell elm) m)
          else put_next (circ_last m h) (ElemCell elm) m);
     Some (set_circ_last h (ElemCell elm) m)
   }"

definition CIRCLEQ_REMOVE :: "addr \<Rightarrow> addr \<Rightarrow> circ_mem \<Rightarrow> circ_mem option" where
  "CIRCLEQ_REMOVE h elm m = do {
     n \<leftarrow> get_next elm m;
     p \<leftarrow> get_prev elm m;
     m \<leftarrow> (if n = HeadCell h then Some (set_circ_last h p m) else put_prev n p m);
     n \<leftarrow> get_next elm m;
     p \<leftarrow> get_prev elm m;
     if p = HeadCell h then Some (set_circ_next (HeadCell h) n m) else put_next p n m
   }"

definition CIRCLEQ_FIRST :: "addr \<Rightarrow> circ_mem \<Rightarrow> cell" where
  "CIRCLEQ_FIRST h m = circ_next m (HeadCell h)"

definition CIRCLEQ_LAST :: "addr \<Rightarrow> circ_mem \<Rightarrow> cell" where
  "CIRCLEQ_LAST h m = circ_last m h"

definition CIRCLEQ_EMPTY :: "addr \<Rightarrow> circ_mem \<Rightarrow> bool" where
  "CIRCLEQ_EMPTY h m \<longleftrightarrow> CIRCLEQ_FIRST h m = HeadCell h"

definition CIRCLEQ_LOOP_NEXT :: "addr \<Rightarrow> addr \<Rightarrow> circ_mem \<Rightarrow> cell option" where
  "CIRCLEQ_LOOP_NEXT h elm m = do {
     n \<leftarrow> get_next elm m;
     Some (if n = HeadCell h then circ_next m (HeadCell h) else n)
   }"

definition CIRCLEQ_LOOP_PREV :: "addr \<Rightarrow> addr \<Rightarrow> circ_mem \<Rightarrow> cell option" where
  "CIRCLEQ_LOOP_PREV h elm m = do {
     p \<leftarrow> get_prev elm m;
     Some (if p = HeadCell h then circ_last m h else p)
   }"

text \<open>The loops end when the variable is the head; another head is no element.\<close>

definition loop_var :: "addr \<Rightarrow> cell \<Rightarrow> ptr option" where
  "loop_var h c = (case c of
       HeadCell h' \<Rightarrow> if h' = h then Some NULL else None
     | ElemCell a \<Rightarrow> Some (Some a))"

definition CIRCLEQ_FOREACH :: "('s \<Rightarrow> circ_mem) \<Rightarrow> (addr \<Rightarrow> 's \<Rightarrow> 's option) \<Rightarrow> addr \<Rightarrow> 's \<Rightarrow> 's option" where
  "CIRCLEQ_FOREACH mem body h s = do {
     var \<leftarrow> loop_var h (CIRCLEQ_FIRST h (mem s));
     foreach (\<lambda>s a. get_next a (mem s) \<bind> loop_var h) body var s
   }"

definition CIRCLEQ_FOREACH_SAFE :: "('s \<Rightarrow> circ_mem) \<Rightarrow> (addr \<Rightarrow> 's \<Rightarrow> 's option) \<Rightarrow> addr \<Rightarrow> 's \<Rightarrow> 's option" where
  "CIRCLEQ_FOREACH_SAFE mem body h s = do {
     var \<leftarrow> loop_var h (CIRCLEQ_FIRST h (mem s));
     foreach_safe (\<lambda>s a. get_next a (mem s) \<bind> loop_var h) body var s
   }"

definition CIRCLEQ_FOREACH_REVERSE :: "('s \<Rightarrow> circ_mem) \<Rightarrow> (addr \<Rightarrow> 's \<Rightarrow> 's option) \<Rightarrow> addr \<Rightarrow> 's \<Rightarrow> 's option" where
  "CIRCLEQ_FOREACH_REVERSE mem body h s = do {
     var \<leftarrow> loop_var h (CIRCLEQ_LAST h (mem s));
     foreach (\<lambda>s a. get_prev a (mem s) \<bind> loop_var h) body var s
   }"

lemma circ_access [simp]:
  "valid m (ElemCell a) \<Longrightarrow> get_next a m = Some (circ_next m (ElemCell a))"
  "valid m (ElemCell a) \<Longrightarrow> get_prev a m = Some (circ_prev m a)"
  "valid m (ElemCell a) \<Longrightarrow> put_next (ElemCell a) p m = Some (set_circ_next (ElemCell a) p m)"
  "valid m (ElemCell a) \<Longrightarrow> put_prev (ElemCell a) p m = Some (set_circ_prev a p m)"
  by (simp_all add: get_next_def get_prev_def put_next_def put_prev_def)

section \<open>The lists of the heads\<close>

definition circq :: "circ_mem \<Rightarrow> addr \<Rightarrow> addr list \<Rightarrow> bool" where
  "circq m h xs \<longleftrightarrow> distinct xs \<and> (\<forall>x \<in> set xs. valid m (ElemCell x)) \<and>
     links ElemCell (circ_next m) (HeadCell h) xs \<and> circ_next m (last_cell (HeadCell h) xs) = HeadCell h \<and>
     backs (circ_prev m) (HeadCell h) xs \<and> circ_last m h = last_cell (HeadCell h) xs"

text \<open>The store through the back pointer of an element in the list.\<close>

lemma put_next_last [simp]:
  "\<forall>x \<in> set us. valid m (ElemCell x) \<Longrightarrow>
   (if last_cell (HeadCell h) us = HeadCell h then Some (set_circ_next (HeadCell h) p m)
    else put_next (last_cell (HeadCell h) us) p m) = Some (set_circ_next (last_cell (HeadCell h) us) p m)"
  by (simp add: last_cell_def)

lemma CIRCLEQ_INIT_circq:
  "\<exists>m'. CIRCLEQ_INIT h m = Some m' \<and> circq m' h [] \<and> same_outside {h} {} m m'"
  by (simp add: CIRCLEQ_INIT_def circq_def)

lemma CIRCLEQ_INSERT_HEAD_circq:
  assumes "circq m h xs" "valid m (ElemCell e)" "e \<notin> set xs"
  shows "\<exists>m'. CIRCLEQ_INSERT_HEAD h e m = Some m' \<and> circq m' h (e # xs) \<and> same_outside {h} (insert e (set xs)) m m'"
  using assms by (cases xs) (auto simp: CIRCLEQ_INSERT_HEAD_def circq_def)

lemma CIRCLEQ_INSERT_BEFORE_circq:
  assumes "circq m h (us @ a # vs)" "valid m (ElemCell e)" "e \<notin> set (us @ a # vs)"
  shows "\<exists>m'. CIRCLEQ_INSERT_BEFORE h a e m = Some m' \<and> circq m' h (us @ e # a # vs) \<and>
    same_outside {h} (insert e (set (us @ a # vs))) m m'"
  using assms by (auto simp: CIRCLEQ_INSERT_BEFORE_def circq_def)

lemma CIRCLEQ_INSERT_AFTER_circq:
  assumes "circq m h (us @ a # vs)" "valid m (ElemCell e)" "e \<notin> set (us @ a # vs)"
  shows "\<exists>m'. CIRCLEQ_INSERT_AFTER h a e m = Some m' \<and> circq m' h (us @ a # e # vs) \<and>
    same_outside {h} (insert e (set (us @ a # vs))) m m'"
  using assms by (cases vs) (auto simp: CIRCLEQ_INSERT_AFTER_def circq_def)

lemma CIRCLEQ_INSERT_TAIL_circq:
  assumes "circq m h xs" "valid m (ElemCell e)" "e \<notin> set xs"
  shows "\<exists>m'. CIRCLEQ_INSERT_TAIL h e m = Some m' \<and> circq m' h (xs @ [e]) \<and> same_outside {h} (insert e (set xs)) m m'"
proof (cases xs rule: rev_cases)
  case Nil
  then show ?thesis
    using assms by (auto simp: CIRCLEQ_INSERT_TAIL_def circq_def)
next
  case (snoc ys y)
  have "circ_next m (HeadCell h) \<noteq> HeadCell h"
    using assms(1) snoc by (cases ys) (auto simp: circq_def)
  then show ?thesis
    using assms snoc by (auto simp: CIRCLEQ_INSERT_TAIL_def circq_def)
qed

lemma CIRCLEQ_REMOVE_circq:
  assumes "circq m h (us @ a # vs)"
  shows "\<exists>m'. CIRCLEQ_REMOVE h a m = Some m' \<and> circq m' h (us @ vs) \<and> same_outside {h} (set (us @ a # vs)) m m'"
  using assms by (cases vs) (auto simp: CIRCLEQ_REMOVE_def circq_def)

section \<open>The contract\<close>

fun CIRCLEQ_has :: "queue_op \<Rightarrow> bool" where
  "CIRCLEQ_has (Init h) = True"
| "CIRCLEQ_has (InsertHead h e) = True"
| "CIRCLEQ_has (InsertTail h e) = True"
| "CIRCLEQ_has (InsertBefore h a e) = True"
| "CIRCLEQ_has (InsertAfter h a e) = True"
| "CIRCLEQ_has (Remove h a) = True"
| "CIRCLEQ_has op = False"

fun CIRCLEQ_exec :: "queue_op \<Rightarrow> circ_mem \<Rightarrow> circ_mem option" where
  "CIRCLEQ_exec (Init h) m = CIRCLEQ_INIT h m"
| "CIRCLEQ_exec (InsertHead h e) m = CIRCLEQ_INSERT_HEAD h e m"
| "CIRCLEQ_exec (InsertTail h e) m = CIRCLEQ_INSERT_TAIL h e m"
| "CIRCLEQ_exec (InsertBefore h a e) m = CIRCLEQ_INSERT_BEFORE h a e m"
| "CIRCLEQ_exec (InsertAfter h a e) m = CIRCLEQ_INSERT_AFTER h a e m"
| "CIRCLEQ_exec (Remove h a) m = CIRCLEQ_REMOVE h a m"
| "CIRCLEQ_exec op m = None"

lemma circq_frame:
  assumes "circq m h xs" "same_outside hs as m m'" "h \<notin> hs" "set xs \<inter> as = {}"
  shows "circq m' h xs"
proof -
  have next_eq: "circ_next m' (HeadCell h) = circ_next m (HeadCell h)"
    "\<And>x. x \<in> set xs \<Longrightarrow> circ_next m' (ElemCell x) = circ_next m (ElemCell x)"
    using assms(2-4) by (auto simp: same_outside_def circ_next_def)
  then have "links ElemCell (circ_next m') (HeadCell h) xs = links ElemCell (circ_next m) (HeadCell h) xs"
    by (intro links_cong) auto
  moreover have "circ_next m' (last_cell (HeadCell h) xs) = circ_next m (last_cell (HeadCell h) xs)"
    using next_eq last_cell_cases [of "HeadCell h" xs] by auto
  moreover have "backs (circ_prev m') (HeadCell h) xs = backs (circ_prev m) (HeadCell h) xs"
    using assms(2,4) by (intro backs_cong) (auto simp: same_outside_def circ_prev_def)
  moreover have "circ_last m' h = circ_last m h"
    using assms(2,3) by (simp add: same_outside_def circ_last_def)
  ultimately show ?thesis
    using assms(1) same_outside_valid [OF assms(2)] by (simp add: circq_def)
qed

interpretation circ_rep: queue_rep circq
  by unfold_locales (rule circq_frame)

lemma CIRCLEQ_refines:
  assumes "CIRCLEQ_has op" "op_pre (dom (elems m)) op ls" and ok: "queues_ok circq m ls"
  shows "\<exists>m'. CIRCLEQ_exec op m = Some m' \<and> queues_ok circq m' (op_spec op ls) \<and> dom (elems m') = dom (elems m)"
proof (cases op)
  case (Init h)
  then show ?thesis
    using circ_rep.init_step [OF ok CIRCLEQ_INIT_circq] by simp
next
  case (InsertHead h e)
  then show ?thesis
    using assms(2) CIRCLEQ_INSERT_HEAD_circq by (auto intro!: circ_rep.insert_step [OF ok])
next
  case (InsertTail h e)
  then show ?thesis
    using assms(2) CIRCLEQ_INSERT_TAIL_circq by (auto intro!: circ_rep.insert_step [OF ok])
next
  case (InsertBefore h a e)
  then obtain us vs where "list_of ls h = us @ a # vs" "a \<notin> set us"
    using assms(2) split_at [of a "list_of ls h"] by auto
  then show ?thesis
    using assms(2) InsertBefore CIRCLEQ_INSERT_BEFORE_circq [of m h us a vs e]
    by (auto intro!: circ_rep.insert_step [OF ok])
next
  case (InsertAfter h a e)
  then obtain us vs where "list_of ls h = us @ a # vs" "a \<notin> set us"
    using assms(2) split_at [of a "list_of ls h"] by auto
  then show ?thesis
    using assms(2) InsertAfter CIRCLEQ_INSERT_AFTER_circq [of m h us a vs e]
    by (auto intro!: circ_rep.insert_step [OF ok])
next
  case (Remove h a)
  then obtain us vs where "list_of ls h = us @ a # vs" "a \<notin> set us"
    using assms(2) split_at [of a "list_of ls h"] by auto
  then show ?thesis
    using assms(2) Remove CIRCLEQ_REMOVE_circq [of m h us a vs] by (auto intro!: circ_rep.remove_step [OF ok])
qed (use assms in auto)

interpretation circ_family: queue_family circq CIRCLEQ_exec CIRCLEQ_has
  by unfold_locales (rule CIRCLEQ_refines)

section \<open>Access and iteration\<close>

text \<open>The neighbours on the circle.\<close>

lemma circq_neighbours:
  assumes "circq m h (us @ a # vs)"
  shows "CIRCLEQ_LOOP_NEXT h a m = Some (ElemCell (hd (vs @ us @ [a])))"
    and "CIRCLEQ_LOOP_PREV h a m = Some (ElemCell (last (a # vs @ us)))"
proof -
  show "CIRCLEQ_LOOP_NEXT h a m = Some (ElemCell (hd (vs @ us @ [a])))"
    using assms by (cases us; cases vs) (auto simp: circq_def CIRCLEQ_LOOP_NEXT_def)
  show "CIRCLEQ_LOOP_PREV h a m = Some (ElemCell (last (a # vs @ us)))"
    using assms by (auto simp: circq_def CIRCLEQ_LOOP_PREV_def last_cell_def)
qed

lemma circ_path:
  "links ElemCell (circ_next m) c xs \<Longrightarrow> circ_next m (last_cell c xs) = HeadCell h \<Longrightarrow>
   \<forall>x \<in> set xs. valid m (ElemCell x) \<Longrightarrow>
   \<exists>p. loop_var h (circ_next m c) = Some p \<and> path (\<lambda>a. get_next a m \<bind> loop_var h) p xs"
  by (induction xs arbitrary: c) (auto simp: loop_var_def)

lemma circ_reverse_path:
  "circq m h (us @ vs) \<Longrightarrow>
   \<exists>p. loop_var h (last_cell (HeadCell h) us) = Some p \<and> path (\<lambda>a. get_prev a m \<bind> loop_var h) p (rev us)"
proof (induction us arbitrary: vs rule: rev_induct)
  case (snoc a us)
  then have "circq m h (us @ a # vs)"
    by simp
  from snoc.IH [OF this] this show ?case
    by (auto simp: loop_var_def circq_def)
qed (simp add: loop_var_def)

lemma CIRCLEQ_FOREACH_each:
  assumes c: "circq (mem s) h xs" and body: "\<And>a s s'. body a s = Some s' \<Longrightarrow> mem s' = mem s"
  shows "CIRCLEQ_FOREACH mem body h s = each body xs s" "CIRCLEQ_FOREACH_REVERSE mem body h s = each body (rev xs) s"
proof -
  obtain p where p: "loop_var h (circ_next (mem s) (HeadCell h)) = Some p"
    "path (\<lambda>a. get_next a (mem s) \<bind> loop_var h) p xs"
    using circ_path [of "mem s" "HeadCell h" xs h] c by (auto simp: circq_def)
  show "CIRCLEQ_FOREACH mem body h s = each body xs s"
    using foreach_each [where nextp = "\<lambda>s a. get_next a (mem s) \<bind> loop_var h" and body = body, OF _ p(2)] body p(1)
    by (simp add: CIRCLEQ_FOREACH_def CIRCLEQ_FIRST_def)
  obtain q where q: "loop_var h (circ_last (mem s) h) = Some q"
    "path (\<lambda>a. get_prev a (mem s) \<bind> loop_var h) q (rev xs)"
    using circ_reverse_path [of "mem s" h xs "[]"] c by (auto simp: circq_def)
  show "CIRCLEQ_FOREACH_REVERSE mem body h s = each body (rev xs) s"
    using foreach_each [where nextp = "\<lambda>s a. get_prev a (mem s) \<bind> loop_var h" and body = body, OF _ q(2)] body q(1)
    by (simp add: CIRCLEQ_FOREACH_REVERSE_def CIRCLEQ_LAST_def)
qed

lemma CIRCLEQ_FOREACH_SAFE_each:
  assumes c: "circq (mem s) h xs"
    and body: "\<And>a s s' b. body a s = Some s' \<Longrightarrow> b \<noteq> a \<Longrightarrow> elems (mem s') b = elems (mem s) b"
  shows "CIRCLEQ_FOREACH_SAFE mem body h s = each body xs s"
proof -
  obtain p where p: "loop_var h (circ_next (mem s) (HeadCell h)) = Some p"
    "path (\<lambda>a. get_next a (mem s) \<bind> loop_var h) p xs"
    using circ_path [of "mem s" "HeadCell h" xs h] c by (auto simp: circq_def)
  have same: "get_next b (mem s') \<bind> loop_var h = get_next b (mem s) \<bind> loop_var h"
    if "body a s = Some s'" "b \<noteq> a" for a s s' b
    using body [OF that] by (simp add: get_next_def valid_def circ_next_def)
  have "distinct xs"
    using c by (simp add: circq_def)
  then show ?thesis
    using foreach_safe_each [where nextp = "\<lambda>s a. get_next a (mem s) \<bind> loop_var h" and body = body, OF same _ p(2)] p(1)
    by (simp add: CIRCLEQ_FOREACH_SAFE_def CIRCLEQ_FIRST_def)
qed

end
