(* ===== verification/QueueProperties.thy ===== *)
theory QueueProperties
  imports ListQueue TailQueue SimpleTailQueue CircleQueue
begin

text \<open>
  Properties of the list families of \<open>slist/queue.h\<close> that the server does not use: from any memory,
  every sequence of macros whose preconditions hold is defined, the heads then have the lists that
  the list operations give, and the loops of the family walk through exactly these lists.
\<close>

section \<open>A loop body that notes the elements\<close>

definition note_elem :: "addr \<Rightarrow> addr list \<times> 'm \<Rightarrow> (addr list \<times> 'm) option" where
  "note_elem a s = Some (fst s @ [a], snd s)"

lemma each_note [simp]: "each note_elem xs (ys, m) = Some (ys @ xs, m)"
  by (induction xs arbitrary: ys) (auto simp: note_elem_def)

lemma note_keeps: "note_elem a s = Some s' \<Longrightarrow> snd s' = snd s"
  by (auto simp: note_elem_def)

lemma queues_ok_empty [simp]: "queues_ok rep m Map.empty"
  by (simp add: queues_ok_def)

lemma queues_okD: "queues_ok rep m ls \<Longrightarrow> ls h = Some xs \<Longrightarrow> rep m h xs"
  by (simp add: queues_ok_def)

text \<open>The loops of the families note the list of the head.\<close>

lemma LIST_notes:
  assumes "listq m h xs"
  shows "LIST_FOREACH snd note_elem h ([], m) = Some (xs, m)" "LIST_EMPTY h m \<longleftrightarrow> xs = []"
proof -
  show "LIST_FOREACH snd note_elem h ([], m) = Some (xs, m)"
    using LIST_FOREACH_each [of snd "([], m)" h xs note_elem] assms by (simp add: note_keeps)
  show "LIST_EMPTY h m \<longleftrightarrow> xs = []"
    using assms by (cases xs) (auto simp: listq_def LIST_EMPTY_def LIST_FIRST_def)
qed

lemma TAILQ_notes:
  assumes "tailq m h xs"
  shows "TAILQ_FOREACH snd note_elem h ([], m) = Some (xs, m)"
    "TAILQ_FOREACH_SAFE snd note_elem h ([], m) = Some (xs, m)"
    "TAILQ_FOREACH_REVERSE snd note_elem h ([], m) = Some (rev xs, m)"
    "TAILQ_FOREACH_REVERSE_SAFE snd note_elem h ([], m) = Some (rev xs, m)"
proof -
  let ?s = "([], m)"
  show "TAILQ_FOREACH snd note_elem h ?s = Some (xs, m)"
    using TAILQ_FOREACH_each [of snd ?s h xs note_elem] assms by (simp add: note_keeps)
  show "TAILQ_FOREACH_SAFE snd note_elem h ?s = Some (xs, m)"
    using TAILQ_FOREACH_SAFE_each [of snd ?s h xs note_elem] assms by (simp add: note_keeps)
  show "TAILQ_FOREACH_REVERSE snd note_elem h ?s = Some (rev xs, m)"
    "TAILQ_FOREACH_REVERSE_SAFE snd note_elem h ?s = Some (rev xs, m)"
    using TAILQ_FOREACH_REVERSE_each [of snd ?s h xs note_elem] assms by (simp_all add: note_keeps)
qed

lemma STAILQ_notes:
  assumes "stailq m h xs"
  shows "STAILQ_FOREACH snd note_elem h ([], m) = Some (xs, m)"
    "STAILQ_FOREACH_SAFE snd note_elem h ([], m) = Some (xs, m)"
proof -
  let ?s = "([], m)"
  show "STAILQ_FOREACH snd note_elem h ?s = Some (xs, m)"
    using STAILQ_FOREACH_each [of snd ?s h xs note_elem] assms by (simp add: note_keeps)
  show "STAILQ_FOREACH_SAFE snd note_elem h ?s = Some (xs, m)"
    using STAILQ_FOREACH_SAFE_each [of snd ?s h xs note_elem] assms by (simp add: note_keeps)
qed

lemma CIRCLEQ_notes:
  assumes "circq m h xs"
  shows "CIRCLEQ_FOREACH snd note_elem h ([], m) = Some (xs, m)"
    "CIRCLEQ_FOREACH_SAFE snd note_elem h ([], m) = Some (xs, m)"
    "CIRCLEQ_FOREACH_REVERSE snd note_elem h ([], m) = Some (rev xs, m)"
proof -
  let ?s = "([], m)"
  show "CIRCLEQ_FOREACH snd note_elem h ?s = Some (xs, m)" "CIRCLEQ_FOREACH_REVERSE snd note_elem h ?s = Some (rev xs, m)"
    using CIRCLEQ_FOREACH_each [of snd ?s h xs note_elem] assms by (simp_all add: note_keeps)
  show "CIRCLEQ_FOREACH_SAFE snd note_elem h ?s = Some (xs, m)"
    using CIRCLEQ_FOREACH_SAFE_each [of snd ?s h xs note_elem] assms by (simp add: note_keeps)
qed

text \<open>The operations of the witnesses: two heads, elements 1 to 5.\<close>

definition five :: "'e \<Rightarrow> addr \<rightharpoonup> 'e" where
  "five e = [1 \<mapsto> e, 2 \<mapsto> e, 3 \<mapsto> e, 4 \<mapsto> e, 5 \<mapsto> e]"

lemma dom_five [simp]: "dom (five e) = {1, 2, 3, 4, 5}"
  by (auto simp: five_def split: if_splits)

text \<open>Whether an element is fresh, by the updates of the lists.\<close>

lemma fresh_upd: "fresh A (ls(h \<mapsto> xs)) e \<longleftrightarrow> e \<notin> set xs \<and> fresh A (ls(h := None)) e"
  by (auto simp: fresh_def ran_def)

lemma upd_none_twist: "k \<noteq> h \<Longrightarrow> ls(k \<mapsto> v, h := None) = ls(h := None, k \<mapsto> v)"
  by (rule fun_upd_twist)

lemma fresh_empty: "fresh A Map.empty e \<longleftrightarrow> e \<in> A"
  by (simp add: fresh_def)

lemmas ops_eval = ops_spec_def fresh_upd upd_none_twist fresh_empty

section \<open>The families\<close>

text \<open>
  LIST: every sequence of LIST macros that start from \<open>LIST_INIT\<close> and get elements of the
  right lists is defined, and afterwards \<open>LIST_FOREACH\<close> visits what the list operations give.
\<close>

theorem LIST_keeps_lists:
  assumes "ops_pre (dom (elems m)) LIST_has ops Map.empty"
  shows "\<exists>m'. run_ops LIST_exec ops m = Some m' \<and> queues_ok listq m' (ops_spec ops Map.empty) \<and>
    (\<forall>h xs. ops_spec ops Map.empty h = Some xs \<longrightarrow>
       LIST_FOREACH snd note_elem h ([], m') = Some (xs, m') \<and> (LIST_EMPTY h m' \<longleftrightarrow> xs = []) \<and>
       (\<forall>us a vs. xs = us @ a # vs \<longrightarrow> LIST_PREV a h m' = Some (if us = [] then NULL else Some (last us))))"
proof -
  obtain m' where m': "run_ops LIST_exec ops m = Some m'" "queues_ok listq m' (ops_spec ops Map.empty)"
    using list_family.ops_refine [OF assms queues_ok_empty] by blast
  then show ?thesis
    using LIST_notes LIST_access(2) queues_okD [OF m'(2)] by (intro exI [of _ m']) blast
qed

theorem LIST_keeps_lists_witness:
  "\<exists>m'. run_ops LIST_exec [Init 1, Init 2, InsertHead 1 1, InsertAfter 1 1 2, InsertBefore 1 1 3, Remove 1 1,
       Replace 1 2 4, Swap 1 2] \<lparr>heads = (\<lambda>_. \<lparr>q_first = Some 9\<rparr>), elems = five \<lparr>e_next = None, e_prev = HeadCell 7\<rparr>\<rparr> =
     Some m' \<and> LIST_FOREACH snd note_elem 2 ([], m') = Some ([3, 4], m') \<and> LIST_PREV 4 2 m' = Some (Some 3)"
proof -
  let ?m = "\<lparr>heads = (\<lambda>_. \<lparr>q_first = Some 9\<rparr>), elems = five \<lparr>e_next = None, e_prev = HeadCell 7\<rparr>\<rparr>"
  let ?ops = "[Init 1, Init 2, InsertHead 1 1, InsertAfter 1 1 2, InsertBefore 1 1 3, Remove 1 1, Replace 1 2 4, Swap 1 2]"
  have pre: "ops_pre (dom (elems ?m)) LIST_has ?ops Map.empty" and spec: "ops_spec ?ops Map.empty 2 = Some ([3] @ 4 # [])"
    by (simp_all add: ops_eval)
  obtain m' where run: "run_ops LIST_exec ?ops ?m = Some m'" and lists: "\<forall>h xs. ops_spec ?ops Map.empty h = Some xs \<longrightarrow>
       LIST_FOREACH snd note_elem h ([], m') = Some (xs, m') \<and> (LIST_EMPTY h m' \<longleftrightarrow> xs = []) \<and>
       (\<forall>us a vs. xs = us @ a # vs \<longrightarrow> LIST_PREV a h m' = Some (if us = [] then NULL else Some (last us)))"
    using LIST_keeps_lists [OF pre] by (elim exE conjE)
  have "LIST_FOREACH snd note_elem 2 ([], m') = Some ([3, 4], m')" "LIST_PREV 4 2 m' = Some (Some 3)"
    using lists [rule_format, OF spec] by (simp_all add: Cons_eq_append_conv)
  then show ?thesis
    using run by auto
qed

text \<open>
  C35 (TAILQ): every sequence of TAILQ macros that start from \<open>TAILQ_INIT\<close> and get elements of the
  right lists is defined; afterwards the forward loops visit what the list operations give, the
  backward loops visit its reverse, and \<open>TAILQ_LAST\<close> is its last element.
\<close>

theorem TAILQ_keeps_lists:
  assumes "ops_pre (dom (elems m)) TAILQ_has ops Map.empty"
  shows "\<exists>m'. run_ops TAILQ_exec ops m = Some m' \<and> queues_ok tailq m' (ops_spec ops Map.empty) \<and>
    (\<forall>h xs. ops_spec ops Map.empty h = Some xs \<longrightarrow>
       TAILQ_FOREACH snd note_elem h ([], m') = Some (xs, m') \<and>
       TAILQ_FOREACH_SAFE snd note_elem h ([], m') = Some (xs, m') \<and>
       TAILQ_FOREACH_REVERSE snd note_elem h ([], m') = Some (rev xs, m') \<and>
       TAILQ_FOREACH_REVERSE_SAFE snd note_elem h ([], m') = Some (rev xs, m') \<and>
       TAILQ_LAST h m' = Some (if xs = [] then NULL else Some (last xs)))"
proof -
  obtain m' where m': "run_ops TAILQ_exec ops m = Some m'" "queues_ok tailq m' (ops_spec ops Map.empty)"
    using tail_family.ops_refine [OF assms queues_ok_empty] by blast
  then show ?thesis
    using TAILQ_notes tailq_LAST queues_okD [OF m'(2)] by (intro exI [of _ m']) blast
qed

theorem TAILQ_keeps_lists_witness:
  "\<exists>m'. run_ops TAILQ_exec [Init 1, Init 2, InsertTail 1 1, InsertTail 1 2, InsertHead 2 3, InsertBefore 1 2 4,
       Remove 1 2, Concat 2 1, Replace 2 4 5]
       \<lparr>heads = (\<lambda>_. \<lparr>q_first = Some 9, q_last = HeadCell 7\<rparr>), elems = five \<lparr>e_next = None, e_prev = HeadCell 7\<rparr>\<rparr> =
     Some m' \<and> TAILQ_FOREACH_REVERSE snd note_elem 2 ([], m') = Some ([5, 1, 3], m')"
proof -
  let ?m = "\<lparr>heads = (\<lambda>_. \<lparr>q_first = Some 9, q_last = HeadCell 7\<rparr>), elems = five \<lparr>e_next = None, e_prev = HeadCell 7\<rparr>\<rparr>"
  let ?ops = "[Init 1, Init 2, InsertTail 1 1, InsertTail 1 2, InsertHead 2 3, InsertBefore 1 2 4, Remove 1 2,
    Concat 2 1, Replace 2 4 5]"
  have pre: "ops_pre (dom (elems ?m)) TAILQ_has ?ops Map.empty" and spec: "ops_spec ?ops Map.empty 2 = Some [3, 1, 5]"
    by (simp_all add: ops_eval)
  obtain m' where "run_ops TAILQ_exec ?ops ?m = Some m'"
    and "TAILQ_FOREACH_REVERSE snd note_elem 2 ([], m') = Some (rev [3, 1, 5], m')"
    using TAILQ_keeps_lists [OF pre] spec by blast
  then show ?thesis
    by auto
qed

text \<open>
  STAILQ: every sequence of STAILQ macros that start from \<open>STAILQ_INIT\<close> and get elements of the
  right lists is defined, the search of \<open>STAILQ_REMOVE\<close> included; afterwards the loops visit what
  the list operations give, and \<open>STAILQ_LAST\<close> is its last element.
\<close>

theorem STAILQ_keeps_lists:
  assumes "ops_pre (dom (elems m)) STAILQ_has ops Map.empty"
  shows "\<exists>m'. run_ops STAILQ_exec ops m = Some m' \<and> queues_ok stailq m' (ops_spec ops Map.empty) \<and>
    (\<forall>h xs. ops_spec ops Map.empty h = Some xs \<longrightarrow>
       STAILQ_FOREACH snd note_elem h ([], m') = Some (xs, m') \<and>
       STAILQ_FOREACH_SAFE snd note_elem h ([], m') = Some (xs, m') \<and>
       STAILQ_LAST h m' = Some (if xs = [] then NULL else Some (last xs)))"
proof -
  obtain m' where m': "run_ops STAILQ_exec ops m = Some m'" "queues_ok stailq m' (ops_spec ops Map.empty)"
    using stail_family.ops_refine [OF assms queues_ok_empty] by blast
  then show ?thesis
    using STAILQ_notes stailq_LAST queues_okD [OF m'(2)] by (intro exI [of _ m']) blast
qed

theorem STAILQ_keeps_lists_witness:
  "\<exists>m'. run_ops STAILQ_exec [Init 1, Init 2, InsertTail 1 1, InsertTail 1 2, InsertAfter 1 2 3, Remove 1 3,
       InsertHead 2 4, RemoveHead 1, InsertTail 1 5, Concat 2 1]
       \<lparr>heads = (\<lambda>_. \<lparr>q_first = Some 9, q_last = HeadCell 7\<rparr>), elems = five \<lparr>e_next = None\<rparr>\<rparr> =
     Some m' \<and> STAILQ_FOREACH snd note_elem 2 ([], m') = Some ([4, 2, 5], m')"
proof -
  let ?m = "\<lparr>heads = (\<lambda>_. \<lparr>q_first = Some 9, q_last = HeadCell 7\<rparr>), elems = five \<lparr>e_next = None\<rparr>\<rparr>"
  let ?ops = "[Init 1, Init 2, InsertTail 1 1, InsertTail 1 2, InsertAfter 1 2 3, Remove 1 3, InsertHead 2 4,
    RemoveHead 1, InsertTail 1 5, Concat 2 1]"
  have pre: "ops_pre (dom (elems ?m)) STAILQ_has ?ops Map.empty" and spec: "ops_spec ?ops Map.empty 2 = Some [4, 2, 5]"
    by (simp_all add: ops_eval)
  show ?thesis
    using STAILQ_keeps_lists [OF pre] spec by blast
qed

text \<open>
  C36 (CIRCLEQ): every sequence of CIRCLEQ macros that start from \<open>CIRCLEQ_INIT\<close> and get elements of
  the right lists is defined; afterwards the loops visit what the list operations give, and
  \<open>CIRCLEQ_LOOP_NEXT\<close> and \<open>CIRCLEQ_LOOP_PREV\<close> go round it as a circle.
\<close>

theorem CIRCLEQ_keeps_lists:
  assumes "ops_pre (dom (elems m)) CIRCLEQ_has ops Map.empty"
  shows "\<exists>m'. run_ops CIRCLEQ_exec ops m = Some m' \<and> queues_ok circq m' (ops_spec ops Map.empty) \<and>
    (\<forall>h xs. ops_spec ops Map.empty h = Some xs \<longrightarrow>
       CIRCLEQ_FOREACH snd note_elem h ([], m') = Some (xs, m') \<and>
       CIRCLEQ_FOREACH_SAFE snd note_elem h ([], m') = Some (xs, m') \<and>
       CIRCLEQ_FOREACH_REVERSE snd note_elem h ([], m') = Some (rev xs, m') \<and>
       (\<forall>us a vs. xs = us @ a # vs \<longrightarrow>
          CIRCLEQ_LOOP_NEXT h a m' = Some (ElemCell (hd (vs @ us @ [a]))) \<and>
          CIRCLEQ_LOOP_PREV h a m' = Some (ElemCell (last (a # vs @ us)))))"
proof -
  obtain m' where m': "run_ops CIRCLEQ_exec ops m = Some m'" "queues_ok circq m' (ops_spec ops Map.empty)"
    using circ_family.ops_refine [OF assms queues_ok_empty] by blast
  moreover have "circq m' h xs" if "ops_spec ops Map.empty h = Some xs" for h xs
    using queues_okD [OF m'(2) that] .
  ultimately show ?thesis
    using CIRCLEQ_notes circq_neighbours by (intro exI [of _ m'] conjI allI impI) simp_all
qed

theorem CIRCLEQ_keeps_lists_witness:
  "\<exists>m'. run_ops CIRCLEQ_exec [Init 1, InsertTail 1 1, InsertHead 1 2, InsertAfter 1 2 3, InsertBefore 1 1 4, Remove 1 2]
       \<lparr>heads = (\<lambda>_. \<lparr>cqh_first = HeadCell 7, cqh_last = HeadCell 7\<rparr>),
        elems = five \<lparr>cqe_next = HeadCell 7, cqe_prev = HeadCell 7\<rparr>\<rparr> =
     Some m' \<and> CIRCLEQ_FOREACH_REVERSE snd note_elem 1 ([], m') = Some (rev [3, 4, 1], m')"
proof -
  let ?m = "\<lparr>heads = (\<lambda>_. \<lparr>cqh_first = HeadCell 7, cqh_last = HeadCell 7\<rparr>),
    elems = five \<lparr>cqe_next = HeadCell 7, cqe_prev = HeadCell 7\<rparr>\<rparr>"
  let ?ops = "[Init 1, InsertTail 1 1, InsertHead 1 2, InsertAfter 1 2 3, InsertBefore 1 1 4, Remove 1 2]"
  have pre: "ops_pre (dom (elems ?m)) CIRCLEQ_has ?ops Map.empty" and spec: "ops_spec ?ops Map.empty 1 = Some [3, 4, 1]"
    by (simp_all add: ops_eval)
  show ?thesis
    using CIRCLEQ_keeps_lists [OF pre] spec by blast
qed

end
