(* ===== verification/Exercises.thy ===== *)
theory Exercises
  imports Daemon
begin

text \<open>
  \<open>examples/systemcalls/systemcalls.c\<close> and \<open>finder-app/writer.c\<close>: running a command with \<open>fork\<close>,
  \<open>execv\<close> and \<open>waitpid\<close>, redirecting its output to a file, and writing a string to a file; and the constants of
  \<open>autotest-validate.c\<close>. The
  answers of the operating system are a record; what the program itself prints is left out.
  \<^term>\<open>None\<close> is undefined behaviour.
\<close>

unbundle bit_operations_syntax

section \<open>Wait statuses\<close>

text \<open>The status that \<open>waitpid\<close> stores: what \<open>exit\<close> puts there, and the macros that read it.\<close>

definition exit_status :: "u32 \<Rightarrow> u32" where
  "exit_status code = push_bit 8 (code AND 0xFF)"

definition WIFEXITED :: "u32 \<Rightarrow> bool" where
  "WIFEXITED status \<longleftrightarrow> status AND 0x7F = 0"

definition WEXITSTATUS :: "u32 \<Rightarrow> u32" where
  "WEXITSTATUS status = drop_bit 8 status AND 0xFF"

lemma low_bits: "(w :: u32) AND 0x7F = take_bit 7 w" "w AND 0xFF = take_bit 8 w"
  by (simp_all add: take_bit_eq_mask mask_eq_exp_minus_1)

lemma exit_status_exited [simp]: "WIFEXITED (exit_status code)"
  by (simp add: WIFEXITED_def exit_status_def low_bits take_bit_push_bit)

lemma exit_status_code [simp]: "WEXITSTATUS (exit_status code) = code AND 0xFF"
  unfolding WEXITSTATUS_def exit_status_def low_bits
  by (rule bit_eqI) (auto simp: bit_simps)

section \<open>Commands\<close>

text \<open>
  The operating system: \<open>x_system\<close> the result of \<open>system\<close>; whether \<open>fork\<close> and \<open>waitpid\<close> succeed; \<open>x_exec\<close>
  the wait status and the output of the program that \<open>execv\<close> starts, \<^term>\<open>None\<close> when \<open>execv\<close> fails;
  \<open>x_dup2\<close> whether \<open>dup2\<close> onto a descriptor succeeds; \<open>x_open\<close> the descriptor that \<open>open\<close> gives for a
  path, and the mask of file modes.
\<close>

record os =
  x_system :: "string \<Rightarrow> u32"
  x_fork :: bool
  x_exec :: "string list \<Rightarrow> (u32 \<times> byte list) option"
  x_wait :: bool
  x_dup2 :: "int \<Rightarrow> bool"
  x_open :: "string \<Rightarrow> int"
  x_umask :: u32

text \<open>What the calling process sees: files and their modes, its own open descriptors, its output.\<close>

record fs =
  files :: "string \<rightharpoonup> byte list"
  modes :: "string \<rightharpoonup> u32"
  open_outs :: "int set"
  stdout :: "byte list"

definition do_system :: "os \<Rightarrow> string \<Rightarrow> bool" where
  "do_system W cmd = (let retval = x_system W cmd in retval = 0)"

text \<open>The loop over the variable arguments: \<open>count\<close> of them, at least the path.\<close>

definition collect_args :: "int \<Rightarrow> string list \<Rightarrow> string list option" where
  "collect_args count args =
     (if 0 < count \<and> count \<le> int (length args) then Some (take (nat count) args) else None)"

text \<open>The part of the parent after the fork.\<close>

definition wait_result :: "os \<Rightarrow> u32 \<Rightarrow> bool" where
  "wait_result W status =
     (if \<not> x_wait W then False
      else if WIFEXITED status then
        (if WEXITSTATUS status = 0 then True else False)
      else False)"

text \<open>
  \<open>do_exec\<close>: the child's \<open>execv\<close> and, when that fails, its exit give the status the parent waits for.
\<close>

definition do_exec_child :: "os \<Rightarrow> string list \<Rightarrow> fs \<Rightarrow> u32 \<times> fs" where
  "do_exec_child W command s =
     (case x_exec W command of
        Some (status, out) \<Rightarrow> (status, s\<lparr>stdout := stdout s @ out\<rparr>)
      | None \<Rightarrow> (exit_status (word_of_int EXIT_FAILURE), s))"

definition do_exec :: "os \<Rightarrow> int \<Rightarrow> string list \<Rightarrow> fs \<Rightarrow> (bool \<times> fs) option" where
  "do_exec W count args s = do {
     command \<leftarrow> collect_args count args;
     let result = True;
     if \<not> x_fork W then Some (result, s)
     else do {
       let (status, s) = do_exec_child W command s;
       Some (wait_result W status, s)
     }
   }"

text \<open>
  \<open>open(outputfile, O_WRONLY | O_CREAT, 644)\<close>: an old file keeps its bytes and its mode, a new one is
  empty; the mode is the decimal number 644.
\<close>

definition open_output :: "os \<Rightarrow> string \<Rightarrow> fs \<Rightarrow> int \<times> fs" where
  "open_output W outputfile s =
     (let fd = x_open W outputfile
      in (fd, if fd < 0 then s
              else let s = s\<lparr>open_outs := insert fd (open_outs s)\<rparr>
              in if files s outputfile \<noteq> None then s
              else s\<lparr>files := (files s)(outputfile \<mapsto> []), modes := (modes s)(outputfile \<mapsto> 644 AND NOT (x_umask W))\<rparr>))"

text \<open>The output goes to the file from offset 0 on, over what is there.\<close>

definition overwrite :: "byte list \<Rightarrow> byte list \<Rightarrow> byte list" where
  "overwrite out old = out @ drop (length out) old"

definition redirect_child :: "os \<Rightarrow> string \<Rightarrow> string list \<Rightarrow> fs \<Rightarrow> u32 \<times> fs" where
  "redirect_child W outputfile command s =
     (if \<not> x_dup2 W 1 then (exit_status (word_of_int EXIT_FAILURE), s)
      else if \<not> x_dup2 W 2 then (exit_status (word_of_int EXIT_FAILURE), s)
      else case x_exec W command of
        Some (status, out) \<Rightarrow>
          (status, s\<lparr>files := (files s)(outputfile := map_option (overwrite out) (files s outputfile))\<rparr>)
      | None \<Rightarrow> (exit_status (word_of_int EXIT_FAILURE), s))"

definition do_exec_redirect :: "os \<Rightarrow> string \<Rightarrow> int \<Rightarrow> string list \<Rightarrow> fs \<Rightarrow> (bool \<times> fs) option" where
  "do_exec_redirect W outputfile count args s = do {
     command \<leftarrow> collect_args count args;
     let (fd, s) = open_output W outputfile s;
     if fd < 0 then Some (False, s)
     else if \<not> x_fork W then Some (False, s)
     else do {
       let (status, s) = redirect_child W outputfile command s;
       let s = s\<lparr>open_outs := open_outs s - {fd}\<rparr>;
       Some (wait_result W status, s)
     }
   }"

section \<open>The writer\<close>

text \<open>
  \<open>main(argc, argv)\<close> of \<open>writer.c\<close>; \<open>n\<close> is the result of \<open>write\<close>, at most the length of the string. A file
  that is created has mode \<open>0600\<close>. \<open>strlen\<close> sees all of an argument.
\<close>

definition writer_main :: "os \<Rightarrow> int \<Rightarrow> string list \<Rightarrow> fs \<Rightarrow> int \<times> fs" where
  "writer_main W n argv s =
     (if length argv < 3 then (1, s)
      else let filename = argv ! 1; content = map of_char (argv ! 2); fd = x_open W filename
      in if fd < 0 then (1, s)
      else let s = s\<lparr>open_outs := insert fd (open_outs s)\<rparr>;
               s = (if files s filename \<noteq> None then s
                    else s\<lparr>files := (files s)(filename \<mapsto> []), modes := (modes s)(filename \<mapsto> 0x180 AND NOT (x_umask W))\<rparr>)
      in if n < 0 then (1, s)
      else let s = s\<lparr>files := (files s)(filename := map_option (overwrite (take (nat n) content)) (files s filename)),
                     open_outs := open_outs s - {fd}\<rparr>
      in (0, s))"

section \<open>Validation\<close>

text \<open>
  The functions of \<open>autotest-validate.c\<close>, and the line of \<open>conf/username.txt\<close> that the last one is
  compared with.
\<close>

definition this_function_returns_true :: bool where
  "this_function_returns_true \<longleftrightarrow> True"

definition this_function_returns_false :: bool where
  "this_function_returns_false \<longleftrightarrow> False"

definition my_username :: string where
  "my_username = ''assignment-1-tasifacuj''"

definition conf_username :: string where
  "conf_username = ''assignment-3-tasifacuj''"

lemma my_username_not_configured: "my_username \<noteq> conf_username"
  by (simp add: my_username_def conf_username_def)

end
