(* ===== verification/Threading.thy ===== *)
theory Threading
  imports Prelude
begin

text \<open>
  \<open>examples/threading/threading.c\<close>: threads that sleep, take a mutex, hold it for a while and release
  it. \<open>threadfunc\<close> is a small state machine per thread; a schedule is a sequence of steps of the
  threads that share the mutex. \<^term>\<open>Undefined\<close> is undefined behaviour of C.
\<close>

section \<open>Data\<close>

text \<open>\<open>struct thread_data\<close>; \<open>thr_mtx\<close> is the address of the mutex that the thread is to take.\<close>

record thr_data =
  thr_mtx :: addr
  wait_to_obtain_ms :: u32
  wait_to_release_ms :: u32
  thread_complete_success :: bool

text \<open>
  Where a thread is in \<open>threadfunc\<close>: before the first \<open>usleep\<close>, before \<open>pthread_mutex_lock\<close>, before
  the second \<open>usleep\<close> with the mutex, or returned.
\<close>

datatype thr_pc = Starting | Obtaining | Holding | Returned

text \<open>The allocated structs, the running threads by their struct, and the holders of the mutexes.\<close>

record thr_world =
  thr_mem :: "addr \<rightharpoonup> thr_data"
  thr_pcs :: "addr \<rightharpoonup> thr_pc"
  thr_mutex :: "addr \<Rightarrow> addr option"

section \<open>Operations\<close>

text \<open>
  \<open>start_thread_obtaining_mutex\<close>: \<open>block\<close> is what \<open>malloc\<close> returns, not checked; \<open>rc\<close> the result of
  \<open>pthread_create\<close>. The struct is not freed when the thread cannot be created.
\<close>

definition start_thread_obtaining_mutex ::
  "ptr \<Rightarrow> int \<Rightarrow> addr \<Rightarrow> u32 \<Rightarrow> u32 \<Rightarrow> thr_world \<Rightarrow> (bool \<times> thr_world) option" where
  "start_thread_obtaining_mutex block rc mutex obtain_ms release_ms w = do {
     thr_d \<leftarrow> block;
     let w = w\<lparr>thr_mem := (thr_mem w)(thr_d \<mapsto>
       \<lparr>thr_mtx = mutex, wait_to_obtain_ms = obtain_ms, wait_to_release_ms = release_ms, thread_complete_success = False\<rparr>)\<rparr>;
     Some (if rc = 0 then (True, w\<lparr>thr_pcs := (thr_pcs w)(thr_d \<mapsto> Starting)\<rparr>) else (False, w))
   }"

text \<open>\<open>usleep(ms * 1000)\<close>: the product is computed in \<open>int\<close>.\<close>

definition sleep_defined :: "u32 \<Rightarrow> bool" where
  "sleep_defined ms \<longleftrightarrow> - (2 ^ 31) \<le> sint ms * 1000 \<and> sint ms * 1000 < 2 ^ 31"

datatype thr_step = Undefined | Blocked | Stepped thr_world

definition set_success :: "bool \<Rightarrow> addr \<Rightarrow> thr_world \<Rightarrow> thr_world" where
  "set_success b td w =
     w\<lparr>thr_mem := (thr_mem w)(td := map_option (\<lambda>d. d\<lparr>thread_complete_success := b\<rparr>) (thr_mem w td))\<rparr>"

definition set_pc :: "addr \<Rightarrow> thr_pc \<Rightarrow> thr_world \<Rightarrow> thr_world" where
  "set_pc td pc w = w\<lparr>thr_pcs := (thr_pcs w)(td \<mapsto> pc)\<rparr>"

text \<open>
  The next step of \<open>threadfunc\<close> in the thread of \<open>td\<close>; \<open>rc\<close> is what \<open>pthread_mutex_lock\<close> returns if
  it does not wait. A thread that waits for the mutex, has returned or was not started does nothing.
\<close>

definition threadfunc :: "int \<Rightarrow> addr \<Rightarrow> thr_world \<Rightarrow> thr_step" where
  "threadfunc rc td w =
     (case thr_mem w td of
        None \<Rightarrow> Undefined
      | Some d \<Rightarrow>
         (case thr_pcs w td of
            Some Starting \<Rightarrow>
              if sleep_defined (wait_to_obtain_ms d) then Stepped (set_pc td Obtaining w) else Undefined
          | Some Obtaining \<Rightarrow>
              if rc \<noteq> 0 then Stepped (set_pc td Returned (set_success False td w))
              else if thr_mutex w (thr_mtx d) \<noteq> None then Blocked
              else Stepped (set_pc td Holding (w\<lparr>thr_mutex := (thr_mutex w)(thr_mtx d \<mapsto> td)\<rparr>))
          | Some Holding \<Rightarrow>
              if sleep_defined (wait_to_release_ms d)
              then Stepped (set_pc td Returned (set_success True td (w\<lparr>thr_mutex := (thr_mutex w)(thr_mtx d := None)\<rparr>)))
              else Undefined
          | _ \<Rightarrow> Blocked))"

text \<open>A run: threads are started and step, in any order.\<close>

inductive threads :: "thr_world \<Rightarrow> bool" where
  none: "threads \<lparr>thr_mem = Map.empty, thr_pcs = Map.empty, thr_mutex = Map.empty\<rparr>"
| start: "threads w \<Longrightarrow> thr_mem w a = None \<Longrightarrow>
    start_thread_obtaining_mutex (Some a) rc mtx m1 m2 w = Some (ok, w') \<Longrightarrow> threads w'"
| step: "threads w \<Longrightarrow> threadfunc rc td w = Stepped w' \<Longrightarrow> threads w'"

section \<open>Mutual exclusion\<close>

text \<open>
  Every thread has its struct; the holder of a mutex is the one thread of this mutex between lock
  and unlock; only a thread that has returned has reported success.
\<close>

definition holds :: "thr_world \<Rightarrow> addr \<Rightarrow> addr \<Rightarrow> bool" where
  "holds w td m \<longleftrightarrow> thr_pcs w td = Some Holding \<and> map_option thr_mtx (thr_mem w td) = Some m"

definition threads_inv :: "thr_world \<Rightarrow> bool" where
  "threads_inv w \<longleftrightarrow> (\<forall>td. thr_mem w td = None \<longrightarrow> thr_pcs w td = None) \<and>
     (\<forall>m td. thr_mutex w m = Some td \<longleftrightarrow> holds w td m) \<and>
     (\<forall>td d. thr_mem w td = Some d \<longrightarrow> thread_complete_success d \<longrightarrow> thr_pcs w td = Some Returned)"

lemma holder: "threads_inv w \<Longrightarrow> thr_mutex w m = Some td \<longleftrightarrow> holds w td m"
  unfolding threads_inv_def by metis

text \<open>Who holds what after the changes that a step makes.\<close>

lemma holds_simps [simp]:
  "holds (set_pc td pc w) x m \<longleftrightarrow> (if x = td then pc = Holding \<and> map_option thr_mtx (thr_mem w td) = Some m else holds w x m)"
  "holds (set_success b td w) x m \<longleftrightarrow> holds w x m"
  "holds (w\<lparr>thr_mutex := f\<rparr>) x m \<longleftrightarrow> holds w x m"
  by (auto simp: holds_def set_pc_def set_success_def)

lemma step_fields [simp]:
  "thr_mem (set_pc td pc w) = thr_mem w" "thr_mutex (set_pc td pc w) = thr_mutex w"
  "thr_pcs (set_pc td pc w) = (thr_pcs w)(td \<mapsto> pc)"
  "thr_pcs (set_success b td w) = thr_pcs w" "thr_mutex (set_success b td w) = thr_mutex w"
  "thr_mem (set_success b td w) = (thr_mem w)(td := map_option (\<lambda>d. d\<lparr>thread_complete_success := b\<rparr>) (thr_mem w td))"
  by (simp_all add: set_pc_def set_success_def)

lemma start_inv:
  assumes "threads_inv w" "thr_mem w a = None" "start_thread_obtaining_mutex (Some a) rc mtx m1 m2 w = Some (ok, w')"
  shows "threads_inv w'"
proof -
  have "thr_pcs w a = None"
    using assms(1,2) by (simp add: threads_inv_def)
  then have "holds w' x m \<longleftrightarrow> holds w x m" for x m
    using assms by (auto simp: holds_def start_thread_obtaining_mutex_def Let_def split: if_splits)
  then show ?thesis
    using assms by (auto simp: threads_inv_def start_thread_obtaining_mutex_def Let_def split: if_splits)
qed

lemma step_inv:
  assumes "threads_inv w" "threadfunc rc td w = Stepped w'"
  shows "threads_inv w'"
proof -
  obtain d pc where d: "thr_mem w td = Some d" "thr_pcs w td = Some pc"
    using assms(2) by (auto simp: threadfunc_def split: option.splits)
  have h: "holds w td m \<longleftrightarrow> pc = Holding \<and> m = thr_mtx d" for m
    using d by (auto simp: holds_def)
  show ?thesis
  proof (cases pc)
    case Holding
    then have "w' = set_pc td Returned (set_success True td (w\<lparr>thr_mutex := (thr_mutex w)(thr_mtx d := None)\<rparr>))"
      using assms(2) d by (simp add: threadfunc_def split: if_splits)
    moreover have "x = td" if "holds w x (thr_mtx d)" for x
      using that h Holding holder [OF assms(1), of "thr_mtx d"] by (metis option.inject)
    ultimately show ?thesis
      using assms(1) h Holding d by (auto simp: threads_inv_def)
  qed (use assms d h in \<open>auto simp: threads_inv_def threadfunc_def split: if_splits\<close>)
qed

lemma threads_invariant: "threads w \<Longrightarrow> threads_inv w"
proof (induction rule: threads.induct)
  case none
  then show ?case
    by (simp add: threads_inv_def holds_def)
qed (use start_inv step_inv in blast)+

section \<open>Progress\<close>

text \<open>The steps that the running threads still take.\<close>

fun steps_left :: "thr_pc \<Rightarrow> nat" where
  "steps_left Starting = 3"
| "steps_left Obtaining = 2"
| "steps_left Holding = 1"
| "steps_left Returned = 0"

definition work_left :: "thr_world \<Rightarrow> nat" where
  "work_left w = map_sum steps_left (thr_pcs w)"

lemma set_pc_work:
  assumes "finite (dom (thr_pcs w))" "thr_pcs w td = Some pc"
  shows "work_left (set_pc td pc' w) + steps_left pc = work_left w + steps_left pc'"
  using map_sum_upd [OF assms] by (simp add: work_left_def)

lemma work_left_other [simp]:
  "work_left (w\<lparr>thr_mutex := m\<rparr>) = work_left w" "work_left (w\<lparr>thr_mem := t\<rparr>) = work_left w"
  by (simp_all add: work_left_def)

text \<open>Every step is work done.\<close>

lemma step_work:
  assumes "finite (dom (thr_pcs w))" "threadfunc rc td w = Stepped w'"
  shows "work_left w' < work_left w"
proof -
  obtain pc where pc: "thr_pcs w td = Some pc"
    using assms(2) by (auto simp: threadfunc_def split: option.splits)
  obtain w0 pc' where w': "w' = set_pc td pc' w0" "thr_pcs w0 = thr_pcs w" "work_left w0 = work_left w"
    "steps_left pc' < steps_left pc"
    using assms(2) pc by (auto simp: threadfunc_def set_success_def split: option.splits thr_pc.splits if_splits)
  then show ?thesis
    using set_pc_work [of w0 td pc pc'] assms(1) pc by simp
qed

text \<open>While the sleeps are in range, a step is possible until all threads have returned.\<close>

lemma progress:
  assumes inv: "threads_inv w" and sleeps: "\<forall>td d. thr_mem w td = Some d \<longrightarrow> sleep_defined (wait_to_obtain_ms d) \<and> sleep_defined (wait_to_release_ms d)"
    and left: "thr_pcs w td = Some pc" "pc \<noteq> Returned"
  shows "\<exists>t w'. threadfunc 0 t w = Stepped w'"
proof -
  have mem: "\<exists>d. thr_mem w t = Some d \<and> sleep_defined (wait_to_obtain_ms d) \<and> sleep_defined (wait_to_release_ms d)"
    if "thr_pcs w t \<noteq> None" for t
    using inv sleeps that by (cases "thr_mem w t") (auto simp: threads_inv_def)
  obtain d where d: "thr_mem w td = Some d" "sleep_defined (wait_to_obtain_ms d)" "sleep_defined (wait_to_release_ms d)"
    using mem left(1) by auto
  show ?thesis
  proof (cases "pc = Obtaining \<and> thr_mutex w (thr_mtx d) \<noteq> None")
    case True
    then obtain t where "thr_pcs w t = Some Holding"
      using holder [OF inv] by (auto simp: holds_def)
    then show ?thesis
      using mem [of t] by (intro exI [of _ t]) (auto simp: threadfunc_def)
  next
    case False
    then show ?thesis
      using d left by (intro exI [of _ td]) (cases pc; auto simp: threadfunc_def)
  qed
qed

end
