(* ===== verification/ExerciseProperties.thy ===== *)
theory ExerciseProperties
  imports Exercises Threading
begin

text \<open>Properties of the exercises: commands, the writer, and threads that share a mutex.\<close>

section \<open>Commands\<close>

lemma failure_status [simp]: "(word_of_int EXIT_FAILURE :: u32) AND 0xFF \<noteq> 0"
  by (simp add: EXIT_FAILURE_def)

text \<open>
  C40 (running a command): \<open>do_exec\<close> returns true if the command could be started, ended by itself
  and with status 0, and the wait succeeded; it returns true as well when \<open>fork\<close> failed, although
  its documentation promises false. Its output changes only if the command ran.
\<close>

theorem do_exec_reports:
  assumes "collect_args count args = Some command"
  shows "\<exists>r s'. do_exec W count args s = Some (r, s') \<and>
    (r \<longleftrightarrow> \<not> x_fork W \<or> x_wait W \<and>
       (\<exists>status out. x_exec W command = Some (status, out) \<and> WIFEXITED status \<and> WEXITSTATUS status = 0)) \<and>
    s' = (case x_exec W command of
            Some (status, out) \<Rightarrow> if x_fork W then s\<lparr>stdout := stdout s @ out\<rparr> else s
          | None \<Rightarrow> s)"
  using assms
  by (auto simp: do_exec_def do_exec_child_def wait_result_def Let_def split: option.splits prod.splits)

definition demo_os :: os where
  "demo_os = \<lparr>x_system = (\<lambda>_. 0), x_fork = True,
     x_exec = (\<lambda>c. if c ! 0 = ''/bin/echo'' then Some (exit_status 0, map of_char (concat (tl c)) @ [10]) else None),
     x_wait = True, x_dup2 = (\<lambda>_. True), x_open = (\<lambda>_. 5), x_umask = 0x12\<rparr>"

definition demo_fs :: fs where
  "demo_fs = \<lparr>files = [''log'' \<mapsto> [1, 2, 3, 4, 5]], modes = [''log'' \<mapsto> 0x1A4], open_outs = {0, 1, 2}, stdout = []\<rparr>"

theorem do_exec_reports_witness:
  "\<exists>s'. do_exec demo_os 2 [''/bin/echo'', ''a''] demo_fs = Some (True, s')"
proof -
  have "collect_args 2 [''/bin/echo'', ''a''] = Some [''/bin/echo'', ''a'']"
    by (simp add: collect_args_def)
  from do_exec_reports [OF this, of demo_os demo_fs] show ?thesis
    by (auto simp: demo_os_def)
qed



section \<open>The writer\<close>

text \<open>
  The writer: it exits with 0 exactly when it has both arguments and \<open>open\<close> and \<open>write\<close> do not
  fail; then the bytes that \<open>write\<close> took overwrite the start of the file, an old file keeps what lies
  behind them, and the descriptor is closed. A short write goes unnoticed; a failed one leaves the
  descriptor open.
\<close>

theorem writer_main_writes:
  assumes "x_open W (argv ! 1) \<notin> open_outs s"
  shows "\<exists>r s'. writer_main W n argv s = (r, s') \<and> r \<in> {0, 1} \<and>
    (r = 0 \<longleftrightarrow> 3 \<le> length argv \<and> 0 \<le> x_open W (argv ! 1) \<and> 0 \<le> n) \<and>
    (r = 0 \<longrightarrow> open_outs s' = open_outs s \<and> files s' = (files s)(argv ! 1 \<mapsto>
       overwrite (take (nat n) (map of_char (argv ! 2))) (case files s (argv ! 1) of None \<Rightarrow> [] | Some old \<Rightarrow> old))) \<and>
    (r = 1 \<longrightarrow> open_outs s' = (if 3 \<le> length argv \<and> 0 \<le> x_open W (argv ! 1)
       then insert (x_open W (argv ! 1)) (open_outs s) else open_outs s))"
  using assms by (auto simp: writer_main_def Let_def)

theorem writer_main_writes_witness:
  "\<exists>s'. writer_main demo_os 2 [''writer'', ''log'', ''abc''] demo_fs = (0, s') \<and> files s' ''log'' = Some [97, 98, 3, 4, 5]"
  using writer_main_writes [of demo_os "[''writer'', ''log'', ''abc'']" demo_fs 2]
  by (auto simp: demo_os_def demo_fs_def overwrite_def numeral_2_eq_2)

section \<open>Threads that share a mutex\<close>

text \<open>
  C37 (mutual exclusion): in every state that threads started by \<open>start_thread_obtaining_mutex\<close> reach
  in any order of their steps, of the threads that were given the same mutex at most one is between
  lock and unlock, it is the holder of the mutex, every thread has its struct, and only threads
  that have returned report success.
\<close>

theorem threads_exclude:
  assumes "threads w"
  shows "(\<forall>da db. thr_mem w a = Some da \<longrightarrow> thr_mem w b = Some db \<longrightarrow> thr_mtx da = thr_mtx db \<longrightarrow>
       thr_pcs w a = Some Holding \<longrightarrow> thr_pcs w b = Some Holding \<longrightarrow> a = b) \<and>
    (\<forall>m. thr_mutex w m = Some a \<longleftrightarrow> thr_pcs w a = Some Holding \<and> map_option thr_mtx (thr_mem w a) = Some m) \<and>
    (thr_pcs w a \<noteq> None \<longrightarrow> thr_mem w a \<noteq> None) \<and>
    (\<forall>d. thr_mem w a = Some d \<longrightarrow> thread_complete_success d \<longrightarrow> thr_pcs w a = Some Returned)"
proof -
  note inv = threads_invariant [OF assms]
  have "a = b" if "holds w a m" "holds w b m" for m
    using that holder [OF inv, of m] by (metis option.inject)
  then show ?thesis
    using inv holder [OF inv] unfolding threads_inv_def holds_def by auto
qed

text \<open>Two threads: the first sleeps, the second holds the mutex.\<close>

definition demo_data :: thr_data where
  "demo_data = \<lparr>thr_mtx = 7, wait_to_obtain_ms = 10, wait_to_release_ms = 20, thread_complete_success = False\<rparr>"

definition demo_threads :: "thr_pc \<Rightarrow> addr option \<Rightarrow> thr_world" where
  "demo_threads pc h =
     \<lparr>thr_mem = [1 \<mapsto> demo_data, 2 \<mapsto> demo_data], thr_pcs = [1 \<mapsto> Starting, 2 \<mapsto> pc], thr_mutex = Map.empty(7 := h)\<rparr>"

lemma demo_sleep: "sleep_defined (wait_to_obtain_ms demo_data)" "sleep_defined (wait_to_release_ms demo_data)"
  by (simp_all add: sleep_defined_def demo_data_def)

lemma demo_threads_reached: "threads (demo_threads Holding (Some 2))"
proof -
  have "threads \<lparr>thr_mem = [1 \<mapsto> demo_data], thr_pcs = [1 \<mapsto> Starting], thr_mutex = Map.empty\<rparr>"
    by (rule threads.start [OF threads.none, where a = 1 and rc = 0 and ok = True])
      (simp_all add: start_thread_obtaining_mutex_def demo_data_def Let_def)
  then have "threads (demo_threads Starting None)"
    by (rule threads.start [where a = 2 and rc = 0 and ok = True])
      (simp_all add: start_thread_obtaining_mutex_def demo_data_def demo_threads_def Let_def)
  then have "threads (demo_threads Obtaining None)"
    by (rule threads.step [where td = 2]) (simp add: threadfunc_def demo_threads_def set_pc_def demo_sleep)
  then show ?thesis
    by (rule threads.step [where td = 2 and rc = 0]) (simp add: threadfunc_def demo_threads_def set_pc_def demo_data_def)
qed

theorem threads_exclude_witness: "thr_mutex (demo_threads Holding (Some 2)) 7 = Some 2"
  using threads_exclude [OF demo_threads_reached, of 2 1] by (simp add: demo_threads_def demo_data_def)

lemma threads_finite: "threads w \<Longrightarrow> finite (dom (thr_pcs w))"
proof (induction rule: threads.induct)
  case (start w a rc m1 m2 ok w')
  then show ?case
    by (auto simp: start_thread_obtaining_mutex_def Let_def dom_if split: if_splits)
next
  case (step w rc td w')
  then show ?case
    by (auto simp: threadfunc_def set_pc_def set_success_def dom_if split: option.splits thr_pc.splits if_splits)
qed simp

definition sleeps_defined :: "thr_world \<Rightarrow> bool" where
  "sleeps_defined w \<longleftrightarrow> (\<forall>td d. thr_mem w td = Some d \<longrightarrow>
     sleep_defined (wait_to_obtain_ms d) \<and> sleep_defined (wait_to_release_ms d))"

lemma step_sleeps: "threadfunc rc td w = Stepped w' \<Longrightarrow> sleeps_defined w \<Longrightarrow> sleeps_defined w'"
  by (auto simp: sleeps_defined_def threadfunc_def set_pc_def set_success_def
      split: option.splits thr_pc.splits if_splits)

text \<open>
  C38 (threads come to their end): while the sleeps are in range and locking succeeds, every step
  leaves less to do and from every reached state the threads can go on until all have returned.
\<close>

theorem threads_finish:
  assumes "threads w" "sleeps_defined w"
  shows "(\<forall>rc td w'. threadfunc rc td w = Stepped w' \<longrightarrow> work_left w' < work_left w) \<and>
    (\<exists>w'. (\<lambda>v v'. \<exists>td. threadfunc 0 td v = Stepped v')\<^sup>*\<^sup>* w w' \<and> (\<forall>td \<in> dom (thr_pcs w'). thr_pcs w' td = Some Returned))"
proof
  show "\<forall>rc td w'. threadfunc rc td w = Stepped w' \<longrightarrow> work_left w' < work_left w"
    using step_work threads_finite [OF assms(1)] by blast
  let ?R = "\<lambda>v v'. \<exists>td. threadfunc 0 td v = Stepped v'"
  show "\<exists>w'. ?R\<^sup>*\<^sup>* w w' \<and> (\<forall>td \<in> dom (thr_pcs w'). thr_pcs w' td = Some Returned)"
    using assms
  proof (induction "work_left w" arbitrary: w rule: less_induct)
    case less
    show ?case
    proof (cases "\<forall>td \<in> dom (thr_pcs w). thr_pcs w td = Some Returned")
      case False
      then obtain td pc where "thr_pcs w td = Some pc" "pc \<noteq> Returned"
        by auto
      then obtain t w1 where w1: "threadfunc 0 t w = Stepped w1"
        using progress threads_invariant [OF less.prems(1)] less.prems(2) unfolding sleeps_defined_def by blast
      then have "work_left w1 < work_left w" "threads w1" "sleeps_defined w1"
        using step_work threads_finite threads.step step_sleeps less.prems by blast+
      from less.hyps [OF this] show ?thesis
        using w1 converse_rtranclp_into_rtranclp [of ?R w w1] by blast
    qed blast
  qed
qed

theorem threads_finish_witness:
  "\<exists>w'. (\<lambda>v v'. \<exists>td. threadfunc 0 td v = Stepped v')\<^sup>*\<^sup>* (demo_threads Holding (Some 2)) w' \<and>
     (\<forall>td \<in> dom (thr_pcs w'). thr_pcs w' td = Some Returned)"
proof -
  have "sleeps_defined (demo_threads Holding (Some 2))"
    using demo_sleep by (auto simp: sleeps_defined_def demo_threads_def split: if_splits)
  then show ?thesis
    using threads_finish [OF demo_threads_reached] by blast
qed

end
