(* ===== verification/Spec2Isabelle.thy ===== *)
theory Spec2Isabelle
  imports IoctlRace ServerProperties ConnProperties ShutdownProperties FileBuild PeerNames PollProperties QueueProperties ExerciseProperties
begin

text \<open>
  Verification of the AESD assignments: a Linux character driver that remembers the last ten
  newline-terminated commands written to it, two socket servers that append what clients send to
  a log and answer with the log (one with a thread per connection on top of the driver, an older one
  that polls, on a regular file), the list macros that the first one uses, and the exercises.

  How the parts fit: a client talks to \<open>server/aesd_server_thrd.c\<close>; its connection threads take
  \<open>write_lock\<close>, open \<open>/dev/aesdchar\<close>, write, seek by \<open>ioctl\<close> and read; each of these calls runs a
  handler of \<open>aesd-char-driver/main.c\<close>, which takes the driver's mutex and works on the ring of
  \<open>aesd-circular-buffer.c\<close>. The threads are kept on an SLIST of \<open>server/slist/queue.h\<close>.

  Conventions: C integers are words of their width on an LP64 target, signed ones read by
  \<^term>\<open>sint\<close>; pointers are optional addresses of blocks that have to be allocated; every operation
  returns an option whose \<^term>\<open>None\<close> is undefined behaviour of C or a call that never returns, so
  that a theorem that gives a result also says that all accesses are defined and that no lock is
  waited for in vain. \<open>KernelApi.load\<close> and \<open>QueueMem.load\<close> are this check for buffers and for link
  fields. The operating system answers from records that are arguments of the operations; what
  the code relies on of it is a locale with an interpretation on a concrete instance.

  Theories, in the order of the parts:

  \<^item> \<open>Prelude\<close>: types, the option monad, array access, shared facts on lists and words.

  \<^item> \<open>CircularBuffer\<close> is \<open>aesd-circular-buffer.{c,h}\<close>, function by function, with the ring of ten
    slots and its \<open>uint8_t\<close> indices. \<open>BoundedLog\<close> is the contract that the driver relies on (a log of
    the last entries that hands back what it displaces), \<open>RingInvariant\<close> the invariant of the ring,
    its reading \<open>ring_list\<close> as a list, and the interpretation of the contract.

  \<^item> \<open>KernelApi\<close> is what the driver uses of the kernel (\<open>kmalloc\<close>, \<open>kfree\<close>, \<open>copy_from_user\<close>,
    registration), with its laws \<open>kernel_ok\<close>. \<open>CharDriver\<close> is \<open>main.c\<close> of the driver: file-scope state
    \<open>aesd_state\<close> and one definition per handler. \<open>DriverInvariant\<close> has the invariant \<open>drv_inv\<close> (memory
    is exactly what the state points to) and the abstract device \<open>dev_feed\<close>; \<open>DriverRead\<close> relates reading
    and seeking to the content of the device; \<open>DriverLifecycle\<close> has loading, unloading and the step
    relation \<open>syscall\<close>; \<open>DriverProperties\<close> states what the driver guarantees. \<open>DriverRace\<close> lets whole
    writes fall between the turns of the walk that \<open>aesd_seek\<close> does without the lock, \<open>IoctlRace\<close> between
    the reads of the ring in \<open>aesd_unlocked_ioctl\<close>.

  \<^item> \<open>LogDevice\<close> is the interface of the server to the file it logs to, a locale that the driver behind
    the system call layer interprets. \<open>ScanSeek\<close> is the \<open>sscanf\<close> of the seek command. \<open>Slist\<close> has the
    SLIST macros over a store of nodes. \<open>Daemon\<close> is \<open>make_daemon\<close> of both servers. \<open>ServerThrd\<close> is
    \<open>aesd_server_thrd.c\<close> with \<open>main_thrd.c\<close>: messages, threads, accept loop, signals, shutdown, \<open>main\<close>.
    \<open>ServerMessages\<close> proves the message path over any log device, \<open>ServerThreads\<close> the list of threads
    and the accept loop, \<open>ServerProperties\<close> puts the server on the driver.

  \<^item> \<open>ConnThreads\<close> takes the connection threads apart: every system call, lock operation and update of
    a global is a step, and the steps of all threads, turns of the accept loop and signals mix in any
    order. \<open>ConnInvariant\<close> has the invariant of lock, structs and list, \<open>ConnLog\<close> what the log device
    is fed, \<open>ConnProgress\<close> that the threads cannot go on for ever and are stuck only at rest (ranks of
    the places, then what is left to read), \<open>ConnAtomic\<close> that the turns of \<open>ServerThrd\<close> are runs of these
    steps, \<open>ConnProperties\<close> states the results.

  \<^item> \<open>ConnShutdown\<close> is \<open>aesd_thrd_shutdown\<close> statement by statement in the main thread (\<open>exit_step\<close>), mixed
    with the same steps of the threads (\<open>exiting\<close>): the list while it is taken apart, which statement can
    be undefined, and the measure of what is left to do (six statements for each node, the statements
    after it, the threads that run). \<open>ExitAtomic\<close> shows that shutdown at one go, as in
    \<open>ServerThrd\<close>, is such a run, \<open>ShutdownProperties\<close> states what shutdown waits for, that it comes to
    its end once the clients leave, and what a late message does to it.

  \<^item> \<open>FileBuild\<close> is the threaded server as it is built without \<open>USE_AESD_CHAR_DEVICE\<close>: its timer, a regular
    file as an interpretation of the reading half of the log's contract, and what that build does to
    its log. \<open>PeerNames\<close> has \<open>log_remote_peer_name\<close> of both servers.

  \<^item> \<open>PollServer\<close> is \<open>aesdsocket.c\<close> with \<open>main.c\<close>: the client table, one turn of the \<open>poll\<close> loop,
    messages. \<open>PollMessages\<close> proves the message path over the laws of a log file, with a regular file as
    interpretation, \<open>PollTable\<close> that turns keep the table, \<open>PollProperties\<close> states the results.

  \<^item> \<open>QueueMem\<close> and \<open>QueueFamily\<close>: memory of heads and elements for the other list families of
    \<open>queue.h\<close>, and their contract, a locale: every macro does to the lists of the heads what its list
    operation does. \<open>ListQueue\<close> (LIST), \<open>SimpleTailQueue\<close> (STAILQ), \<open>TailQueue\<close> (TAILQ) and \<open>CircleQueue\<close>
    (CIRCLEQ) have the macros and interpret it, \<open>QueueProperties\<close> draws the consequences for sequences
    of macros and for the loops.

  \<^item> \<open>Exercises\<close> has \<open>systemcalls.c\<close>, \<open>writer.c\<close> and \<open>autotest-validate.c\<close>, \<open>Threading\<close> has \<open>threading.c\<close> as a step relation over
    all interleavings of its threads, \<open>ExerciseProperties\<close> their properties.

  What the lemmas show, in groups: refinement of abstract specifications (ring to list, driver to
  stream of bytes, message path to the log's content, list macros to list operations), invariants of
  reachable states (driver, list of threads, client table, mutex of the exercise), exact results of
  the operations on every branch with the errors, release of every block and lock, termination of
  the loops, and concrete runs for each. Where the code misbehaves a theorem shows the behaviour: the
  \<open>ioctl\<close> after the ring has wrapped around, the seek and the \<open>ioctl\<close> whose walks mix old and new sizes, the lock that stays taken when the log cannot be opened,
  the lock destroyed while threads use it, the server that a connected client keeps from ending, the descriptor that one thread closes for another, the log file that the other build overwrites, a
  full read of the older server, its full client table.

  Bounds: a kernel that keeps \<open>kernel_ok\<close> gives blocks of at most \<open>k_kmalloc_max\<close> bytes, below \<open>2^28\<close>,
  so that ten commands and a pending one stay below \<open>2^32\<close> and the 64-bit sums of the driver do not wrap;
  the \<open>int\<close> that counts the bytes of the log is followed up to \<open>2^31 - 1\<close>, and beyond it the addition is
  undefined in both servers. Loops whose end the
  code does not bound are \<open>partial_function (option)\<close>, and their theorems say that they return.

  Not modelled: the other lines for the system log; between \<open>open\<close> and the store of its result to
  \<open>log_fd\<close> no other thread steps; concurrency inside the
  driver beyond its mutex and the unlocked walks (between their turns writes are whole); \<open>CIRCLEQ_REPLACE\<close>, \<open>CIRCLEQ_FOREACH_REVERSE_SAFE\<close> and
  \<open>SLIST_HEAD_INITIALIZER\<close>, which do not compile; the test drivers of the exercises; scripts and build files.
\<close>

end
